(* ===== verification/Prelude.thy ===== *)
theory Prelude
  imports Main "HOL-Library.Word" "HOL-Library.Multiset"
begin

text \<open>
  Shared vocabulary of the development: the machine integers of the engine with the checked and
  saturating operations of Rust's standard library, the outcome of code that may panic, and the
  generic lemmas on words, lists and sums that several components use.
\<close>

section \<open>Machine integers\<close>

type_synonym u8 = "8 word"
type_synonym u32 = "32 word"
type_synonym u64 = "64 word"
type_synonym u128 = "128 word"

named_theorems rust_int
  \<open>characterisations of the checked, saturating and converting integer operations\<close>

definition checked_add :: "'a::len word \<Rightarrow> 'a word \<Rightarrow> 'a word option" where
  "checked_add a b = (if unat a + unat b < 2 ^ LENGTH('a) then Some (a + b) else None)"

definition checked_sub :: "'a::len word \<Rightarrow> 'a word \<Rightarrow> 'a word option" where
  "checked_sub a b = (if b \<le> a then Some (a - b) else None)"

definition checked_mul :: "'a::len word \<Rightarrow> 'a word \<Rightarrow> 'a word option" where
  "checked_mul a b = (if unat a * unat b < 2 ^ LENGTH('a) then Some (a * b) else None)"

definition saturating_sub :: "'a::len word \<Rightarrow> 'a word \<Rightarrow> 'a word" where
  "saturating_sub a b = (if b \<le> a then a - b else 0)"

text \<open>\<open>u32::try_from\<close> on a \<open>u64\<close>, and the widening \<open>as u64\<close> of a \<open>u32\<close>.\<close>

definition u32_try_from :: "u64 \<Rightarrow> u32 option" where
  "u32_try_from x = (if unat x < 2 ^ 32 then Some (ucast x) else None)"

definition as_u64 :: "u32 \<Rightarrow> u64" where
  "as_u64 x = ucast x"

definition u32_max :: u32 where
  "u32_max = 4294967295"

lemma unat_u32_max [simp]: "unat u32_max = 2 ^ 32 - 1"
  by (simp add: u32_max_def)

lemma unat_u32_lt [simp]: "unat (x :: u32) < 4294967296"
  using unsigned_less [of x, where ?'a = nat] by simp

lemma unat_u32_le [simp]: "unat (x :: u32) \<le> 4294967295"
  using unat_u32_lt [of x] by linarith

lemma unat_u64_lt [simp]: "unat (x :: u64) < 18446744073709551616"
  using unsigned_less [of x, where ?'a = nat] by simp

lemma unat_as_u64 [simp]: "unat (as_u64 x) = unat x"
proof -
  have "unat x < 2 ^ 64" using unat_u32_lt [of x] by (rule less_trans) simp
  then show ?thesis by (simp add: as_u64_def unsigned_ucast_eq take_bit_nat_eq_self)
qed

lemma unat_add_no_wrap:
  "unat a + unat b < 2 ^ LENGTH('a) \<Longrightarrow> unat (a + b :: 'a::len word) = unat a + unat b"
  by (simp add: unat_add_lem)

lemma checked_add_Some [rust_int]:
  "checked_add a b = Some c \<longleftrightarrow> unat c = unat a + unat (b :: 'a::len word)"
proof
  assume "checked_add a b = Some c"
  then show "unat c = unat a + unat b"
    by (auto simp: checked_add_def unat_add_no_wrap split: if_splits)
next
  assume c: "unat c = unat a + unat b"
  then have *: "unat a + unat b < 2 ^ LENGTH('a)" by (metis unsigned_less)
  with c have "c = a + b" by (simp add: unat_add_no_wrap word_unat_eq_iff)
  with * show "checked_add a b = Some c" by (simp add: checked_add_def)
qed

lemma checked_add_None [rust_int]:
  "checked_add a b = None \<longleftrightarrow> 2 ^ LENGTH('a) \<le> unat a + unat (b :: 'a::len word)"
  by (auto simp: checked_add_def)

lemma checked_sub_Some [rust_int]:
  "checked_sub a b = Some c \<longleftrightarrow> b \<le> a \<and> c = a - (b :: 'a::len word)"
  by (auto simp: checked_sub_def)

lemma unat_saturating_sub [rust_int]:
  "unat (saturating_sub a b) = unat a - unat (b :: 'a::len word)"
  by (auto simp: saturating_sub_def unat_sub word_le_nat_alt)

lemma u32_try_from_Some [rust_int]:
  "u32_try_from x = Some y \<longleftrightarrow> unat y = unat x"
proof
  assume "u32_try_from x = Some y"
  then show "unat y = unat x"
    by (auto simp: u32_try_from_def unsigned_ucast_eq take_bit_nat_eq_self split: if_splits)
next
  assume y: "unat y = unat x"
  then have "unat x < 2 ^ 32" using unat_u32_lt [of y] by simp
  moreover from this have "unat (ucast x :: u32) = unat x"
    by (simp add: unsigned_ucast_eq take_bit_nat_eq_self)
  ultimately show "u32_try_from x = Some y" using y
    by (simp add: u32_try_from_def word_unat_eq_iff)
qed

lemma u32_try_from_None [rust_int]:
  "u32_try_from x = None \<longleftrightarrow> 2 ^ 32 \<le> unat x"
  by (auto simp: u32_try_from_def)

lemma unat_minus_le: "b \<le> a \<Longrightarrow> unat (a - b :: 'a::len word) = unat a - unat b"
  by (simp add: unat_sub word_le_nat_alt)

lemma unat_min: "unat (min a b :: 'a::len word) = min (unat a) (unat b)"
  by (auto simp: min_def word_le_nat_alt)

lemma unat_zero_iff: "unat (a :: 'a::len word) = 0 \<longleftrightarrow> a = 0"
  by (simp add: unat_eq_0)

text \<open>Code equations over integers, for evaluation: the natural numbers above would count in unary.\<close>

lemma checked_add_eval [code]:
  "checked_add a b = (if uint a + uint b < 2 ^ LENGTH('a) then Some (a + b) else None)"
  for a b :: "'a::len word"
proof -
  have "unat a + unat b < 2 ^ LENGTH('a) \<longleftrightarrow> int (unat a + unat b) < int (2 ^ LENGTH('a))" by (rule of_nat_less_iff [symmetric])
  then show ?thesis by (simp add: checked_add_def)
qed

lemma checked_mul_eval [code]:
  "checked_mul a b = (if uint a * uint b < 2 ^ LENGTH('a) then Some (a * b) else None)"
  for a b :: "'a::len word"
proof -
  have "unat a * unat b < 2 ^ LENGTH('a) \<longleftrightarrow> int (unat a * unat b) < int (2 ^ LENGTH('a))" by (rule of_nat_less_iff [symmetric])
  then show ?thesis by (simp add: checked_mul_def)
qed

lemma u32_try_from_eval [code]:
  "u32_try_from x = (if uint x < 4294967296 then Some (ucast x) else None)"
proof -
  have "unat x < 4294967296 \<longleftrightarrow> int (unat x) < int 4294967296" by (rule of_nat_less_iff [symmetric])
  then show ?thesis by (simp add: u32_try_from_def)
qed

section \<open>Sums of machine integers\<close>

text \<open>A \<open>u64\<close> sum of \<open>u32\<close> values equals the mathematical sum while that sum fits.\<close>

lemma unat_sum_list_u64:
  "(\<Sum>x\<leftarrow>xs. unat (f x)) < 2 ^ 64 \<Longrightarrow> unat (\<Sum>x\<leftarrow>xs. f x :: u64) = (\<Sum>x\<leftarrow>xs. unat (f x))"
proof (induction xs)
  case (Cons x xs)
  have "(\<Sum>y\<leftarrow>xs. unat (f y)) < 2 ^ 64" using Cons.prems by simp
  then have "unat (\<Sum>y\<leftarrow>xs. f y) = (\<Sum>y\<leftarrow>xs. unat (f y))" by (rule Cons.IH)
  with Cons.prems show ?case by (simp add: unat_add_no_wrap)
qed simp

text \<open>\<open>n\<close> values of 32 bits sum to less than \<open>n * 2 ^ 32\<close>.\<close>

lemma sum_list_u32_bound:
  "(\<Sum>x\<leftarrow>xs. unat (f x :: u32)) \<le> length xs * 4294967295"
proof (induction xs)
  case (Cons x xs)
  then show ?case using unat_u32_le [of "f x"] by (simp del: unat_u32_le)
qed simp

section \<open>Outcomes\<close>

text \<open>Continue with the result of a step that may fail.\<close>

definition and_then :: "'e + 'a \<Rightarrow> ('a \<Rightarrow> 'e + 'b) \<Rightarrow> 'e + 'b" where
  "and_then r f = (case r of Inl e \<Rightarrow> Inl e | Inr a \<Rightarrow> f a)"

lemma and_then_simps [simp]:
  "and_then (Inl e) f = Inl e"
  "and_then (Inr a) f = f a"
  by (simp_all add: and_then_def)

lemma and_then_Inr: "and_then r f = Inr b \<longleftrightarrow> (\<exists>a. r = Inr a \<and> f a = Inr b)"
  by (cases r) auto

lemma and_then_Inl: "and_then r f = Inl e \<longleftrightarrow> r = Inl e \<or> (\<exists>a. r = Inr a \<and> f a = Inl e)"
  by (cases r) auto

text \<open>\<open>Option::ok_or\<close>.\<close>

definition ok_or :: "'a option \<Rightarrow> 'e \<Rightarrow> 'e + 'a" where
  "ok_or x e = (case x of None \<Rightarrow> Inl e | Some a \<Rightarrow> Inr a)"

lemma ok_or_simps [simp]:
  "ok_or None e = Inl e"
  "ok_or (Some a) e = Inr a"
  by (simp_all add: ok_or_def)

lemma ok_or_Inr [simp]: "ok_or x e = Inr a \<longleftrightarrow> x = Some a"
  by (cases x) auto

lemma ok_or_Inl [simp]: "ok_or x e = Inl e' \<longleftrightarrow> x = None \<and> e' = e"
  by (cases x) auto

section \<open>Lists and multisets\<close>

lemma sum_list_filter_le:
  "(\<Sum>x\<leftarrow>filter P xs. f x :: nat) \<le> (\<Sum>x\<leftarrow>xs. f x)"
  by (induction xs) auto

lemma sum_list_partition:
  "(\<Sum>x\<leftarrow>filter P xs. f x :: nat) + (\<Sum>x\<leftarrow>filter (\<lambda>x. \<not> P x) xs. f x) = (\<Sum>x\<leftarrow>xs. f x)"
  by (induction xs) auto

lemma sum_list_mset: "(\<Sum>x\<leftarrow>xs. f x) = (\<Sum>x\<in>#mset xs. f x)"
  by (metis mset_map sum_mset_sum_list)

end
