(* ===== verification/Types.thy ===== *)
theory Types
  imports Prelude
begin

text \<open>
  The basic types of the engine (\<open>types/mod.rs\<close>, \<open>trading_pair/mod.rs\<close>): prices, quantities,
  identifiers, the enumerations of an order, assets and trading pairs with their printed form,
  and the faults a run can end with.
\<close>

section \<open>Scalars\<close>

text \<open>
  A price is an \<open>i32\<close>, compared as a signed number. Quantities are \<open>u32\<close>, order and trade
  identifiers \<open>u64\<close>, user identifiers the 128 bits of a UUID.
\<close>

datatype price = Price "32 word"

primrec price_int :: "price \<Rightarrow> int" where
  "price_int (Price w) = sint w"

text \<open>\<open>price as u64\<close> extends the sign.\<close>

primrec price_as_u64 :: "price \<Rightarrow> u64" where
  "price_as_u64 (Price w) = scast w"

type_synonym quantity = u32
type_synonym user_id = u128
type_synonym order_id = u64
type_synonym trade_id = u64

lemma price_int_inject [simp]: "price_int p = price_int q \<longleftrightarrow> p = q"
  by (cases p; cases q) (auto intro: signed_word_eqI)

instantiation price :: linorder
begin

definition less_eq_price :: "price \<Rightarrow> price \<Rightarrow> bool" where
  "less_eq_price p q = (price_int p \<le> price_int q)"

definition less_price :: "price \<Rightarrow> price \<Rightarrow> bool" where
  "less_price p q = (price_int p < price_int q)"

instance
  by standard (auto simp: less_eq_price_def less_price_def)

end

lemma price_less_eq_eval [simp]: "Price a \<le> Price b \<longleftrightarrow> sint a \<le> sint b"
  by (simp add: less_eq_price_def)

lemma price_less_eval [simp]: "Price a < Price b \<longleftrightarrow> sint a < sint b"
  by (simp add: less_price_def)

lemma price_as_u64_nonneg:
  assumes "0 \<le> price_int p"
  shows "unat (price_as_u64 p) = nat (price_int p)"
proof (cases p)
  case (Price w)
  with assms have nn: "0 \<le> sint w" by simp
  have "sint w < 2 ^ 31" using sint_lt [of w] by simp
  then have "sint w < 2 ^ 64" by simp
  with nn have "take_bit 64 (sint w) = sint w" by (simp add: take_bit_int_eq_self_iff)
  then have "uint (scast w :: u64) = sint w"
    by (simp only: scast_eq uint_word_of_int_eq) simp
  then have "unat (scast w :: u64) = nat (sint w)" by (simp only: unat_eq_nat_uint)
  then show ?thesis by (simp only: Price price_as_u64.simps price_int.simps)
qed

lemma price_int_bound: "price_int p < 2 ^ 31"
proof (cases p)
  case (Price w)
  then show ?thesis using sint_lt [of w] by simp
qed

section \<open>Enumerations\<close>

datatype order_error = NoSuchPair | NoSuchUser | InsufficientBalance | InvalidOrder

datatype user_error = UserNoSuchUser | UserInsufficientBalance | UserBalanceOverflow

datatype order_type = GoodTillCancel | GoodForDay | FillAndKill | FillOrKill

datatype side = Buy | Sell

datatype order_status = Cancelled | PartiallyFilled | Filled | Empty

datatype asset = ETH | SOL | BTC | USDC | USDT

fun asset_to_string :: "asset \<Rightarrow> string" where
  "asset_to_string ETH = ''ETH''"
| "asset_to_string SOL = ''SOL''"
| "asset_to_string BTC = ''BTC''"
| "asset_to_string USDC = ''USDC''"
| "asset_to_string USDT = ''USDT''"

section \<open>Trading pairs\<close>

record trading_pair =
  base :: asset
  quote :: asset

definition trading_pair_new :: "asset \<Rightarrow> asset \<Rightarrow> trading_pair" where
  "trading_pair_new b q = \<lparr>base = b, quote = q\<rparr>"

definition pair_to_string :: "trading_pair \<Rightarrow> string" where
  "pair_to_string p = asset_to_string (base p) @ ''-'' @ asset_to_string (quote p)"

lemma asset_to_string_inject [simp]: "asset_to_string a = asset_to_string b \<longleftrightarrow> a = b"
  by (cases a; cases b) simp_all

text \<open>
  The printed form identifies the trading pair: two pairs print alike only if they are equal,
  so the label under which fills are published never confuses two books.
\<close>

lemma pair_to_string_injective: "pair_to_string p = pair_to_string q \<longleftrightarrow> p = q"
proof -
  have "asset_to_string a @ CHR ''-'' # asset_to_string b =
      asset_to_string c @ CHR ''-'' # asset_to_string d \<longleftrightarrow> a = c \<and> b = d" for a b c d
    by (cases a; cases b; cases c; cases d) simp_all
  then show ?thesis
    by (cases p; cases q) (simp add: pair_to_string_def)
qed

section \<open>Faults\<close>

text \<open>
  The ways a run of the code does not return: a panic, named by its site, or waiting for a clock
  reading that the modelled execution does not contain.
\<close>

datatype panic_site =
    ClockBeforeUnixEpoch
  | ClockMovedBackwards
  | MachineIdOutOfRange
  | DatacenterIdOutOfRange
  | FokSafetyNet order_id quantity
  | SettleNotionalOverflow
  | SettleBuyerMissing user_id
  | SettleSellerMissing user_id
  | SettleBuyerFailed order_id string
  | SettleSellerFailed order_id string
  | WalSerialization string
  | WalWriteFailed string
  | WalUnavailable string

datatype fault = Panic panic_site | ClockExhausted

section \<open>Decimal output\<close>

fun dec_string :: "nat \<Rightarrow> string" where
  "dec_string n =
     (if n < 10 then [char_of (48 + n)] else dec_string (n div 10) @ [char_of (48 + n mod 10)])"

declare dec_string.simps [simp del]

definition u64_to_string :: "u64 \<Rightarrow> string" where
  "u64_to_string x = dec_string (unat x)"

end
