(* ===== verification/Snowflake.thy ===== *)
theory Snowflake
  imports Types
begin

text \<open>
  The snowflake generator (\<open>snowflake_id/mod.rs\<close>) and the system clock it reads. A clock is the
  list of the readings of \<open>SystemTime::now\<close> that the run will see, in nanoseconds since the Unix
  epoch; each call consumes one. The busy-wait of \<open>next_id\<close> consumes readings until the
  millisecond changes, so it ends exactly when such a reading occurs.
\<close>

unbundle bit_operations_syntax

section \<open>The clock\<close>

type_synonym clock = "int list"

definition now_nanos :: "clock \<Rightarrow> fault + u64 \<times> clock" where
  "now_nanos c =
     (case c of
        [] \<Rightarrow> Inl ClockExhausted
      | t # c' \<Rightarrow> if t < 0 then Inl (Panic ClockBeforeUnixEpoch) else Inr (word_of_int t, c'))"

definition millis :: "int \<Rightarrow> u64" where
  "millis t = word_of_int (t div 1000000)"

definition current_millis :: "clock \<Rightarrow> fault + u64 \<times> clock" where
  "current_millis c =
     (case c of
        [] \<Rightarrow> Inl ClockExhausted
      | t # c' \<Rightarrow> if t < 0 then Inl (Panic ClockBeforeUnixEpoch) else Inr (millis t, c'))"

section \<open>The generator\<close>

definition MACHINE_BITS :: nat where "MACHINE_BITS = 5"
definition DATACENTER_BITS :: nat where "DATACENTER_BITS = 5"
definition SEQUENCE_BITS :: nat where "SEQUENCE_BITS = 12"
definition MAX_MACHINE_ID :: u64 where "MAX_MACHINE_ID = push_bit MACHINE_BITS 1 - 1"
definition MAX_DATACENTER_ID :: u64 where "MAX_DATACENTER_ID = push_bit DATACENTER_BITS 1 - 1"
definition MAX_SEQUENCE_ID :: u64 where "MAX_SEQUENCE_ID = push_bit SEQUENCE_BITS 1 - 1"
definition MACHINE_SHIFT :: nat where "MACHINE_SHIFT = SEQUENCE_BITS"
definition DATACENTER_SHIFT :: nat where "DATACENTER_SHIFT = MACHINE_SHIFT + MACHINE_BITS"
definition TIMESTAMP_SHIFT :: nat where "TIMESTAMP_SHIFT = DATACENTER_SHIFT + DATACENTER_BITS"
definition EPOCH :: u64 where "EPOCH = 1704067200000"

lemmas layout = MACHINE_BITS_def DATACENTER_BITS_def SEQUENCE_BITS_def MAX_MACHINE_ID_def
  MAX_DATACENTER_ID_def MAX_SEQUENCE_ID_def MACHINE_SHIFT_def DATACENTER_SHIFT_def
  TIMESTAMP_SHIFT_def

lemma max_ids [simp]:
  "MAX_MACHINE_ID = 31" "MAX_DATACENTER_ID = 31" "MAX_SEQUENCE_ID = 4095"
  "MACHINE_SHIFT = 12" "DATACENTER_SHIFT = 17" "TIMESTAMP_SHIFT = 22"
  by (simp_all add: layout push_bit_eq_mult)

record generator =
  machine_id :: u64
  datacenter_id :: u64
  sequence :: u64
  last_timestamp :: u64

definition generator_new :: "u64 \<Rightarrow> u64 \<Rightarrow> fault + generator" where
  "generator_new m d =
     (if \<not> m \<le> MAX_MACHINE_ID then Inl (Panic MachineIdOutOfRange)
      else if \<not> d \<le> MAX_DATACENTER_ID then Inl (Panic DatacenterIdOutOfRange)
      else Inr \<lparr>machine_id = m, datacenter_id = d, sequence = 0, last_timestamp = 0\<rparr>)"

fun wait_next_millis :: "u64 \<Rightarrow> clock \<Rightarrow> fault + u64 \<times> clock" where
  "wait_next_millis prev [] = Inl ClockExhausted"
| "wait_next_millis prev (t # c) =
     (if t < 0 then Inl (Panic ClockBeforeUnixEpoch)
      else if millis t \<le> prev then wait_next_millis prev c
      else Inr (millis t, c))"

definition encode_id :: "generator \<Rightarrow> u64" where
  "encode_id g =
     push_bit TIMESTAMP_SHIFT (last_timestamp g - EPOCH)
       OR push_bit DATACENTER_SHIFT (datacenter_id g)
       OR push_bit MACHINE_SHIFT (machine_id g)
       OR sequence g"

definition next_id :: "generator \<Rightarrow> clock \<Rightarrow> fault + u64 \<times> generator \<times> clock" where
  "next_id g c =
     and_then (current_millis c) (\<lambda>(timestamp, c).
       if \<not> last_timestamp g \<le> timestamp then Inl (Panic ClockMovedBackwards)
       else
         and_then
           (if timestamp = last_timestamp g then
              (let g = g\<lparr>sequence := (sequence g + 1) AND MAX_SEQUENCE_ID\<rparr> in
               if sequence g = 0 then
                 and_then (wait_next_millis (last_timestamp g) c) (\<lambda>(timestamp, c).
                   Inr (g, timestamp, c))
               else Inr (g, timestamp, c))
            else Inr (g\<lparr>sequence := 0\<rparr>, timestamp, c))
           (\<lambda>(g, timestamp, c).
              let g = g\<lparr>last_timestamp := timestamp\<rparr> in Inr (encode_id g, g, c)))"

section \<open>The value of an identifier\<close>

lemma bit_small_word: "unat (b :: 'a::len word) < 2 ^ n \<Longrightarrow> bit b i \<Longrightarrow> i < n"
proof (rule ccontr)
  assume b: "unat b < 2 ^ n" and bit: "bit b i" and "\<not> i < n"
  then have "take_bit n (unat b) = unat b" by (simp add: take_bit_nat_eq_self_iff)
  then have "bit (take_bit n (unat b)) i" using bit by (simp add: bit_unsigned_iff)
  with \<open>\<not> i < n\<close> show False by (simp add: bit_take_bit_iff)
qed

text \<open>Joining a shifted field with a field that fits below it adds the two numbers.\<close>

lemma unat_field_or:
  fixes a b :: u64
  assumes b: "unat b < 2 ^ n" and a: "unat a * 2 ^ n + 2 ^ n \<le> 2 ^ 64"
  shows "unat (push_bit n a OR b) = unat a * 2 ^ n + unat b"
proof -
  have "\<not> bit (push_bit n a) i \<or> \<not> bit b i" for i
    using bit_small_word [OF b, of i] by (auto simp: bit_push_bit_iff)
  then have "push_bit n a AND b = 0" by (auto intro!: bit_word_eqI simp: bit_and_iff)
  then have or: "push_bit n a OR b = push_bit n a + b"
    using word_plus_and_or [of "push_bit n a" b] by simp
  have "unat a * 2 ^ n < 2 ^ 64" using a by (rule less_le_trans [rotated]) simp
  then have "unat (push_bit n a) = unat a * 2 ^ n"
    unfolding unsigned_push_bit_eq by (simp add: push_bit_eq_mult take_bit_nat_eq_self_iff)
  then show ?thesis using a b by (simp add: or unat_add_no_wrap)
qed

definition in_era :: "u64 \<Rightarrow> bool" where
  "in_era t \<longleftrightarrow> unat EPOCH \<le> unat t \<and> unat t < unat EPOCH + 2 ^ 42"

definition gen_ok :: "generator \<Rightarrow> bool" where
  "gen_ok g \<longleftrightarrow> unat (machine_id g) < 32 \<and> unat (datacenter_id g) < 32 \<and>
     unat (sequence g) < 4096 \<and> (last_timestamp g = 0 \<or> in_era (last_timestamp g))"

definition clock_ok :: "clock \<Rightarrow> bool" where
  "clock_ok c \<longleftrightarrow> (\<forall>t \<in> set c. 0 \<le> t \<and> in_era (millis t))"

lemma clock_ok_simps [simp]:
  "clock_ok []"
  "clock_ok (t # c) \<longleftrightarrow> 0 \<le> t \<and> in_era (millis t) \<and> clock_ok c"
  by (auto simp: clock_ok_def)

definition id_value :: "generator \<Rightarrow> nat" where
  "id_value g = (unat (last_timestamp g) - unat EPOCH) * 2 ^ 22
     + (unat (datacenter_id g) * 2 ^ 17 + (unat (machine_id g) * 2 ^ 12 + unat (sequence g)))"

lemma unat_encode_id:
  assumes "gen_ok g" and "in_era (last_timestamp g)"
  shows "unat (encode_id g) = id_value g"
proof -
  let ?t = "last_timestamp g - EPOCH" and ?d = "datacenter_id g" and ?m = "machine_id g"
    and ?s = "sequence g"
  have lim: "unat ?d < 32" "unat ?m < 32" "unat ?s < 4096" using assms by (simp_all add: gen_ok_def)
  have t: "unat ?t = unat (last_timestamp g) - unat EPOCH"
    using assms(2) by (intro unat_minus_le) (simp add: in_era_def word_le_nat_alt)
  have t_lim: "unat ?t < 2 ^ 42" using assms(2) unfolding t in_era_def by linarith
  have m: "unat (push_bit 12 ?m OR ?s) = unat ?m * 2 ^ 12 + unat ?s"
    using lim by (intro unat_field_or) simp_all
  have d: "unat (push_bit 17 ?d OR push_bit 12 ?m OR ?s) =
      unat ?d * 2 ^ 17 + (unat ?m * 2 ^ 12 + unat ?s)"
    using lim m by (subst unat_field_or) simp_all
  show ?thesis
    using lim d t_lim by (simp add: encode_id_def id_value_def unat_field_or flip: t)
qed

lemma id_value_low:
  "gen_ok g \<Longrightarrow> unat (datacenter_id g) * 2 ^ 17 + (unat (machine_id g) * 2 ^ 12 + unat (sequence g)) < 2 ^ 22"
  by (simp add: gen_ok_def)

section \<open>One step of the generator\<close>

lemma wait_next_millis_later:
  "wait_next_millis prev c = Inr (t, c') \<Longrightarrow> clock_ok c \<Longrightarrow>
     unat prev < unat t \<and> in_era t \<and> clock_ok c'"
  by (induction prev c rule: wait_next_millis.induct)
    (auto simp: word_le_nat_alt not_le split: if_splits)

lemma current_millis_Inr:
  "current_millis c = Inr (t, c') \<longleftrightarrow> (\<exists>r. c = r # c' \<and> 0 \<le> r \<and> t = millis r)"
  by (auto simp: current_millis_def split: list.splits if_splits)

lemma now_nanos_Inr:
  "now_nanos c = Inr (t, c') \<longleftrightarrow> (\<exists>r. c = r # c' \<and> 0 \<le> r \<and> t = word_of_int r)"
  by (auto simp: now_nanos_def split: list.splits if_splits)

lemma next_sequence_less: "unat ((s + 1) AND (4095 :: u64)) < 4096"
proof -
  have "(s + 1) AND (4095 :: u64) \<le> 4095" by (rule word_and_le1)
  then show ?thesis by (simp add: word_le_nat_alt)
qed

lemma next_sequence_Suc:
  assumes "unat s < 4096" and "(s + 1) AND (4095 :: u64) \<noteq> 0"
  shows "unat ((s + 1) AND (4095 :: u64)) = unat s + 1"
proof -
  have mask: "(4095 :: u64) = mask 12" by (simp add: mask_eq_exp_minus_1)
  have s1: "unat (s + 1) = unat s + 1" using assms(1) by (simp add: unat_add_no_wrap)
  have "unat ((s + 1) AND 4095) = take_bit 12 (unat s + 1)"
    unfolding mask take_bit_eq_mask [symmetric] unsigned_take_bit_eq s1 by (rule refl)
  then have "unat ((s + 1) AND 4095) = (unat s + 1) mod 4096"
    by (simp add: take_bit_eq_mod)
  moreover from this assms(2) have "unat s + 1 \<noteq> 4096" by (auto simp: unat_zero_iff [symmetric])
  ultimately show ?thesis using assms(1) by simp
qed

text \<open>
  What a successful call guarantees: the generator keeps its identity and its ranges, and its
  clock position - timestamp first, then sequence - moves strictly forward.
\<close>

definition advances :: "generator \<Rightarrow> generator \<Rightarrow> bool" where
  "advances g g' \<longleftrightarrow> machine_id g' = machine_id g \<and> datacenter_id g' = datacenter_id g \<and>
     in_era (last_timestamp g') \<and>
     (unat (last_timestamp g) < unat (last_timestamp g') \<or>
      last_timestamp g' = last_timestamp g \<and> unat (sequence g') = unat (sequence g) + 1)"

lemma next_id_spec:
  assumes "next_id g c = Inr (i, g', c')" and g: "gen_ok g" and c: "clock_ok c"
  shows "i = encode_id g' \<and> advances g g' \<and> gen_ok g' \<and> clock_ok c'"
proof -
  from assms(1) obtain t1 c1 where "current_millis c = Inr (t1, c1)"
    by (auto simp: next_id_def and_then_Inr)
  then obtain r where cm: "current_millis c = Inr (millis r, c1)" and "c = r # c1"
    by (auto simp: current_millis_Inr)
  with c have c1: "in_era (millis r)" "clock_ok c1" by simp_all
  from assms(1) have ge: "last_timestamp g \<le> millis r"
    by (auto simp: next_id_def cm split: if_splits)
  have step: "and_then
       (if millis r = last_timestamp g then
          (let g = g\<lparr>sequence := (sequence g + 1) AND 4095\<rparr> in
           if sequence g = 0 then
             and_then (wait_next_millis (last_timestamp g) c1) (\<lambda>(t, c). Inr (g, t, c))
           else Inr (g, millis r, c1))
        else Inr (g\<lparr>sequence := 0\<rparr>, millis r, c1))
       (\<lambda>(g, t, c). let g = g\<lparr>last_timestamp := t\<rparr> in Inr (encode_id g, g, c)) = Inr (i, g', c')"
    using assms(1) unfolding next_id_def cm and_then_simps case_prod_conv max_ids
    by (simp only: ge not_True_eq_False if_False)
  show ?thesis
  proof (cases "millis r = last_timestamp g")
    case False
    then have lt: "unat (last_timestamp g) < unat (millis r)"
      using ge by (simp add: word_le_nat_alt word_unat_eq_iff)
    from False step have
      "g' = g\<lparr>sequence := 0, last_timestamp := millis r\<rparr>" "i = encode_id g'" "c' = c1"
      by (auto simp: Let_def)
    with c1 lt g show ?thesis by (simp add: advances_def gen_ok_def)
  next
    case same: True
    show ?thesis
    proof (cases "(sequence g + 1) AND 4095 = 0")
      case True
      with same step obtain t c2 where w: "wait_next_millis (last_timestamp g) c1 = Inr (t, c2)" and
        "g' = g\<lparr>sequence := 0, last_timestamp := t\<rparr>" "i = encode_id g'" "c' = c2"
        by (auto simp: Let_def and_then_Inr)
      with wait_next_millis_later [OF w c1(2)] g show ?thesis by (simp add: advances_def gen_ok_def)
    next
      case False
      with same step have
        "g' = g\<lparr>sequence := (sequence g + 1) AND 4095, last_timestamp := last_timestamp g\<rparr>"
        "i = encode_id g'" "c' = c1"
        by (auto simp: Let_def)
      with same c1 g next_sequence_Suc [OF _ False] next_sequence_less [of "sequence g"]
      show ?thesis by (simp add: advances_def gen_ok_def)
    qed
  qed
qed

text \<open>The new time stamp was read from the clock.\<close>

lemma wait_next_millis_reading: "wait_next_millis prev c = Inr (t, c') \<Longrightarrow> \<exists>r \<in> set c. millis r = t"
  by (induction prev c rule: wait_next_millis.induct) (auto simp: current_millis_def Let_def split: if_splits)

lemma next_id_reading: "next_id g c = Inr (i, g', c') \<Longrightarrow> \<exists>r \<in> set c. millis r = last_timestamp g'"
  by (auto simp: next_id_def and_then_Inr current_millis_Inr Let_def split: if_splits dest!: wait_next_millis_reading)

text \<open>The number below which every identifier issued so far lies.\<close>

definition id_floor :: "generator \<Rightarrow> nat" where
  "id_floor g = (if in_era (last_timestamp g) then Suc (id_value g) else 0)"

lemma id_value_advances:
  assumes adv: "advances g g'" and g: "gen_ok g" and g': "gen_ok g'"
    and era: "in_era (last_timestamp g)"
  shows "id_value g < id_value g'"
proof -
  let ?low = "\<lambda>g. unat (datacenter_id g) * 2 ^ 17 + (unat (machine_id g) * 2 ^ 12 + unat (sequence g))"
  let ?n = "unat (last_timestamp g) - unat EPOCH" and ?n' = "unat (last_timestamp g') - unat EPOCH"
  from adv consider "?n < ?n'" | "?n' = ?n" "?low g' = ?low g + 1"
    using era by (fastforce simp: advances_def in_era_def)
  then show ?thesis
  proof cases
    case 1
    then have "(?n + 1) * 2 ^ 22 \<le> ?n' * 2 ^ 22" by (intro mult_right_mono) simp_all
    with id_value_low [OF g] show ?thesis by (simp add: id_value_def)
  next
    case 2
    then show ?thesis by (simp add: id_value_def)
  qed
qed

lemma next_id_floor:
  assumes "next_id g c = Inr (i, g', c')" and "gen_ok g" and "clock_ok c"
  shows "id_floor g \<le> unat i \<and> unat i < id_floor g'"
proof -
  from next_id_spec [OF assms] have
    i: "i = encode_id g'" and adv: "advances g g'" and g': "gen_ok g'" by simp_all
  from adv have era': "in_era (last_timestamp g')" by (simp add: advances_def)
  then have "unat i = id_value g'" using i g' by (simp add: unat_encode_id)
  with era' id_value_advances [OF adv assms(2) g'] show ?thesis by (simp add: id_floor_def Suc_le_eq)
qed

text \<open>An identifier followed by the time stamp of the trade that carries it.\<close>

definition stamp :: "generator \<Rightarrow> clock \<Rightarrow> fault + (u64 \<times> u64) \<times> generator \<times> clock" where
  "stamp g c =
     and_then (next_id g c) (\<lambda>(i, g, c).
     and_then (now_nanos c) (\<lambda>(ts, c). Inr ((i, ts), g, c)))"

section \<open>Sources of identifiers\<close>

text \<open>Drawing \<open>n\<close> values in a row from a source.\<close>

fun draw :: "('s \<Rightarrow> 'c \<Rightarrow> 'e + 'i \<times> 's \<times> 'c) \<Rightarrow> nat \<Rightarrow> 's \<Rightarrow> 'c \<Rightarrow> 'e + 'i list \<times> 's \<times> 'c" where
  "draw next 0 s c = Inr ([], s, c)"
| "draw next (Suc n) s c =
     and_then (next s c) (\<lambda>(i, s, c).
     and_then (draw next n s c) (\<lambda>(is, s, c). Inr (i # is, s, c)))"

text \<open>
  The contract a source of identifiers offers its clients: a floor that only rises, with every
  drawn identifier between the old floor and the new one.
\<close>

locale id_source =
  fixes draw_one :: "'s \<Rightarrow> 'c \<Rightarrow> 'e + 'i \<times> 's \<times> 'c"
    and id_nat :: "'i \<Rightarrow> nat"
    and valid :: "'s \<Rightarrow> 'c \<Rightarrow> bool"
    and floor :: "'s \<Rightarrow> nat"
  assumes valid_next: "valid s c \<Longrightarrow> draw_one s c = Inr (i, s', c') \<Longrightarrow> valid s' c'"
    and floor_le: "valid s c \<Longrightarrow> draw_one s c = Inr (i, s', c') \<Longrightarrow> floor s \<le> id_nat i"
    and less_floor: "valid s c \<Longrightarrow> draw_one s c = Inr (i, s', c') \<Longrightarrow> id_nat i < floor s'"
begin

lemma draw_spec:
  "draw draw_one n s c = Inr (is, s', c') \<Longrightarrow> valid s c \<Longrightarrow>
     length is = n \<and> valid s' c' \<and> floor s \<le> floor s' \<and>
     (\<forall>i \<in> set is. floor s \<le> id_nat i \<and> id_nat i < floor s') \<and>
     sorted_wrt (<) (map id_nat is)"
proof (induction n arbitrary: s c "is")
  case (Suc n)
  from Suc.prems(1) obtain i s1 c1 js where
    one: "draw_one s c = Inr (i, s1, c1)" and
    rest: "draw draw_one n s1 c1 = Inr (js, s', c')" and js: "is = i # js"
    by (auto simp: and_then_Inr)
  note here = valid_next [OF Suc.prems(2) one] floor_le [OF Suc.prems(2) one]
    less_floor [OF Suc.prems(2) one]
  from Suc.IH [OF rest here(1)] here(2,3) show ?case
    by (fastforce simp: js)
qed simp

lemma draw_distinct:
  assumes "draw draw_one n s c = Inr (is, s', c')" and "valid s c"
  shows "distinct (map id_nat is)"
  using draw_spec [OF assms] by (simp add: strict_sorted_iff)

end

interpretation snow: id_source next_id unat "\<lambda>g c. gen_ok g \<and> clock_ok c" id_floor
  by unfold_locales (use next_id_spec next_id_floor in blast)+

lemma stamp_next:
  assumes "stamp g c = Inr (x, g', c')" and "clock_ok c" and "gen_ok g"
  obtains c1 where "next_id g c = Inr (fst x, g', c1)" and "clock_ok c'"
proof -
  from assms(1) obtain i ts c1 where
    n: "next_id g c = Inr (i, g', c1)" and t: "now_nanos c1 = Inr (ts, c')" and x: "x = (i, ts)"
    by (auto simp: stamp_def and_then_Inr)
  with next_id_spec [OF n assms(3,2)] have "clock_ok c'" by (auto simp: now_nanos_Inr)
  with n x show ?thesis by (intro that) simp_all
qed

interpretation stamps: id_source stamp "\<lambda>x. unat (fst x)" "\<lambda>g c. gen_ok g \<and> clock_ok c" id_floor
proof unfold_locales
  fix g c x g' c'
  assume v: "gen_ok g \<and> clock_ok c" and s: "stamp g c = Inr (x, g', c')"
  then obtain c1 where n: "next_id g c = Inr (fst x, g', c1)" and c': "clock_ok c'"
    by (metis stamp_next)
  from next_id_spec [OF n] v c' show "gen_ok g' \<and> clock_ok c'" by simp
  from next_id_floor [OF n] v show "id_floor g \<le> unat (fst x)" "unat (fst x) < id_floor g'"
    by simp_all
qed

section \<open>Properties of the generator\<close>

lemmas eval_generator = next_id_def current_millis_def millis_def generator_new_def encode_id_def
  gen_ok_def clock_ok_def in_era_def EPOCH_def Let_def

text \<open>
  C28. Identifiers drawn one after another strictly increase as unsigned 64-bit numbers, across
  bursts within a millisecond, sequence overflow and clock progress; in particular none repeats.
\<close>

theorem ids_strictly_increase:
  assumes "draw next_id n g c = Inr (is, g', c')" and "gen_ok g" and "clock_ok c"
  shows "length is = n \<and> sorted_wrt (<) is"
proof -
  from snow.draw_spec [OF assms(1)] assms(2,3)
  have "length is = n" "sorted_wrt (<) (map unat is)" by simp_all
  then show ?thesis by (simp add: sorted_wrt_map word_less_nat_alt [abs_def])
qed

theorem ids_strictly_increase_witness:
  "\<exists>is g' c'. draw next_id 2 \<lparr>machine_id = 1, datacenter_id = 1, sequence = 0, last_timestamp = 0\<rparr>
     [1704067200005000000, 1704067200005000000] = Inr (is, g', c') \<and> length is = 2 \<and> sorted_wrt (<) is"
proof -
  let ?g = "\<lparr>machine_id = 1, datacenter_id = 1, sequence = 0, last_timestamp = 0\<rparr> :: generator"
  let ?c = "[1704067200005000000, 1704067200005000000] :: clock"
  have d: "\<exists>r. draw next_id 2 ?g ?c = Inr r"
    by (simp add: numeral_2_eq_2 eval_generator)
  then obtain "is" g' c' where r: "draw next_id 2 ?g ?c = Inr (is, g', c')" by fastforce
  have "gen_ok ?g" "clock_ok ?c" by (simp_all add: eval_generator)
  from ids_strictly_increase [OF r this] r show ?thesis by blast
qed

text \<open>The fields can be read back from an identifier.\<close>

lemma div_field: "r < n \<Longrightarrow> (a * n + r) div n = (a :: nat)"
  by (simp add: div_mult_self3)

lemma mod_field: "r < n \<Longrightarrow> (a * n + r) mod n = (r :: nat)"
  by simp

lemma id_value_fields:
  assumes "gen_ok g"
  shows "id_value g div 2 ^ 17 mod 32 = unat (datacenter_id g)"
    and "id_value g div 2 ^ 12 mod 32 = unat (machine_id g)"
    and "id_value g mod 2 ^ 12 = unat (sequence g)"
    and "id_value g div 2 ^ 22 = unat (last_timestamp g) - unat EPOCH"
proof -
  let ?t = "unat (last_timestamp g) - unat EPOCH" and ?d = "unat (datacenter_id g)"
    and ?m = "unat (machine_id g)" and ?s = "unat (sequence g)"
  have lim: "?d < 32" "?m < 32" "?s < 4096" using assms by (simp_all add: gen_ok_def)
  have v17: "id_value g = (?t * 32 + ?d) * 2 ^ 17 + (?m * 2 ^ 12 + ?s)"
    and v12: "id_value g = (?t * 1024 + ?d * 32 + ?m) * 2 ^ 12 + ?s"
    and v22: "id_value g = ?t * 2 ^ 22 + (?d * 2 ^ 17 + (?m * 2 ^ 12 + ?s))"
    by (simp_all add: id_value_def distrib_right)
  have m17: "?m * 2 ^ 12 + ?s < 2 ^ 17" and s12: "?s < 2 ^ 12" using lim by simp_all
  have "id_value g div 2 ^ 17 = ?t * 32 + ?d" unfolding v17 by (rule div_field [OF m17])
  with lim(1) show "id_value g div 2 ^ 17 mod 32 = ?d" by simp
  have "id_value g div 2 ^ 12 = ?t * 1024 + ?d * 32 + ?m" unfolding v12 by (rule div_field [OF s12])
  also have "\<dots> = (?t * 32 + ?d) * 32 + ?m" by simp
  finally show "id_value g div 2 ^ 12 mod 32 = ?m" using lim(2) by (simp only: mod_field)
  show "id_value g mod 2 ^ 12 = ?s" unfolding v12 by (rule mod_field [OF s12])
  show "id_value g div 2 ^ 22 = ?t"
    unfolding v22 by (rule div_field [OF id_value_low [OF assms]])
qed

text \<open>
  C29. Generators of different instances never collide: identifiers drawn by two generators whose
  machine or data-centre numbers differ are different, whatever their clocks show.
\<close>

theorem instances_never_collide:
  assumes "next_id g c = Inr (i, g', c')" and "gen_ok g" and "clock_ok c"
    and "next_id h d = Inr (j, h', d')" and "gen_ok h" and "clock_ok d"
    and "(machine_id g, datacenter_id g) \<noteq> (machine_id h, datacenter_id h)"
  shows "i \<noteq> j"
proof
  assume "i = j"
  from next_id_spec [OF assms(1-3)] next_id_spec [OF assms(4-6)] have
    "unat i = id_value g'" "gen_ok g'" "advances g g'" "unat j = id_value h'" "gen_ok h'" "advances h h'"
    by (auto simp: unat_encode_id advances_def)
  with \<open>i = j\<close> have "unat (machine_id g) = unat (machine_id h)"
    "unat (datacenter_id g) = unat (datacenter_id h)"
    using id_value_fields(1,2) [of g'] id_value_fields(1,2) [of h'] by (simp_all add: advances_def)
  with assms(7) show False by (simp add: word_unat_eq_iff)
qed

theorem instances_never_collide_witness:
  "\<exists>i j g' h' c' d'.
     next_id \<lparr>machine_id = 1, datacenter_id = 1, sequence = 0, last_timestamp = 0\<rparr>
       [1704067200005000000] = Inr (i, g', c') \<and>
     next_id \<lparr>machine_id = 2, datacenter_id = 1, sequence = 0, last_timestamp = 0\<rparr>
       [1704067200005000000] = Inr (j, h', d') \<and> i \<noteq> j"
proof -
  let ?g = "\<lparr>machine_id = 1, datacenter_id = 1, sequence = 0, last_timestamp = 0\<rparr> :: generator"
  let ?h = "\<lparr>machine_id = 2, datacenter_id = 1, sequence = 0, last_timestamp = 0\<rparr> :: generator"
  let ?c = "[1704067200005000000] :: clock"
  obtain i g' c' where g: "next_id ?g ?c = Inr (i, g', c')" by (simp add: eval_generator)
  obtain j h' d' where h: "next_id ?h ?c = Inr (j, h', d')" by (simp add: eval_generator)
  have "gen_ok ?g" "gen_ok ?h" "clock_ok ?c" by (simp_all add: eval_generator)
  then have "i \<noteq> j" by (intro instances_never_collide [OF g _ _ h]) simp_all
  with g h show ?thesis by blast
qed

text \<open>
  C35. A call returns as soon as the clock allows it: if the first reading is not before the last
  time stamp and some later reading shows a later millisecond, \<open>next_id\<close> returns, even when the
  4096 sequence numbers of the current millisecond are used up and it has to wait.
\<close>

theorem next_id_returns:
  assumes "\<forall>t \<in> set (r # c). 0 \<le> t" and "last_timestamp g \<le> millis r"
    and "\<exists>t \<in> set c. last_timestamp g < millis t"
  shows "\<exists>i g' c'. next_id g (r # c) = Inr (i, g', c')"
proof -
  have "\<exists>t c'. wait_next_millis (last_timestamp g) c = Inr (t, c')"
    using assms(1,3) by (induction c) (auto simp: not_le)
  then obtain t c' where "wait_next_millis (last_timestamp g) c = Inr (t, c')" by blast
  with assms(1,2) show ?thesis by (simp add: next_id_def current_millis_def Let_def)
qed

theorem next_id_returns_witness:
  "\<exists>i g' c'. next_id \<lparr>machine_id = 1, datacenter_id = 1, sequence = 4095, last_timestamp = 1704067200005\<rparr>
     (1704067200005000000 # [1704067200005999999, 1704067200006000000]) = Inr (i, g', c')"
  by (rule next_id_returns) (simp_all add: millis_def)

text \<open>
  The only panic of \<open>next_id\<close> on a clock after 1970 is the documented one: it is raised
  exactly when the clock reads earlier than the last time stamp, and the generator issues nothing.
\<close>

lemma next_id_panics_iff_clock_moved_back:
  assumes "\<forall>t \<in> set (r # c). 0 \<le> t"
  shows "if millis r < last_timestamp g
    then next_id g (r # c) = Inl (Panic ClockMovedBackwards)
    else (\<forall>p. next_id g (r # c) \<noteq> Inl (Panic p))"
proof -
  have "wait_next_millis prev c \<noteq> Inl (Panic p)" for prev p
    using assms by (induction c) auto
  with assms show ?thesis
    by (auto simp: next_id_def current_millis_def Let_def and_then_Inl not_le split: if_splits)
qed

lemma next_id_panics_iff_clock_moved_back_witness:
  "next_id \<lparr>machine_id = 1, datacenter_id = 1, sequence = 0, last_timestamp = 1704067200005\<rparr>
     [1704067200004000000] = Inl (Panic ClockMovedBackwards)"
  using next_id_panics_iff_clock_moved_back [of 1704067200004000000 "[]"
    "\<lparr>machine_id = 1, datacenter_id = 1, sequence = 0, last_timestamp = 1704067200005\<rparr>"]
  by (simp add: millis_def)

end
