(* ===== verification/Orders.thy ===== *)
theory Orders
  imports Snowflake
begin

text \<open>
  Orders, modification requests, trades and depth levels (\<open>order/mod.rs\<close>, \<open>order_modify/mod.rs\<close>,
  \<open>trade/mod.rs\<close>, \<open>level_info/mod.rs\<close>). The getters of the source are the record selectors.
\<close>

section \<open>Orders\<close>

record order =
  o_id :: order_id
  o_type :: order_type
  o_side :: side
  o_status :: order_status
  o_price :: price
  o_initial :: quantity
  o_remaining :: quantity
  o_timestamp :: u64
  o_user :: user_id

definition order_new ::
  "order_id \<Rightarrow> order_type \<Rightarrow> side \<Rightarrow> order_status \<Rightarrow> price \<Rightarrow> quantity \<Rightarrow> user_id \<Rightarrow> clock
     \<Rightarrow> fault + order \<times> clock" where
  "order_new i ty sd st p q u c =
     and_then (now_nanos c) (\<lambda>(ts, c).
       Inr (\<lparr>o_id = i, o_type = ty, o_side = sd, o_status = st, o_price = p,
             o_initial = q, o_remaining = q, o_timestamp = ts, o_user = u\<rparr>, c))"

definition get_filled_quantity :: "order \<Rightarrow> quantity" where
  "get_filled_quantity ord = o_initial ord - o_remaining ord"

definition is_filled :: "order \<Rightarrow> bool" where
  "is_filled ord = (o_remaining ord = 0)"

definition overfill_message :: "order_id \<Rightarrow> string" where
  "overfill_message i =
     ''Order '' @ u64_to_string i @ '' cannot be filled for more than its remaining quantity''"

text \<open>\<open>Order::fills\<close>: the result and the order after the call.\<close>

definition fills :: "order \<Rightarrow> quantity \<Rightarrow> (string + unit) \<times> order" where
  "fills ord q =
     (if q = 0 then (Inr (), ord)
      else if o_remaining ord < q then (Inl (overfill_message (o_id ord)), ord)
      else
        (let ord = ord\<lparr>o_remaining := o_remaining ord - q\<rparr> in
         (Inr (), if o_remaining ord = 0 then ord\<lparr>o_status := Filled\<rparr>
                  else ord\<lparr>o_status := PartiallyFilled\<rparr>)))"

section \<open>Modification requests\<close>

record order_modify =
  m_id :: order_id
  m_price :: price
  m_side :: side
  m_quantity :: quantity
  m_status :: order_status
  m_user :: user_id

definition order_modify_new ::
  "order_id \<Rightarrow> price \<Rightarrow> side \<Rightarrow> quantity \<Rightarrow> order_status \<Rightarrow> user_id \<Rightarrow> order_modify" where
  "order_modify_new i p sd q st u =
     \<lparr>m_id = i, m_price = p, m_side = sd, m_quantity = q, m_status = st, m_user = u\<rparr>"

section \<open>Trades\<close>

record trade_info =
  ti_order_id :: order_id
  ti_price :: price
  ti_quantity :: quantity
  ti_user :: user_id

definition trade_info_new :: "order_id \<Rightarrow> price \<Rightarrow> quantity \<Rightarrow> user_id \<Rightarrow> trade_info" where
  "trade_info_new i p q u = \<lparr>ti_order_id = i, ti_price = p, ti_quantity = q, ti_user = u\<rparr>"

record trade =
  t_id :: trade_id
  t_timestamp :: u64
  t_bid :: trade_info
  t_ask :: trade_info

definition trade_new :: "trade_id \<Rightarrow> trade_info \<Rightarrow> trade_info \<Rightarrow> clock \<Rightarrow> fault + trade \<times> clock" where
  "trade_new i b a c =
     and_then (now_nanos c) (\<lambda>(ts, c).
       Inr (\<lparr>t_id = i, t_timestamp = ts, t_bid = b, t_ask = a\<rparr>, c))"

text \<open>
  The two statements that end every match, \<open>generator.next_id()\<close> and \<open>Trade::new\<close> with the new
  identifier.
\<close>

definition issue_trade ::
  "trade_info \<Rightarrow> trade_info \<Rightarrow> generator \<Rightarrow> clock \<Rightarrow> fault + trade \<times> generator \<times> clock" where
  "issue_trade b a g c =
     and_then (next_id g c) (\<lambda>(i, g, c).
     and_then (trade_new i b a c) (\<lambda>(t, c). Inr (t, g, c)))"

section \<open>Depth levels\<close>

record level_info =
  l_price :: price
  l_quantity :: quantity

definition level_info_new :: "price \<Rightarrow> quantity \<Rightarrow> level_info" where
  "level_info_new p q = \<lparr>l_price = p, l_quantity = q\<rparr>"

record order_book_level_info =
  ob_bids :: "level_info list"
  ob_asks :: "level_info list"

definition order_book_level_info_new ::
  "level_info list \<Rightarrow> level_info list \<Rightarrow> order_book_level_info" where
  "order_book_level_info_new bs as = \<lparr>ob_bids = bs, ob_asks = as\<rparr>"

section \<open>Facts about fills\<close>

named_theorems fill_facts \<open>what a fill changes and what it leaves alone\<close>

lemma fills_frame [simp]:
  "o_id (snd (fills ord q)) = o_id ord"
  "o_user (snd (fills ord q)) = o_user ord"
  "o_price (snd (fills ord q)) = o_price ord"
  "o_side (snd (fills ord q)) = o_side ord"
  "o_type (snd (fills ord q)) = o_type ord"
  "o_initial (snd (fills ord q)) = o_initial ord"
  "o_timestamp (snd (fills ord q)) = o_timestamp ord"
  by (simp_all add: fills_def Let_def)

lemma fills_remaining [fill_facts]:
  "q \<le> o_remaining ord \<Longrightarrow> o_remaining (snd (fills ord q)) = o_remaining ord - q"
  by (auto simp: fills_def Let_def)

lemma unat_fills_remaining [fill_facts]:
  "q \<le> o_remaining ord \<Longrightarrow> unat (o_remaining (snd (fills ord q))) = unat (o_remaining ord) - unat q"
  by (simp add: fills_remaining unat_minus_le)

lemma fills_apply [fill_facts]:
  "q \<noteq> 0 \<Longrightarrow> q \<le> o_remaining ord \<Longrightarrow>
     fills ord q = (Inr (), ord\<lparr>o_remaining := o_remaining ord - q,
       o_status := (if o_remaining ord = q then Filled else PartiallyFilled)\<rparr>)"
  by (auto simp: fills_def Let_def)

lemma fills_zero [simp]: "fills ord 0 = (Inr (), ord)"
  by (simp add: fills_def)

lemma fills_min_exhausts:
  "is_filled (snd (fills x (min (o_remaining x) (o_remaining y)))) \<or>
   is_filled (snd (fills y (min (o_remaining x) (o_remaining y))))"
  by (cases "o_remaining x \<le> o_remaining y") (simp_all add: is_filled_def fills_remaining min_def)

text \<open>What the documentation of \<open>Order\<close> promises of every order that was created with a quantity.\<close>

definition order_wf :: "order \<Rightarrow> bool" where
  "order_wf ord \<longleftrightarrow> 0 < o_initial ord \<and> o_remaining ord \<le> o_initial ord \<and>
     (o_remaining ord = 0 \<longrightarrow> o_status ord = Filled)"

text \<open>
  C36. A fill keeps the documented invariants of an order and only ever lowers its remaining
  quantity, on every branch: the empty fill, the refused overfill and the applied fill; and an
  accepted fill moves exactly the requested quantity from remaining to filled.
\<close>

theorem fills_keeps_order_wf:
  assumes "order_wf ord"
  shows "order_wf (snd (fills ord q)) \<and>
    (if q \<le> o_remaining ord
     then fst (fills ord q) = Inr () \<and>
       unat (o_remaining (snd (fills ord q))) + unat q = unat (o_remaining ord) \<and>
       unat (get_filled_quantity (snd (fills ord q))) = unat (get_filled_quantity ord) + unat q
     else fills ord q = (Inl (overfill_message (o_id ord)), ord))"
proof (cases "q \<le> o_remaining ord")
  case True
  have rem: "o_remaining (snd (fills ord q)) = o_remaining ord - q" using True by (rule fills_remaining)
  from True have qn: "unat q \<le> unat (o_remaining ord)" by (simp add: word_le_nat_alt)
  from assms have init: "unat (o_remaining ord) \<le> unat (o_initial ord)"
    by (simp add: order_wf_def word_le_nat_alt)
  have less: "o_remaining ord - q \<le> o_initial ord"
    using qn init True by (simp add: word_le_nat_alt unat_minus_le)
  have "unat (get_filled_quantity (snd (fills ord q))) = unat (get_filled_quantity ord) + unat q"
    using qn init less True
    by (simp add: get_filled_quantity_def rem unat_minus_le word_le_nat_alt)
  moreover have "fst (fills ord q) = Inr ()" using True by (auto simp: fills_def Let_def)
  moreover have "order_wf (snd (fills ord q))"
    using assms less True by (auto simp: order_wf_def rem) (auto simp: fills_def Let_def)
  ultimately show ?thesis using True qn by (simp add: unat_fills_remaining)
next
  case False
  with assms show ?thesis by (auto simp: fills_def)
qed

theorem fills_keeps_order_wf_witness:
  "order_wf (snd (fills \<lparr>o_id = 7, o_type = GoodTillCancel, o_side = Buy, o_status = Empty,
     o_price = Price 100, o_initial = 10, o_remaining = 10, o_timestamp = 0, o_user = 1\<rparr> 4))"
  using fills_keeps_order_wf [of "\<lparr>o_id = 7, o_type = GoodTillCancel, o_side = Buy, o_status = Empty,
     o_price = Price 100, o_initial = 10, o_remaining = 10, o_timestamp = 0, o_user = 1\<rparr>" 4]
  by (simp add: order_wf_def)

text \<open>
  Fills accumulate: two successive fills that together fit leave the order exactly as one fill
  of their sum does, status included.
\<close>

lemma fills_accumulate:
  assumes "unat q + unat r \<le> unat (o_remaining ord)" and "0 < r"
  shows "fills (snd (fills ord q)) r = fills ord (q + r)"
proof -
  have "unat q + unat r < 2 ^ 32" using le_less_trans [OF assms(1) unat_u32_lt] by simp
  then have sum: "unat (q + r) = unat q + unat r" by (simp add: unat_add_no_wrap)
  have q: "q \<le> o_remaining ord" and r: "r \<le> o_remaining ord - q" and qr: "q + r \<le> o_remaining ord"
    using assms(1) by (simp_all add: word_le_nat_alt unat_minus_le sum)
  have nz: "r \<noteq> 0" "q + r \<noteq> 0"
    using assms(2) sum by (auto simp: unat_zero_iff [symmetric] word_less_nat_alt)
  have eq: "o_remaining ord - q - r = o_remaining ord - (q + r)"
    "o_remaining ord - q = r \<longleftrightarrow> o_remaining ord = q + r" by (auto simp: algebra_simps)
  show ?thesis
  proof (cases "q = 0")
    case False
    with q r qr nz show ?thesis by (simp add: fills_apply eq)
  qed simp
qed

lemma fills_accumulate_witness:
  "fills (snd (fills \<lparr>o_id = 7, o_type = GoodTillCancel, o_side = Buy, o_status = Empty,
     o_price = Price 100, o_initial = 10, o_remaining = 10, o_timestamp = 0, o_user = 1\<rparr> 4)) 6 =
   fills \<lparr>o_id = 7, o_type = GoodTillCancel, o_side = Buy, o_status = Empty,
     o_price = Price 100, o_initial = 10, o_remaining = 10, o_timestamp = 0, o_user = 1\<rparr> (4 + 6)"
  by (rule fills_accumulate) simp_all

section \<open>Facts about issued trades\<close>

lemma issue_trade_Inr:
  "issue_trade b a g c = Inr (t, g', c') \<longleftrightarrow>
     (\<exists>i ts. stamp g c = Inr ((i, ts), g', c') \<and>
        t = \<lparr>t_id = i, t_timestamp = ts, t_bid = b, t_ask = a\<rparr>)"
  by (fastforce simp: issue_trade_def trade_new_def stamp_def and_then_Inr)

lemma issue_trade_Inl:
  "issue_trade b a g c = Inl e \<longleftrightarrow> stamp g c = Inl e"
  by (auto simp: issue_trade_def trade_new_def stamp_def and_then_Inl)

end
