(* ===== verification/Maps.thy ===== *)
theory Maps
  imports Prelude "HOL-Library.AList"
begin

text \<open>
  The two containers of the standard library that hold the engine's state. A \<open>HashMap\<close> is an
  association list whose order stands for one iteration order of the table; a \<open>BTreeMap\<close> is an
  association list kept in ascending key order. Both are instances of one interface, stated as a
  locale; the ordered map adds the first and the last entry.
\<close>

section \<open>The interface of a key-value store\<close>

locale key_store =
  fixes get :: "'m \<Rightarrow> 'k \<Rightarrow> 'v option"
    and put :: "'k \<Rightarrow> 'v \<Rightarrow> 'm \<Rightarrow> 'm"
    and del :: "'k \<Rightarrow> 'm \<Rightarrow> 'm"
    and ok :: "'m \<Rightarrow> bool"
  assumes get_put: "get (put k v m) j = (if j = k then Some v else get m j)"
    and get_del: "ok m \<Longrightarrow> get (del k m) j = (if j = k then None else get m j)"
    and ok_put: "ok m \<Longrightarrow> ok (put k v m)"
    and ok_del: "ok m \<Longrightarrow> ok (del k m)"
begin

lemma get_put_same: "get (put k v m) k = Some v"
  by (simp add: get_put)

lemma put_del_get: "ok m \<Longrightarrow> get m k = None \<Longrightarrow> get (del k (put k v m)) j = get m j"
  by (simp add: get_del get_put ok_put)

lemma put_twice: "get (put k v (put k w m)) j = get (put k v m) j"
  by (simp add: get_put)

lemma del_absent: "ok m \<Longrightarrow> get m k = None \<Longrightarrow> get (del k m) j = get m j"
  by (simp add: get_del)

end

section \<open>HashMap\<close>

type_synonym ('k, 'v) hmap = "('k \<times> 'v) list"

definition hm_get :: "('k, 'v) hmap \<Rightarrow> 'k \<Rightarrow> 'v option" where
  "hm_get m k = map_of m k"

definition hm_insert :: "'k \<Rightarrow> 'v \<Rightarrow> ('k, 'v) hmap \<Rightarrow> ('k, 'v) hmap" where
  "hm_insert k v m = AList.update k v m"

definition hm_remove :: "'k \<Rightarrow> ('k, 'v) hmap \<Rightarrow> ('k, 'v) hmap" where
  "hm_remove k m = AList.delete k m"

definition hm_contains :: "('k, 'v) hmap \<Rightarrow> 'k \<Rightarrow> bool" where
  "hm_contains m k = (hm_get m k \<noteq> None)"

definition hm_values :: "('k, 'v) hmap \<Rightarrow> 'v list" where
  "hm_values m = map snd m"

definition hm_ok :: "('k, 'v) hmap \<Rightarrow> bool" where
  "hm_ok m = distinct (map fst m)"

lemma hm_ok_Nil [simp]: "hm_ok []"
  by (simp add: hm_ok_def)

lemma hm_get_Nil [simp]: "hm_get [] k = None"
  by (simp add: hm_get_def)

interpretation hs: key_store hm_get hm_insert hm_remove hm_ok
proof unfold_locales
  fix k :: 'a and v :: 'b and m :: "('a, 'b) hmap" and j
  show "hm_get (hm_insert k v m) j = (if j = k then Some v else hm_get m j)"
    by (simp add: hm_get_def hm_insert_def update_conv')
  show "hm_get (hm_remove k m) j = (if j = k then None else hm_get m j)"
    by (simp add: hm_get_def hm_remove_def delete_conv')
  assume "hm_ok m"
  then show "hm_ok (hm_insert k v m)" "hm_ok (hm_remove k m)"
    by (simp_all add: hm_ok_def hm_insert_def hm_remove_def distinct_update distinct_delete)
qed

lemma hm_get_insert [simp]: "hm_get (hm_insert k v m) j = (if j = k then Some v else hm_get m j)"
  by (rule hs.get_put)

lemma hm_get_remove [simp]: "hm_get (hm_remove k m) j = (if j = k then None else hm_get m j)"
  by (simp add: hm_get_def hm_remove_def delete_conv')

lemmas hm_ok_intros [intro] = hs.ok_put hs.ok_del

lemma hm_get_SomeD: "hm_get m k = Some v \<Longrightarrow> (k, v) \<in> set m"
  by (simp add: hm_get_def map_of_SomeD)

lemma hm_get_iff: "hm_ok m \<Longrightarrow> hm_get m k = Some v \<longleftrightarrow> (k, v) \<in> set m"
  by (simp add: hm_get_def hm_ok_def map_of_eq_Some_iff)

lemma hm_contains_iff: "hm_contains m k \<longleftrightarrow> k \<in> fst ` set m"
  by (simp add: hm_contains_def hm_get_def map_of_eq_None_iff)

lemma set_hm_remove: "set (hm_remove k m) = {e \<in> set m. fst e \<noteq> k}"
  by (auto simp: hm_remove_def AList.delete_eq)

lemma set_hm_insert: "hm_ok m \<Longrightarrow> set (hm_insert k v m) = insert (k, v) {e \<in> set m. fst e \<noteq> k}"
proof -
  assume ok: "hm_ok m"
  then have ok': "hm_ok (hm_insert k v m)" by (rule hs.ok_put)
  have "(j, w) \<in> set (hm_insert k v m) \<longleftrightarrow> (j, w) \<in> insert (k, v) {e \<in> set m. fst e \<noteq> k}" for j w
    using hm_get_iff [OF ok, of j w] hm_get_iff [OF ok', of j w] by (auto split: if_splits)
  then show ?thesis by (auto simp del: hm_get_insert)
qed

lemma hm_remove_absent: "hm_get m k = None \<Longrightarrow> hm_remove k m = m"
  by (simp add: hm_get_def hm_remove_def map_of_eq_None_iff)

text \<open>A fresh key goes to the end and comes off again.\<close>

lemma hm_insert_fresh: "hm_get om k = None \<Longrightarrow> hm_insert k v om = om @ [(k, v)]"
  by (induction om) (auto simp: hm_insert_def hm_get_def split: if_splits)

lemma hm_remove_insert_fresh: "hm_get om k = None \<Longrightarrow> hm_remove k (hm_insert k v om) = om"
  by (simp add: hm_insert_fresh hm_remove_def AList.delete_eq hm_get_def map_of_eq_None_iff)
    (force intro!: filter_True)

lemma hm_remove_insert_other:
  assumes "hm_get om k = None" and "j \<noteq> k"
  shows "hm_remove j (hm_insert k v om) = hm_insert k v (hm_remove j om)"
proof -
  have "hm_remove j (om @ [(k, v)]) = hm_remove j om @ [(k, v)]"
    using assms(2) by (simp add: hm_remove_def AList.delete_eq)
  moreover have "hm_get (hm_remove j om) k = None" using assms by simp
  ultimately show ?thesis by (simp only: hm_insert_fresh assms(1))
qed

text \<open>What a removal or an insertion does to a sum over the values.\<close>

lemma sum_hm_remove:
  fixes f :: "'v \<Rightarrow> nat"
  assumes "hm_ok m" and "hm_get m k = Some v"
  shows "(\<Sum>e\<leftarrow>m. f (snd e)) = f v + (\<Sum>e\<leftarrow>hm_remove k m. f (snd e))"
  using assms
proof (induction m)
  case (Cons e m)
  obtain j w where e: "e = (j, w)" by (cases e)
  show ?case
  proof (cases "j = k")
    case True
    with Cons.prems e have "k \<notin> fst ` set m" "w = v"
      by (simp_all add: hm_ok_def hm_get_def)
    with True e show ?thesis
      by (simp add: hm_remove_def)
  next
    case False
    with Cons e show ?thesis
      by (simp add: hm_ok_def hm_get_def hm_remove_def)
  qed
qed simp

lemma sum_hm_insert:
  fixes f :: "'v \<Rightarrow> nat"
  assumes "hm_ok m"
  shows "(\<Sum>e\<leftarrow>hm_insert k v m. f (snd e)) = f v + (\<Sum>e\<leftarrow>hm_remove k m. f (snd e))"
  using assms
proof (induction m)
  case (Cons e m)
  obtain j w where e: "e = (j, w)" by (cases e)
  with Cons show ?case
    by (cases "j = k") (simp_all add: hm_ok_def hm_insert_def hm_remove_def)
qed (simp add: hm_insert_def hm_remove_def)

section \<open>BTreeMap\<close>

type_synonym ('k, 'v) bmap = "('k \<times> 'v) list"

definition bm_get :: "('k, 'v) bmap \<Rightarrow> 'k \<Rightarrow> 'v option" where
  "bm_get m k = map_of m k"

fun bm_insert :: "'k::linorder \<Rightarrow> 'v \<Rightarrow> ('k, 'v) bmap \<Rightarrow> ('k, 'v) bmap" where
  "bm_insert k v [] = [(k, v)]"
| "bm_insert k v (e # m) =
     (if fst e < k then e # bm_insert k v m
      else if fst e = k then (k, v) # m
      else (k, v) # e # m)"

definition bm_remove :: "'k \<Rightarrow> ('k, 'v) bmap \<Rightarrow> ('k, 'v) bmap" where
  "bm_remove k m = filter (\<lambda>e. fst e \<noteq> k) m"

text \<open>Writing through the reference of \<open>get_mut\<close>: the value under an existing key changes.\<close>

definition bm_set :: "'k \<Rightarrow> 'v \<Rightarrow> ('k, 'v) bmap \<Rightarrow> ('k, 'v) bmap" where
  "bm_set k v m = map (\<lambda>e. if fst e = k then (k, v) else e) m"

definition bm_first :: "('k, 'v) bmap \<Rightarrow> ('k \<times> 'v) option" where
  "bm_first m = (case m of [] \<Rightarrow> None | e # _ \<Rightarrow> Some e)"

definition bm_last :: "('k, 'v) bmap \<Rightarrow> ('k \<times> 'v) option" where
  "bm_last m = (case rev m of [] \<Rightarrow> None | e # _ \<Rightarrow> Some e)"

definition bm_ok :: "('k::linorder, 'v) bmap \<Rightarrow> bool" where
  "bm_ok m = sorted_wrt (<) (map fst m)"

text \<open>The ordered interface: the lowest and the highest entry bound every other key.\<close>

locale ordered_store = key_store get put del ok
  for get :: "'m \<Rightarrow> 'k::linorder \<Rightarrow> 'v option"
    and put :: "'k \<Rightarrow> 'v \<Rightarrow> 'm \<Rightarrow> 'm"
    and del :: "'k \<Rightarrow> 'm \<Rightarrow> 'm"
    and ok :: "'m \<Rightarrow> bool" +
  fixes lowest :: "'m \<Rightarrow> ('k \<times> 'v) option"
    and highest :: "'m \<Rightarrow> ('k \<times> 'v) option"
  assumes lowest_None: "ok m \<Longrightarrow> lowest m = None \<Longrightarrow> get m k = None"
    and lowest_Some: "ok m \<Longrightarrow> lowest m = Some (k, v) \<Longrightarrow> get m k = Some v"
    and lowest_least: "ok m \<Longrightarrow> lowest m = Some (k, v) \<Longrightarrow> get m j \<noteq> None \<Longrightarrow> k \<le> j"
    and highest_None: "ok m \<Longrightarrow> highest m = None \<Longrightarrow> get m k = None"
    and highest_Some: "ok m \<Longrightarrow> highest m = Some (k, v) \<Longrightarrow> get m k = Some v"
    and highest_greatest: "ok m \<Longrightarrow> highest m = Some (k, v) \<Longrightarrow> get m j \<noteq> None \<Longrightarrow> j \<le> k"
begin

lemma lowest_le_highest:
  assumes "ok m" and "lowest m = Some (k, v)" and "highest m = Some (j, w)"
  shows "k \<le> j"
  using assms(1,2) by (rule lowest_least) (simp add: highest_Some [OF assms(1,3)])

text \<open>Taking the lowest entry out moves the lowest key strictly up; likewise the highest down.\<close>

lemma lowest_del_less:
  assumes "ok m" and "lowest m = Some (k, v)" and "lowest (del k m) = Some (j, w)"
  shows "k < j"
proof -
  have "get (del k m) j = Some w" using assms(1,3) by (intro lowest_Some ok_del)
  then have "j \<noteq> k" "get m j \<noteq> None" using assms(1) by (auto simp: get_del split: if_splits)
  with lowest_least [OF assms(1,2), of j] show ?thesis by simp
qed

lemma highest_del_less:
  assumes "ok m" and "highest m = Some (k, v)" and "highest (del k m) = Some (j, w)"
  shows "j < k"
proof -
  have "get (del k m) j = Some w" using assms(1,3) by (intro highest_Some ok_del)
  then have "j \<noteq> k" "get m j \<noteq> None" using assms(1) by (auto simp: get_del split: if_splits)
  with highest_greatest [OF assms(1,2), of j] show ?thesis by simp
qed

text \<open>If the lowest key is above a bound, no key is within it: the early exit of a walk is safe.\<close>

lemma lowest_above:
  "ok m \<Longrightarrow> lowest m = Some (k, v) \<Longrightarrow> b < k \<Longrightarrow> get m j \<noteq> None \<Longrightarrow> b < j"
  using lowest_least by (meson less_le_trans)

lemma highest_below:
  "ok m \<Longrightarrow> highest m = Some (k, v) \<Longrightarrow> k < b \<Longrightarrow> get m j \<noteq> None \<Longrightarrow> j < b"
  using highest_greatest by (meson le_less_trans)

end

subsection \<open>Shape of an ordered map\<close>

lemma bm_ok_Nil [simp]: "bm_ok []"
  by (simp add: bm_ok_def)

lemma bm_ok_Cons: "bm_ok (e # m) \<longleftrightarrow> (\<forall>e' \<in> set m. fst e < fst e') \<and> bm_ok m"
  by (auto simp: bm_ok_def)

lemma bm_ok_append:
  "bm_ok (m @ n) \<longleftrightarrow> bm_ok m \<and> bm_ok n \<and> (\<forall>e \<in> set m. \<forall>e' \<in> set n. fst e < fst e')"
  by (auto simp: bm_ok_def sorted_wrt_append)

lemma bm_ok_distinct: "bm_ok m \<Longrightarrow> distinct (map fst m)"
  unfolding bm_ok_def by (rule strict_sorted_iff [THEN iffD1, THEN conjunct2])

lemma bm_get_iff: "bm_ok m \<Longrightarrow> bm_get m k = Some v \<longleftrightarrow> (k, v) \<in> set m"
  by (simp add: bm_get_def bm_ok_distinct map_of_eq_Some_iff)

lemma bm_get_None: "bm_get m k = None \<longleftrightarrow> k \<notin> fst ` set m"
  by (simp add: bm_get_def map_of_eq_None_iff)

lemma bm_split:
  assumes "bm_get m k = Some v"
  obtains xs ys where "m = xs @ (k, v) # ys" and "k \<notin> fst ` set xs"
  using assms
proof (induction m arbitrary: thesis)
  case (Cons e m)
  show ?case
  proof (cases "fst e = k")
    case True
    with Cons.prems show ?thesis
      by (intro Cons.prems(1) [of "[]" m]) (auto simp: bm_get_def split: if_splits)
  next
    case False
    with Cons.prems have "bm_get m k = Some v" by (simp add: bm_get_def)
    then obtain xs ys where "m = xs @ (k, v) # ys" "k \<notin> fst ` set xs"
      using Cons.IH by blast
    with False show ?thesis by (intro Cons.prems(1) [of "e # xs" ys]) auto
  qed
qed (simp add: bm_get_def)

lemma bm_split_ok:
  assumes "bm_ok m" and "bm_get m k = Some v"
  obtains xs ys where "m = xs @ (k, v) # ys" and "k \<notin> fst ` set xs" and "k \<notin> fst ` set ys"
proof -
  from bm_split [OF assms(2)] obtain xs ys
    where m: "m = xs @ (k, v) # ys" and "k \<notin> fst ` set xs" by blast
  moreover from m bm_ok_distinct [OF assms(1)] have "k \<notin> fst ` set ys" by simp
  ultimately show ?thesis by (rule that)
qed

lemma bm_set_absent [simp]: "k \<notin> fst ` set m \<Longrightarrow> bm_set k v m = m"
  unfolding bm_set_def by (rule map_idI) auto

lemma bm_remove_absent [simp]: "k \<notin> fst ` set m \<Longrightarrow> bm_remove k m = m"
  unfolding bm_remove_def by (rule filter_True) auto

lemma bm_set_append [simp]: "bm_set k v (m @ n) = bm_set k v m @ bm_set k v n"
  by (simp add: bm_set_def)

lemma bm_set_Cons [simp]: "bm_set k v (e # m) = (if fst e = k then (k, v) else e) # bm_set k v m"
  by (simp add: bm_set_def)

lemma bm_remove_append [simp]: "bm_remove k (m @ n) = bm_remove k m @ bm_remove k n"
  by (simp add: bm_remove_def)

lemma bm_remove_Cons [simp]:
  "bm_remove k (e # m) = (if fst e = k then bm_remove k m else e # bm_remove k m)"
  by (simp add: bm_remove_def)

lemma keys_bm_set [simp]: "map fst (bm_set k v m) = map fst m"
  by (induction m) (auto simp: bm_set_def)

lemma length_bm_set [simp]: "length (bm_set k v m) = length m"
  by (simp add: bm_set_def)

lemma bm_ok_set [simp]: "bm_ok (bm_set k v m) = bm_ok m"
  by (simp add: bm_ok_def)

lemma bm_get_set [simp]:
  "bm_get (bm_set k v m) j = (if j = k \<and> k \<in> fst ` set m then Some v else bm_get m j)"
proof (induction m)
  case (Cons e m)
  then show ?case by (cases "fst e = k"; cases "j = k") (simp_all add: bm_get_def)
qed (simp add: bm_get_def)

lemma bm_get_remove [simp]: "bm_get (bm_remove k m) j = (if j = k then None else bm_get m j)"
  by (induction m) (auto simp: bm_get_def bm_remove_def)

lemma bm_remove_shorter: "k \<in> fst ` set m \<Longrightarrow> length (bm_remove k m) < length m"
  unfolding bm_remove_def by (auto intro: length_filter_less)

lemma set_bm_remove [simp]: "set (bm_remove k m) = {e \<in> set m. fst e \<noteq> k}"
  by (auto simp: bm_remove_def)

lemma bm_ok_remove [simp]: "bm_ok m \<Longrightarrow> bm_ok (bm_remove k m)"
  by (induction m) (auto simp: bm_ok_Cons)

lemma set_bm_insert: "set (bm_insert k v m) \<subseteq> insert (k, v) (set m)"
  by (induction m) auto

lemma bm_get_insert [simp]: "bm_get (bm_insert k v m) j = (if j = k then Some v else bm_get m j)"
  by (induction m) (auto simp: bm_get_def)

lemma bm_ok_insert [simp]: "bm_ok m \<Longrightarrow> bm_ok (bm_insert k v m)"
proof (induction m)
  case (Cons e m)
  then show ?case
    using set_bm_insert [of k v m] by (fastforce simp: bm_ok_Cons)
qed (simp add: bm_ok_Cons)

lemma bm_insert_fresh:
  assumes "k \<notin> fst ` set m"
  obtains xs ys where "m = xs @ ys" and "bm_insert k v m = xs @ (k, v) # ys"
  using assms
proof (induction m arbitrary: thesis)
  case (Cons e m)
  show ?case
  proof (cases "fst e < k")
    case True
    from Cons.prems(2) have "k \<notin> fst ` set m" by simp
    with Cons.IH obtain xs ys where "m = xs @ ys" "bm_insert k v m = xs @ (k, v) # ys"
      by blast
    with True show ?thesis by (intro Cons.prems(1) [of "e # xs" ys]) auto
  next
    case False
    with Cons.prems show ?thesis by (intro Cons.prems(1) [of "[]" "e # m"]) auto
  qed
qed simp

lemma bm_first_Some: "bm_first m = Some e \<longleftrightarrow> (\<exists>n. m = e # n)"
  by (auto simp: bm_first_def split: list.splits)

lemma bm_first_None [simp]: "bm_first m = None \<longleftrightarrow> m = []"
  by (simp add: bm_first_def split: list.splits)

lemma bm_last_Some: "bm_last m = Some e \<longleftrightarrow> (\<exists>n. m = n @ [e])"
proof
  assume "bm_last m = Some e"
  then obtain n where "rev m = e # n" by (auto simp: bm_last_def split: list.splits)
  then have "m = rev n @ [e]" by (metis rev_rev_ident rev.simps(2))
  then show "\<exists>n. m = n @ [e]" ..
qed (auto simp: bm_last_def)

lemma bm_last_None [simp]: "bm_last m = None \<longleftrightarrow> m = []"
  by (simp add: bm_last_def split: list.splits)

lemma bm_ends_Nil [simp]: "bm_first [] = None" "bm_last [] = None"
  by simp_all

lemma bm_first_in: "bm_first m = Some (k, v) \<Longrightarrow> k \<in> fst ` set m"
  by (auto simp: bm_first_Some)

lemma bm_last_in: "bm_last m = Some (k, v) \<Longrightarrow> k \<in> fst ` set m"
  by (auto simp: bm_last_Some)

lemma bm_get_in: "bm_get m k = Some v \<Longrightarrow> k \<in> fst ` set m"
  by (metis bm_get_None option.distinct(1))

interpretation bs: ordered_store bm_get bm_insert bm_remove bm_ok bm_first bm_last
proof unfold_locales
  fix m :: "('a, 'b) bmap" and k :: 'a and v :: 'b and j
  show "bm_get (bm_insert k v m) j = (if j = k then Some v else bm_get m j)" by simp
  assume ok: "bm_ok m"
  show "bm_get (bm_remove k m) j = (if j = k then None else bm_get m j)" by simp
  show "bm_ok (bm_insert k v m)" "bm_ok (bm_remove k m)" using ok by simp_all
  show "bm_first m = None \<Longrightarrow> bm_get m k = None" "bm_last m = None \<Longrightarrow> bm_get m k = None"
    by (simp_all add: bm_get_None)
  show "bm_first m = Some (k, v) \<Longrightarrow> bm_get m k = Some v"
    "bm_last m = Some (k, v) \<Longrightarrow> bm_get m k = Some v"
    using ok by (auto simp: bm_get_iff bm_first_Some bm_last_Some)
  show "bm_first m = Some (k, v) \<Longrightarrow> bm_get m j \<noteq> None \<Longrightarrow> k \<le> j"
    using ok by (auto simp: bm_get_None bm_first_Some bm_ok_Cons) (metis fst_conv less_imp_le)
  show "bm_last m = Some (k, v) \<Longrightarrow> bm_get m j \<noteq> None \<Longrightarrow> j \<le> k"
    using ok by (auto simp: bm_get_None bm_last_Some bm_ok_append) (metis fst_conv less_imp_le)
qed

end
