(* ===== verification/OrderBook.thy ===== *)
theory OrderBook
  imports Orders Maps
begin

text \<open>
  The price-time priority order book of one trading pair (\<open>orderbook/mod.rs\<close>): its state and every
  operation. A deque is a list with its front at the head. The loops are recursive functions with
  a termination proof; each carries the generator and the clock, whose faults end the run.
\<close>

section \<open>State\<close>

type_synonym order_pointers = "order list"
type_synonym book_side = "(price, order_pointers) bmap"

record order_book =
  bids_map :: book_side
  asks_map :: book_side
  orders_map :: "(order_id, order) hmap"

definition order_book_new :: order_book where
  "order_book_new = \<lparr>bids_map = [], asks_map = [], orders_map = []\<rparr>"

definition level_quantity :: "u64 \<Rightarrow> quantity" where
  "level_quantity n = (case u32_try_from n of Some q \<Rightarrow> q | None \<Rightarrow> u32_max)"

definition can_match :: "order_book \<Rightarrow> side \<Rightarrow> price \<Rightarrow> bool" where
  "can_match bk sd p =
     (case sd of
        Buy \<Rightarrow> (case bm_first (asks_map bk) of Some (best_ask, _) \<Rightarrow> best_ask \<le> p | None \<Rightarrow> False)
      | Sell \<Rightarrow> (case bm_last (bids_map bk) of Some (best_bid, _) \<Rightarrow> p \<le> best_bid | None \<Rightarrow> False))"

section \<open>Matching resting orders: \<open>match_order\<close>\<close>

text \<open>
  One fill between the two front orders of a level: both are filled with the smaller remaining
  quantity, exhausted orders leave their deque and the lookup table, and the trade is issued at
  the price of the resting side.
\<close>

definition match_front ::
  "side \<Rightarrow> price \<Rightarrow> price \<Rightarrow> order \<Rightarrow> order_pointers \<Rightarrow> order \<Rightarrow> order_pointers
     \<Rightarrow> (order_id, order) hmap \<Rightarrow> generator \<Rightarrow> clock
     \<Rightarrow> fault + order_pointers \<times> order_pointers \<times> (order_id, order) hmap \<times> trade \<times> generator \<times> clock" where
  "match_front aggressor_side bid_price ask_price bid bids ask asks om g c =
     (let quantity = min (o_remaining bid) (o_remaining ask);
          bid = snd (fills bid quantity);
          ask = snd (fills ask quantity);
          exec_price = (case aggressor_side of Buy \<Rightarrow> ask_price | Sell \<Rightarrow> bid_price);
          (bids, om) = (if is_filled bid then (bids, hm_remove (o_id bid) om) else (bid # bids, om));
          (asks, om) = (if is_filled ask then (asks, hm_remove (o_id ask) om) else (ask # asks, om))
      in and_then
           (issue_trade (trade_info_new (o_id bid) exec_price quantity (o_user bid))
              (trade_info_new (o_id ask) exec_price quantity (o_user ask)) g c)
           (\<lambda>(t, g, c). Inr (bids, asks, om, t, g, c)))"

lemma match_front_shorter:
  "match_front sd bp ap bid bids ask asks om g c = Inr (bids', asks', om', t, g', c') \<Longrightarrow>
     length bids' + length asks' \<le> length bids + length asks + 1"
  using fills_min_exhausts [of bid ask]
  by (auto simp: match_front_def Let_def and_then_Inr min.commute split: if_splits prod.splits)

text \<open>
  The inner loop over one bid level and one ask level. \<open>n_bids\<close> and \<open>n_asks\<close> are the initial
  lengths of the two deques, \<open>opposite_skipped\<close> and \<open>same_side_rotations\<close> the two counters. The
  result flag is \<open>all_self_trade\<close>.
\<close>

function match_level ::
  "side \<Rightarrow> price \<Rightarrow> price \<Rightarrow> nat \<Rightarrow> nat \<Rightarrow> nat \<Rightarrow> nat \<Rightarrow> order_pointers \<Rightarrow> order_pointers
     \<Rightarrow> (order_id, order) hmap \<Rightarrow> trade list \<Rightarrow> generator \<Rightarrow> clock
     \<Rightarrow> fault + bool \<times> order_pointers \<times> order_pointers \<times> (order_id, order) hmap \<times> trade list
          \<times> generator \<times> clock" where
  "match_level sd bp ap n_bids n_asks opposite_skipped same_side_rotations bids asks om ts g c =
     (case bids of
        [] \<Rightarrow> Inr (False, bids, asks, om, ts, g, c)
      | bid # bids' \<Rightarrow>
        (case asks of
           [] \<Rightarrow> Inr (False, bids, asks, om, ts, g, c)
         | ask # asks' \<Rightarrow>
           if o_user bid = o_user ask then
             (case sd of
                Buy \<Rightarrow>
                  (let asks = asks' @ [ask]; opposite_skipped = Suc opposite_skipped in
                   if n_asks \<le> opposite_skipped \<and> same_side_rotations + 1 < n_bids then
                     match_level sd bp ap n_bids n_asks 0 (Suc same_side_rotations)
                       (bids' @ [bid]) asks om ts g c
                   else if n_asks \<le> opposite_skipped then Inr (True, bids, asks, om, ts, g, c)
                   else match_level sd bp ap n_bids n_asks opposite_skipped same_side_rotations
                       bids asks om ts g c)
              | Sell \<Rightarrow>
                  (let bids = bids' @ [bid]; opposite_skipped = Suc opposite_skipped in
                   if n_bids \<le> opposite_skipped \<and> same_side_rotations + 1 < n_asks then
                     match_level sd bp ap n_bids n_asks 0 (Suc same_side_rotations)
                       bids (asks' @ [ask]) om ts g c
                   else if n_bids \<le> opposite_skipped then Inr (True, bids, asks, om, ts, g, c)
                   else match_level sd bp ap n_bids n_asks opposite_skipped same_side_rotations
                       bids asks om ts g c))
           else
             (case match_front sd bp ap bid bids' ask asks' om g c of
                Inl e \<Rightarrow> Inl e
              | Inr (bids, asks, om, t, g, c) \<Rightarrow>
                  match_level sd bp ap n_bids n_asks opposite_skipped same_side_rotations
                    bids asks om (ts @ [t]) g c)))"
  by pat_completeness auto

termination
  by (relation "measures
        [\<lambda>(sd, bp, ap, nb, na, opp, same, bids, asks, om, ts, g, c). length bids + length asks,
         \<lambda>(sd, bp, ap, nb, na, opp, same, bids, asks, om, ts, g, c).
            (case sd of Buy \<Rightarrow> nb | Sell \<Rightarrow> na) - same,
         \<lambda>(sd, bp, ap, nb, na, opp, same, bids, asks, om, ts, g, c).
            (case sd of Buy \<Rightarrow> na | Sell \<Rightarrow> nb) - opp]")
    (auto dest!: match_front_shorter)

declare match_level.simps [simp del]

text \<open>
  The equations of the loop with the two sides treated alike: \<open>rot_bids\<close> and \<open>rot_asks\<close> rotate the
  deque opposite to the aggressor, \<open>opposite_len\<close> and \<open>same_len\<close> pick the initial lengths.
\<close>

definition opposite_len :: "side \<Rightarrow> nat \<Rightarrow> nat \<Rightarrow> nat" where
  "opposite_len sd nb na = (case sd of Buy \<Rightarrow> na | Sell \<Rightarrow> nb)"

definition same_len :: "side \<Rightarrow> nat \<Rightarrow> nat \<Rightarrow> nat" where
  "same_len sd nb na = (case sd of Buy \<Rightarrow> nb | Sell \<Rightarrow> na)"

definition rot_bids :: "side \<Rightarrow> order_pointers \<Rightarrow> order_pointers" where
  "rot_bids sd bids = (case sd of Buy \<Rightarrow> bids | Sell \<Rightarrow> rotate1 bids)"

definition rot_asks :: "side \<Rightarrow> order_pointers \<Rightarrow> order_pointers" where
  "rot_asks sd asks = (case sd of Buy \<Rightarrow> rotate1 asks | Sell \<Rightarrow> asks)"

lemma mset_rotate1 [simp]: "mset (rotate1 xs) = mset xs"
  by (cases xs) simp_all

lemma mset_rot [simp]: "mset (rot_bids sd xs) = mset xs" "mset (rot_asks sd xs) = mset xs"
  by (simp_all add: rot_bids_def rot_asks_def split: side.splits)

lemma set_rot [simp]: "set (rot_bids sd xs) = set xs" "set (rot_asks sd xs) = set xs"
  by (simp_all add: rot_bids_def rot_asks_def split: side.splits)

lemma rot_eq_Nil [simp]: "rot_bids sd xs = [] \<longleftrightarrow> xs = []" "rot_asks sd xs = [] \<longleftrightarrow> xs = []"
  by (simp_all add: rot_bids_def rot_asks_def split: side.splits)

lemma match_level_empty [simp]:
  "match_level sd bp ap nb na opp same [] asks om ts g c = Inr (False, [], asks, om, ts, g, c)"
  "match_level sd bp ap nb na opp same bids [] om ts g c = Inr (False, bids, [], om, ts, g, c)"
  by (simp_all add: match_level.simps split: list.splits)

lemma match_level_self:
  assumes "o_user bid = o_user ask"
  shows "match_level sd bp ap nb na opp same (bid # bids) (ask # asks) om ts g c =
    (if opposite_len sd nb na \<le> Suc opp \<and> same + 1 < same_len sd nb na then
       match_level sd bp ap nb na 0 (Suc same) (bids @ [bid]) (asks @ [ask]) om ts g c
     else if opposite_len sd nb na \<le> Suc opp then
       Inr (True, rot_bids sd (bid # bids), rot_asks sd (ask # asks), om, ts, g, c)
     else
       match_level sd bp ap nb na (Suc opp) same (rot_bids sd (bid # bids)) (rot_asks sd (ask # asks))
         om ts g c)"
  using assms
  by (subst match_level.simps)
    (cases sd; simp add: Let_def opposite_len_def same_len_def rot_bids_def rot_asks_def)

lemma match_level_other:
  assumes "o_user bid \<noteq> o_user ask"
  shows "match_level sd bp ap nb na opp same (bid # bids) (ask # asks) om ts g c =
    and_then (match_front sd bp ap bid bids ask asks om g c)
      (\<lambda>(bids, asks, om, t, g, c). match_level sd bp ap nb na opp same bids asks om (ts @ [t]) g c)"
  using assms by (subst match_level.simps) (simp add: and_then_def)

text \<open>The induction the properties of the loop use: one case per way an iteration goes.\<close>

lemma match_level_induct [case_names Empty SkipBoth AllSelf SkipOpposite Fault Fill]:
  assumes "\<And>opp same bids asks om ts g c. bids = [] \<or> asks = [] \<Longrightarrow> P opp same bids asks om ts g c"
    and "\<And>opp same bid bids ask asks om ts g c.
      o_user bid = o_user ask \<Longrightarrow> opposite_len sd nb na \<le> Suc opp \<Longrightarrow> same + 1 < same_len sd nb na \<Longrightarrow>
      P 0 (Suc same) (bids @ [bid]) (asks @ [ask]) om ts g c \<Longrightarrow>
      P opp same (bid # bids) (ask # asks) om ts g c"
    and "\<And>opp same bid bids ask asks om ts g c.
      o_user bid = o_user ask \<Longrightarrow> opposite_len sd nb na \<le> Suc opp \<Longrightarrow> \<not> same + 1 < same_len sd nb na \<Longrightarrow>
      P opp same (bid # bids) (ask # asks) om ts g c"
    and "\<And>opp same bid bids ask asks om ts g c.
      o_user bid = o_user ask \<Longrightarrow> \<not> opposite_len sd nb na \<le> Suc opp \<Longrightarrow>
      P (Suc opp) same (rot_bids sd (bid # bids)) (rot_asks sd (ask # asks)) om ts g c \<Longrightarrow>
      P opp same (bid # bids) (ask # asks) om ts g c"
    and "\<And>opp same bid bids ask asks om ts g c e.
      o_user bid \<noteq> o_user ask \<Longrightarrow> match_front sd bp ap bid bids ask asks om g c = Inl e \<Longrightarrow>
      P opp same (bid # bids) (ask # asks) om ts g c"
    and "\<And>opp same bid bids ask asks om ts g c bids' asks' om' t g' c'.
      o_user bid \<noteq> o_user ask \<Longrightarrow>
      match_front sd bp ap bid bids ask asks om g c = Inr (bids', asks', om', t, g', c') \<Longrightarrow>
      P opp same bids' asks' om' (ts @ [t]) g' c' \<Longrightarrow>
      P opp same (bid # bids) (ask # asks) om ts g c"
  shows "P opp same bids asks om ts g c"
proof -
  have "sd' = sd \<Longrightarrow> bp' = bp \<Longrightarrow> ap' = ap \<Longrightarrow> nb' = nb \<Longrightarrow> na' = na \<Longrightarrow> P opp same bids asks om ts g c"
    for sd' bp' ap' nb' na'
  proof (induction sd' bp' ap' nb' na' opp same bids asks om ts g c rule: match_level.induct)
    case (1 sd' bp' ap' nb' na' opp same bids asks om ts g c)
    note eqs = "1.prems"
    show ?case
    proof (cases "bids = [] \<or> asks = []")
      case True
      then show ?thesis by (rule assms(1))
    next
      case False
      then obtain bid bids' ask asks' where ne: "bids = bid # bids'" "asks = ask # asks'"
        by (auto simp: neq_Nil_conv)
      show ?thesis
      proof (cases "o_user bid = o_user ask")
        case self: True
        show ?thesis unfolding ne
        proof (cases "opposite_len sd nb na \<le> Suc opp")
          case True
          then show "P opp same (bid # bids') (ask # asks') om ts g c"
            using self assms(2,3) "1.IH"(1,3) [OF ne self] eqs
            by (cases sd; cases "same + 1 < same_len sd nb na")
              (simp_all add: opposite_len_def same_len_def)
        next
          case False
          then show "P opp same (bid # bids') (ask # asks') om ts g c"
            using self eqs "1.IH"(2,4) [OF ne self] ne
            by (intro assms(4); cases sd) (simp_all add: opposite_len_def rot_bids_def rot_asks_def)
        qed
      next
        case other: False
        show ?thesis
        proof (cases "match_front sd bp ap bid bids' ask asks' om g c")
          case (Inl e)
          with other show ?thesis unfolding ne by (rule assms(5))
        next
          case (Inr r)
          obtain b a o' t g' c' where "r = (b, a, o', t, g', c')" by (cases r)
          with Inr other eqs "1.IH"(5) [OF ne other _ refl refl refl refl refl] show ?thesis
            unfolding ne by (intro assms(6)) simp_all
        qed
      qed
    qed
  qed
  then show ?thesis by simp
qed

lemma match_level_exit:
  "match_level sd bp ap nb na opp same bids asks om ts g c = Inr (False, bids', asks', om', ts', g', c') \<Longrightarrow>
     bids' = [] \<or> asks' = []"
  by (induction opp same bids asks om ts g c rule: match_level_induct [where sd = sd and nb = nb and na = na and bp = bp and ap = ap])
    (auto simp: match_level_self match_level_other)

lemma match_level_all_self:
  "match_level sd bp ap nb na opp same bids asks om ts g c = Inr (True, bids', asks', om', ts', g', c') \<Longrightarrow>
     bids' \<noteq> [] \<and> asks' \<noteq> []"
  by (induction opp same bids asks om ts g c rule: match_level_induct [where sd = sd and nb = nb and na = na and bp = bp and ap = ap])
    (auto simp: match_level_self match_level_other)

lemma bm_remove_set_shorter:
  "k \<in> fst ` set m \<Longrightarrow> length (bm_remove k (bm_set k v m)) < length m"
  using bm_remove_shorter [of k "bm_set k v m"] by (metis keys_bm_set length_bm_set set_map)

text \<open>
  The outer loop. The levels removed because they hold only self-trades are collected in
  \<open>self_trade_levels\<close>.
\<close>

function match_loop ::
  "side \<Rightarrow> order_book \<Rightarrow> book_side \<Rightarrow> trade list \<Rightarrow> generator \<Rightarrow> clock
     \<Rightarrow> fault + order_book \<times> book_side \<times> trade list \<times> generator \<times> clock" where
  "match_loop sd bk self_trade_levels ts g c =
     (case (bm_last (bids_map bk), bm_first (asks_map bk)) of
        (Some (bid_price, bids), Some (ask_price, asks)) \<Rightarrow>
          if bid_price < ask_price then Inr (bk, self_trade_levels, ts, g, c)
          else
            (case match_level sd bid_price ask_price (length bids) (length asks) 0 0 bids asks
                    (orders_map bk) ts g c of
               Inl e \<Rightarrow> Inl e
             | Inr (all_self_trade, bids, asks, om, ts, g, c) \<Rightarrow>
                 (let bk = bk\<lparr>bids_map := bm_set bid_price bids (bids_map bk),
                              asks_map := bm_set ask_price asks (asks_map bk),
                              orders_map := om\<rparr> in
                  if all_self_trade then
                    (case sd of
                       Buy \<Rightarrow> match_loop sd (bk\<lparr>asks_map := bm_remove ask_price (asks_map bk)\<rparr>)
                                (self_trade_levels @ [(ask_price, asks)]) ts g c
                     | Sell \<Rightarrow> match_loop sd (bk\<lparr>bids_map := bm_remove bid_price (bids_map bk)\<rparr>)
                                (self_trade_levels @ [(bid_price, bids)]) ts g c)
                  else
                    match_loop sd
                      (bk\<lparr>bids_map := (if bids = [] then bm_remove bid_price (bids_map bk)
                                        else bids_map bk),
                          asks_map := (if asks = [] then bm_remove ask_price (asks_map bk)
                                        else asks_map bk)\<rparr>)
                      self_trade_levels ts g c))
      | _ \<Rightarrow> Inr (bk, self_trade_levels, ts, g, c))"
  by pat_completeness auto

termination
  by (relation "measure (\<lambda>(sd, bk, sl, ts, g, c). length (bids_map bk) + length (asks_map bk))")
    (auto dest!: match_level_exit dest: bm_first_in [OF sym] bm_last_in [OF sym]
       intro!: bm_remove_set_shorter add_less_le_mono add_le_less_mono less_imp_le)

declare match_loop.simps [simp del]

definition reinsert_levels :: "side \<Rightarrow> book_side \<Rightarrow> order_book \<Rightarrow> order_book" where
  "reinsert_levels sd self_trade_levels bk =
     fold (\<lambda>(price, orders) bk.
             case sd of
               Buy \<Rightarrow> bk\<lparr>asks_map := bm_insert price orders (asks_map bk)\<rparr>
             | Sell \<Rightarrow> bk\<lparr>bids_map := bm_insert price orders (bids_map bk)\<rparr>)
       self_trade_levels bk"

definition match_order ::
  "order_book \<Rightarrow> side \<Rightarrow> generator \<Rightarrow> clock
     \<Rightarrow> fault + trade list \<times> order_book \<times> generator \<times> clock" where
  "match_order bk aggressor_side g c =
     and_then (match_loop aggressor_side bk [] [] g c) (\<lambda>(bk, self_trade_levels, ts, g, c).
       Inr (ts, reinsert_levels aggressor_side self_trade_levels bk, g, c))"

section \<open>Matching an order that never rests: \<open>match_against_opposite\<close>\<close>

text \<open>One fill of the aggressor, of which \<open>remaining\<close> is left, against the front of a level.\<close>

definition fill_front ::
  "order \<Rightarrow> quantity \<Rightarrow> order \<Rightarrow> order_pointers \<Rightarrow> (order_id, order) hmap \<Rightarrow> generator \<Rightarrow> clock
     \<Rightarrow> fault + quantity \<times> order_pointers \<times> (order_id, order) hmap \<times> trade \<times> generator \<times> clock" where
  "fill_front aggressor remaining resting orders om g c =
     (let fill_qty = min remaining (o_remaining resting);
          remaining = remaining - fill_qty;
          resting = snd (fills resting fill_qty);
          (orders, om) = (if is_filled resting then (orders, hm_remove (o_id resting) om)
                          else (resting # orders, om));
          own = trade_info_new (o_id aggressor) (o_price resting) fill_qty (o_user aggressor);
          other = trade_info_new (o_id resting) (o_price resting) fill_qty (o_user resting);
          (bid_info, ask_info) = (case o_side aggressor of Buy \<Rightarrow> (own, other) | Sell \<Rightarrow> (other, own))
      in and_then (issue_trade bid_info ask_info g c)
           (\<lambda>(t, g, c). Inr (remaining, orders, om, t, g, c)))"

lemma fill_front_less:
  assumes "fill_front x r y ys om g c = Inr (r', ys', om', t, g', c')" and "r \<noteq> 0"
  shows "unat r' + length ys' < unat r + Suc (length ys)"
proof (cases "o_remaining y \<le> r")
  case True
  then have "min r (o_remaining y) = o_remaining y" by simp
  with assms show ?thesis
    by (auto simp: fill_front_def Let_def and_then_Inr is_filled_def fills_remaining unat_minus_le
        True split: prod.splits if_splits)
next
  case False
  then have "min r (o_remaining y) = r" by simp
  with assms show ?thesis
    by (auto simp: fill_front_def Let_def and_then_Inr unat_gt_0 split: prod.splits if_splits)
qed

function fill_level ::
  "order \<Rightarrow> nat \<Rightarrow> nat \<Rightarrow> quantity \<Rightarrow> order_pointers \<Rightarrow> (order_id, order) hmap \<Rightarrow> trade list
     \<Rightarrow> generator \<Rightarrow> clock
     \<Rightarrow> fault + bool \<times> quantity \<times> order_pointers \<times> (order_id, order) hmap \<times> trade list
          \<times> generator \<times> clock" where
  "fill_level aggressor initial_len skipped remaining orders om ts g c =
     (if remaining = 0 then Inr (False, remaining, orders, om, ts, g, c)
      else
        (case orders of
           [] \<Rightarrow> Inr (False, remaining, orders, om, ts, g, c)
         | resting # orders' \<Rightarrow>
           if o_user resting = o_user aggressor then
             (let orders = orders' @ [resting]; skipped = Suc skipped in
              if initial_len \<le> skipped then Inr (True, remaining, orders, om, ts, g, c)
              else fill_level aggressor initial_len skipped remaining orders om ts g c)
           else
             (case fill_front aggressor remaining resting orders' om g c of
                Inl e \<Rightarrow> Inl e
              | Inr (remaining, orders, om, t, g, c) \<Rightarrow>
                  fill_level aggressor initial_len skipped remaining orders om (ts @ [t]) g c)))"
  by pat_completeness auto

termination
  by (relation "measures
        [\<lambda>(x, n, skipped, r, ys, om, ts, g, c). unat r + length ys,
         \<lambda>(x, n, skipped, r, ys, om, ts, g, c). n - skipped]")
    (auto dest: fill_front_less)

declare fill_level.simps [simp del]

lemma fill_level_empty [simp]:
  "fill_level x n skipped 0 ys om ts g c = Inr (False, 0, ys, om, ts, g, c)"
  "fill_level x n skipped r [] om ts g c = Inr (False, r, [], om, ts, g, c)"
  by (simp_all add: fill_level.simps)

lemma fill_level_self:
  assumes "r \<noteq> 0" and "o_user y = o_user x"
  shows "fill_level x n skipped r (y # ys) om ts g c =
    (if n \<le> Suc skipped then Inr (True, r, ys @ [y], om, ts, g, c)
     else fill_level x n (Suc skipped) r (ys @ [y]) om ts g c)"
  using assms by (subst fill_level.simps) (simp add: Let_def)

lemma fill_level_other:
  assumes "r \<noteq> 0" and "o_user y \<noteq> o_user x"
  shows "fill_level x n skipped r (y # ys) om ts g c =
    and_then (fill_front x r y ys om g c)
      (\<lambda>(r, ys, om, t, g, c). fill_level x n skipped r ys om (ts @ [t]) g c)"
  using assms by (subst fill_level.simps) (simp add: and_then_def)

lemma fill_level_induct [case_names Done AllSelf Skip Fault Fill]:
  assumes "\<And>skipped r ys om ts g c. r = 0 \<or> ys = [] \<Longrightarrow> P skipped r ys om ts g c"
    and "\<And>skipped r y ys om ts g c.
      r \<noteq> 0 \<Longrightarrow> o_user y = o_user x \<Longrightarrow> n \<le> Suc skipped \<Longrightarrow> P skipped r (y # ys) om ts g c"
    and "\<And>skipped r y ys om ts g c.
      r \<noteq> 0 \<Longrightarrow> o_user y = o_user x \<Longrightarrow> \<not> n \<le> Suc skipped \<Longrightarrow>
      P (Suc skipped) r (ys @ [y]) om ts g c \<Longrightarrow> P skipped r (y # ys) om ts g c"
    and "\<And>skipped r y ys om ts g c e.
      r \<noteq> 0 \<Longrightarrow> o_user y \<noteq> o_user x \<Longrightarrow> fill_front x r y ys om g c = Inl e \<Longrightarrow>
      P skipped r (y # ys) om ts g c"
    and "\<And>skipped r y ys om ts g c r' ys' om' t g' c'.
      r \<noteq> 0 \<Longrightarrow> o_user y \<noteq> o_user x \<Longrightarrow> fill_front x r y ys om g c = Inr (r', ys', om', t, g', c') \<Longrightarrow>
      P skipped r' ys' om' (ts @ [t]) g' c' \<Longrightarrow> P skipped r (y # ys) om ts g c"
  shows "P skipped r ys om ts g c"
proof -
  have "x' = x \<Longrightarrow> n' = n \<Longrightarrow> P skipped r ys om ts g c" for x' n'
  proof (induction x' n' skipped r ys om ts g c rule: fill_level.induct)
    case (1 x' n' skipped r ys om ts g c)
    show ?case
    proof (cases "r = 0 \<or> ys = []")
      case True
      then show ?thesis by (rule assms(1))
    next
      case False
      then obtain y ys' where ne: "ys = y # ys'" and r: "r \<noteq> 0" by (auto simp: neq_Nil_conv)
      show ?thesis
      proof (cases "o_user y = o_user x")
        case True
        with r "1.IH"(1) [OF r ne] "1.prems" assms(2,3) show ?thesis
          unfolding ne by (cases "n \<le> Suc skipped") simp_all
      next
        case other: False
        show ?thesis
        proof (cases "fill_front x r y ys' om g c")
          case (Inl e)
          with r other show ?thesis unfolding ne by (rule assms(4))
        next
          case (Inr q)
          obtain r' zs o' t g' c' where "q = (r', zs, o', t, g', c')" by (cases q)
          with Inr other r "1.prems" "1.IH"(2) [OF r ne _ _ refl refl refl refl refl] show ?thesis
            unfolding ne by (intro assms(5)) simp_all
        qed
      qed
    qed
  qed
  then show ?thesis by simp
qed

lemma fill_level_exit:
  "fill_level x n skipped r ys om ts g c = Inr (False, r', ys', om', ts', g', c') \<Longrightarrow> r' = 0 \<or> ys' = []"
  by (induction skipped r ys om ts g c rule: fill_level_induct [where x = x and n = n])
    (auto simp: fill_level_self fill_level_other)

lemma fill_level_all_self:
  "fill_level x n skipped r ys om ts g c = Inr (True, r', ys', om', ts', g', c') \<Longrightarrow> r' \<noteq> 0 \<and> ys' \<noteq> []"
  by (induction skipped r ys om ts g c rule: fill_level_induct [where x = x and n = n])
    (auto simp: fill_level_self fill_level_other)

text \<open>The side of the book an order on side \<open>sd\<close> trades against, its best level, and its update.\<close>

definition opposite_map :: "side \<Rightarrow> order_book \<Rightarrow> book_side" where
  "opposite_map sd bk = (case sd of Buy \<Rightarrow> asks_map bk | Sell \<Rightarrow> bids_map bk)"

definition best_opposite :: "side \<Rightarrow> order_book \<Rightarrow> (price \<times> order_pointers) option" where
  "best_opposite sd bk =
     (case sd of Buy \<Rightarrow> bm_first (asks_map bk) | Sell \<Rightarrow> bm_last (bids_map bk))"

definition with_opposite :: "side \<Rightarrow> (book_side \<Rightarrow> book_side) \<Rightarrow> order_book \<Rightarrow> order_book" where
  "with_opposite sd f bk =
     (case sd of Buy \<Rightarrow> bk\<lparr>asks_map := f (asks_map bk)\<rparr> | Sell \<Rightarrow> bk\<lparr>bids_map := f (bids_map bk)\<rparr>)"

definition crosses :: "side \<Rightarrow> price \<Rightarrow> price \<Rightarrow> bool" where
  "crosses sd order_price resting_price =
     (case sd of Buy \<Rightarrow> resting_price \<le> order_price | Sell \<Rightarrow> order_price \<le> resting_price)"

lemma best_opposite_in:
  "best_opposite sd bk = Some (p, ys) \<Longrightarrow> p \<in> fst ` set (opposite_map sd bk)"
  by (cases sd) (auto simp: best_opposite_def opposite_map_def dest: bm_first_in bm_last_in)

lemma best_remove_shorter:
  "best_opposite sd bk = Some (p, ys) \<Longrightarrow>
     length (bm_remove p (bm_set p zs (opposite_map sd bk))) < length (opposite_map sd bk)"
  by (rule bm_remove_set_shorter) (rule best_opposite_in)

lemma opposite_with_opposite [simp]:
  "opposite_map sd (with_opposite sd f bk) = f (opposite_map sd bk)"
  "opposite_map sd (bk\<lparr>orders_map := om\<rparr>) = opposite_map sd bk"
  by (simp_all add: opposite_map_def with_opposite_def split: side.splits)

function fill_loop ::
  "order \<Rightarrow> quantity \<Rightarrow> order_book \<Rightarrow> book_side \<Rightarrow> trade list \<Rightarrow> generator \<Rightarrow> clock
     \<Rightarrow> fault + quantity \<times> order_book \<times> book_side \<times> trade list \<times> generator \<times> clock" where
  "fill_loop aggressor remaining bk self_trade_levels ts g c =
     (if remaining = 0 then Inr (remaining, bk, self_trade_levels, ts, g, c)
      else
        (case best_opposite (o_side aggressor) bk of
           None \<Rightarrow> Inr (remaining, bk, self_trade_levels, ts, g, c)
         | Some (resting_price, orders) \<Rightarrow>
           if \<not> crosses (o_side aggressor) (o_price aggressor) resting_price then
             Inr (remaining, bk, self_trade_levels, ts, g, c)
           else
             (case fill_level aggressor (length orders) 0 remaining orders (orders_map bk) ts g c of
                Inl e \<Rightarrow> Inl e
              | Inr (all_self_trade, remaining, orders, om, ts, g, c) \<Rightarrow>
                  (let bk = with_opposite (o_side aggressor) (bm_set resting_price orders)
                              (bk\<lparr>orders_map := om\<rparr>) in
                   if all_self_trade then
                     fill_loop aggressor remaining
                       (with_opposite (o_side aggressor) (bm_remove resting_price) bk)
                       (self_trade_levels @ [(resting_price, orders)]) ts g c
                   else if orders = [] then
                     fill_loop aggressor remaining
                       (with_opposite (o_side aggressor) (bm_remove resting_price) bk)
                       self_trade_levels ts g c
                   else fill_loop aggressor remaining bk self_trade_levels ts g c))))"
  by pat_completeness auto

termination
  by (relation "measures
        [\<lambda>(x, r, bk, sl, ts, g, c). length (opposite_map (o_side x) bk),
         \<lambda>(x, r, bk, sl, ts, g, c). unat r]")
    (auto dest!: fill_level_exit simp: unat_gt_0 best_remove_shorter)

declare fill_loop.simps [simp del]

text \<open>The read-only walk of the FOK pre-check: it stops at the first price that does not cross.\<close>

fun liquidity :: "side \<Rightarrow> price \<Rightarrow> user_id \<Rightarrow> book_side \<Rightarrow> u64 \<Rightarrow> u64" where
  "liquidity sd order_price u [] available = available"
| "liquidity sd order_price u ((price, orders) # levels) available =
     (if \<not> crosses sd order_price price then available
      else liquidity sd order_price u levels
        (fold (\<lambda>ord available. if o_user ord \<noteq> u then available + as_u64 (o_remaining ord)
                             else available) orders available))"

definition available_liquidity :: "order \<Rightarrow> order_book \<Rightarrow> u64" where
  "available_liquidity aggressor bk =
     liquidity (o_side aggressor) (o_price aggressor) (o_user aggressor)
       (case o_side aggressor of Buy \<Rightarrow> asks_map bk | Sell \<Rightarrow> rev (bids_map bk)) 0"

definition match_against_opposite ::
  "order_book \<Rightarrow> order \<Rightarrow> bool \<Rightarrow> generator \<Rightarrow> clock
     \<Rightarrow> fault + trade list option \<times> order_book \<times> generator \<times> clock" where
  "match_against_opposite bk aggressor require_full_fill g c =
     (if require_full_fill \<and> available_liquidity aggressor bk < as_u64 (o_remaining aggressor) then
        Inr (None, bk, g, c)
      else
        and_then (fill_loop aggressor (o_remaining aggressor) bk [] [] g c)
          (\<lambda>(remaining, bk, self_trade_levels, ts, g, c).
             let bk = reinsert_levels (o_side aggressor) self_trade_levels bk in
             if require_full_fill \<and> 0 < remaining then
               Inl (Panic (FokSafetyNet (o_id aggressor) remaining))
             else Inr (Some ts, bk, g, c)))"

section \<open>Placing and cancelling\<close>

definition cancel_order :: "order_book \<Rightarrow> order_id \<Rightarrow> order option \<times> order_book" where
  "cancel_order bk i =
     (case hm_get (orders_map bk) i of
        None \<Rightarrow> (None, bk)
      | Some ord \<Rightarrow>
          (let bk = bk\<lparr>orders_map := hm_remove i (orders_map bk)\<rparr>;
               drop_from = (\<lambda>m. case bm_get m (o_price ord) of
                   None \<Rightarrow> m
                 | Some orders \<Rightarrow>
                     (let orders = filter (\<lambda>x. o_id x \<noteq> i) orders;
                          m = bm_set (o_price ord) orders m
                      in if orders = [] then bm_remove (o_price ord) m else m))
           in (Some ord,
               (case o_side ord of
                  Buy \<Rightarrow> bk\<lparr>bids_map := drop_from (bids_map bk)\<rparr>
                | Sell \<Rightarrow> bk\<lparr>asks_map := drop_from (asks_map bk)\<rparr>))))"

text \<open>\<open>entry(price).or_default().push_back(order)\<close>.\<close>

definition push_level :: "order \<Rightarrow> book_side \<Rightarrow> book_side" where
  "push_level ord m =
     (case bm_get m (o_price ord) of
        None \<Rightarrow> bm_insert (o_price ord) [ord] m
      | Some orders \<Rightarrow> bm_set (o_price ord) (orders @ [ord]) m)"

definition add_order ::
  "order_book \<Rightarrow> order \<Rightarrow> generator \<Rightarrow> clock
     \<Rightarrow> fault + trade list option \<times> order_book \<times> generator \<times> clock" where
  "add_order bk ord g c =
     (if hm_contains (orders_map bk) (o_id ord) then Inr (None, bk, g, c)
      else if o_type ord = FillAndKill then
        (if \<not> can_match bk (o_side ord) (o_price ord) then Inr (None, bk, g, c)
         else match_against_opposite bk ord False g c)
      else if o_type ord = FillOrKill then
        (if \<not> can_match bk (o_side ord) (o_price ord) then Inr (None, bk, g, c)
         else match_against_opposite bk ord True g c)
      else
        (let bk = bk\<lparr>orders_map := hm_insert (o_id ord) ord (orders_map bk)\<rparr>;
             bk = (case o_side ord of
                     Buy \<Rightarrow> bk\<lparr>bids_map := push_level ord (bids_map bk)\<rparr>
                   | Sell \<Rightarrow> bk\<lparr>asks_map := push_level ord (asks_map bk)\<rparr>)
         in and_then (match_order bk (o_side ord) g c)
              (\<lambda>(ts, bk, g, c). Inr (Some ts, bk, g, c))))"

section \<open>Queries\<close>

definition book_size :: "order_book \<Rightarrow> nat" where
  "book_size bk = length (orders_map bk)"

definition has_order :: "order_book \<Rightarrow> order_id \<Rightarrow> bool" where
  "has_order bk i = hm_contains (orders_map bk) i"

definition get_order :: "order_book \<Rightarrow> order_id \<Rightarrow> order option" where
  "get_order bk i = hm_get (orders_map bk) i"

definition get_all_orders :: "order_book \<Rightarrow> order list" where
  "get_all_orders bk = hm_values (orders_map bk)"

definition get_order_type :: "order_book \<Rightarrow> order_id \<Rightarrow> order_type option" where
  "get_order_type bk i = map_option o_type (hm_get (orders_map bk) i)"

definition level_total :: "order_pointers \<Rightarrow> u64" where
  "level_total orders = (\<Sum>ord\<leftarrow>orders. as_u64 (o_remaining ord))"

definition get_order_info :: "order_book \<Rightarrow> order_book_level_info" where
  "get_order_info bk =
     (let bids_info = fold (\<lambda>(price, orders) info.
                        level_info_new price (level_quantity (level_total orders)) # info)
                        (bids_map bk) [];
          asks_info = fold (\<lambda>(price, orders) info.
                        info @ [level_info_new price (level_quantity (level_total orders))])
                        (asks_map bk) []
      in order_book_level_info_new bids_info asks_info)"

definition cancel_orders_for_user :: "order_book \<Rightarrow> user_id \<Rightarrow> order_id list \<times> order_book" where
  "cancel_orders_for_user bk u =
     (let to_remove = map fst (filter (\<lambda>e. o_user (snd e) = u) (orders_map bk));
          keep = map (\<lambda>(price, orders). (price, filter (\<lambda>x. o_user x \<noteq> u) orders));
          om = fold hm_remove to_remove (orders_map bk);
          non_empty = filter (\<lambda>(price, orders). orders \<noteq> [])
      in (to_remove,
          \<lparr>bids_map = non_empty (keep (bids_map bk)),
           asks_map = non_empty (keep (asks_map bk)),
           orders_map = om\<rparr>))"

end
