(* ===== verification/Matching.thy ===== *)
theory Matching
  imports OrderBook
begin

text \<open>
  What matching promises, stated without levels, deques, rotations or loops: a book is a bag of
  bids, a bag of asks and the lookup table, and matching is a sequence of crossings, each between
  two orders of different users whose limits overlap. The loops of the order book refine it.
\<close>

section \<open>The abstract book and its steps\<close>

type_synonym abstract_book = "order multiset \<times> order multiset \<times> (order_id, order) hmap"

definition leftover :: "order \<Rightarrow> quantity \<Rightarrow> order multiset" where
  "leftover ord q = (if is_filled (snd (fills ord q)) then {#} else {#snd (fills ord q)#})"

definition retire :: "order \<Rightarrow> quantity \<Rightarrow> (order_id, order) hmap \<Rightarrow> (order_id, order) hmap" where
  "retire ord q om = (if is_filled (snd (fills ord q)) then hm_remove (o_id ord) om else om)"

text \<open>The trade two orders make on quantity \<open>q\<close> when \<open>sd\<close> is the side of the aggressor.\<close>

definition trade_of :: "side \<Rightarrow> order \<Rightarrow> order \<Rightarrow> quantity \<Rightarrow> trade \<Rightarrow> bool" where
  "trade_of sd b a q t \<longleftrightarrow>
     (let p = (case sd of Buy \<Rightarrow> o_price a | Sell \<Rightarrow> o_price b) in
      t_bid t = trade_info_new (o_id b) p q (o_user b) \<and>
      t_ask t = trade_info_new (o_id a) p q (o_user a))"

inductive crossing :: "side \<Rightarrow> abstract_book \<Rightarrow> trade \<Rightarrow> abstract_book \<Rightarrow> bool" for sd where
  cross: "o_user b \<noteq> o_user a \<Longrightarrow> o_price a \<le> o_price b \<Longrightarrow>
    q = min (o_remaining b) (o_remaining a) \<Longrightarrow> trade_of sd b a q t \<Longrightarrow>
    crossing sd (add_mset b B, add_mset a A, om) t
      (leftover b q + B, leftover a q + A, retire a q (retire b q om))"

inductive crossings :: "side \<Rightarrow> abstract_book \<Rightarrow> trade list \<Rightarrow> abstract_book \<Rightarrow> bool" for sd where
  none: "crossings sd s [] s"
| more: "crossings sd s ts s' \<Longrightarrow> crossing sd s' t s'' \<Longrightarrow> crossings sd s (ts @ [t]) s''"

inductive_cases crossingE: "crossing sd s t s'"

lemma crossings_trans:
  "crossings sd s' us s'' \<Longrightarrow> crossings sd s ts s' \<Longrightarrow> crossings sd s (ts @ us) s''"
proof (induction rule: crossings.induct)
  case (more s us s' t s'')
  then show ?case by (metis append_assoc crossings.more)
qed simp

lemma crossings_Cons:
  assumes "crossing sd s t s'" and "crossings sd s' ts s''"
  shows "crossings sd s (t # ts) s''"
  using crossings_trans [OF assms(2) crossings.more [OF crossings.none assms(1)]] by simp

section \<open>Well-formed sides and their orders\<close>

definition priced :: "price \<Rightarrow> side \<Rightarrow> order_pointers \<Rightarrow> bool" where
  "priced p sd ords \<longleftrightarrow> (\<forall>x \<in> set ords. o_price x = p \<and> o_side x = sd)"

definition levels_ok :: "side \<Rightarrow> book_side \<Rightarrow> bool" where
  "levels_ok sd m \<longleftrightarrow> bm_ok m \<and> (\<forall>(p, ords) \<in> set m. ords \<noteq> [] \<and> priced p sd ords)"

definition orders_of :: "book_side \<Rightarrow> order multiset" where
  "orders_of m = mset (concat (map snd m))"

lemma priced_simps [simp]:
  "priced p sd []"
  "priced p sd (x # xs) \<longleftrightarrow> o_price x = p \<and> o_side x = sd \<and> priced p sd xs"
  "priced p sd (xs @ ys) \<longleftrightarrow> priced p sd xs \<and> priced p sd ys"
  by (auto simp: priced_def)

lemma priced_rot [simp]:
  "priced p sd (rot_bids s xs) = priced p sd xs" "priced p sd (rot_asks s xs) = priced p sd xs"
  by (simp_all add: priced_def)

lemma orders_of_simps [simp]:
  "orders_of [] = {#}"
  "orders_of (e # m) = mset (snd e) + orders_of m"
  "orders_of (m @ n) = orders_of m + orders_of n"
  by (simp_all add: orders_of_def)

lemma levels_ok_Nil [simp]: "levels_ok sd []"
  by (simp add: levels_ok_def)

lemma levels_ok_get:
  "levels_ok sd m \<Longrightarrow> bm_get m p = Some xs \<Longrightarrow> xs \<noteq> [] \<and> priced p sd xs"
  by (auto simp: levels_ok_def bm_get_iff)

lemma levels_ok_remove: "levels_ok sd m \<Longrightarrow> levels_ok sd (bm_remove p m)"
  by (auto simp: levels_ok_def)

lemma set_bm_set: "set (bm_set k v m) \<subseteq> insert (k, v) (set m)"
  by (auto simp: bm_set_def)

lemma levels_ok_set:
  "levels_ok sd m \<Longrightarrow> xs \<noteq> [] \<Longrightarrow> priced p sd xs \<Longrightarrow> levels_ok sd (bm_set p xs m)"
  using set_bm_set [of p xs m] by (fastforce simp: levels_ok_def)

lemma levels_ok_remove_set:
  assumes "levels_ok sd m"
  shows "levels_ok sd (bm_remove p (bm_set p xs m))"
proof -
  have "set (bm_remove p (bm_set p xs m)) \<subseteq> set m" by (auto simp: bm_set_def split: if_splits)
  with assms show ?thesis by (auto simp: levels_ok_def)
qed

lemma levels_ok_insert:
  "levels_ok sd m \<Longrightarrow> xs \<noteq> [] \<Longrightarrow> priced p sd xs \<Longrightarrow> levels_ok sd (bm_insert p xs m)"
  using set_bm_insert [of p xs m] by (fastforce simp: levels_ok_def)

lemma orders_of_split:
  assumes "bm_ok m" and "bm_get m p = Some xs"
  obtains R where "orders_of m = mset xs + R" and "\<And>ys. orders_of (bm_set p ys m) = mset ys + R"
    and "orders_of (bm_remove p m) = R" and "\<And>ys. orders_of (bm_remove p (bm_set p ys m)) = R"
proof -
  from bm_split_ok [OF assms] obtain us vs
    where m: "m = us @ (p, xs) # vs" and "p \<notin> fst ` set us" "p \<notin> fst ` set vs" .
  then show ?thesis by (intro that [of "orders_of us + orders_of vs"]) simp_all
qed

lemma orders_of_insert:
  assumes "p \<notin> fst ` set m"
  shows "orders_of (bm_insert p xs m) = mset xs + orders_of m"
proof -
  from bm_insert_fresh [OF assms, of thesis for thesis] obtain us vs
    where "m = us @ vs" "bm_insert p xs m = us @ (p, xs) # vs" by blast
  then show ?thesis by simp
qed

lemma orders_of_push:
  assumes "bm_ok m"
  shows "orders_of (push_level ord m) = add_mset ord (orders_of m)"
proof (cases "bm_get m (o_price ord)")
  case None
  then have "o_price ord \<notin> fst ` set m" by (simp add: bm_get_None)
  with None show ?thesis by (simp add: push_level_def orders_of_insert)
next
  case (Some xs)
  from orders_of_split [OF assms Some] obtain R
    where "orders_of m = mset xs + R" "\<And>ys. orders_of (bm_set (o_price ord) ys m) = mset ys + R"
    by metis
  with Some show ?thesis by (simp add: push_level_def)
qed

lemma levels_ok_push:
  assumes "levels_ok sd m" and "o_side ord = sd"
  shows "levels_ok sd (push_level ord m)"
  using assms levels_ok_get [OF assms(1), of "o_price ord"]
  by (auto simp: push_level_def intro!: levels_ok_insert levels_ok_set split: option.splits)

section \<open>Refinement: \<open>match_order\<close>\<close>

lemma leftover_mset: "q \<le> o_remaining ord \<Longrightarrow>
    mset (if is_filled (snd (fills ord q)) then xs else snd (fills ord q) # xs) = leftover ord q + mset xs"
  by (simp add: leftover_def)

lemma match_front_Inr:
  fixes b a :: order
  defines "q \<equiv> min (o_remaining b) (o_remaining a)"
  assumes "match_front sd bp ap b bs a as om g c = Inr (bs', as', om', t, g', c')"
  shows "bs' = (if is_filled (snd (fills b q)) then bs else snd (fills b q) # bs)"
    and "as' = (if is_filled (snd (fills a q)) then as else snd (fills a q) # as)"
    and "om' = retire a q (retire b q om)"
    and "issue_trade (trade_info_new (o_id b) (case sd of Buy \<Rightarrow> ap | Sell \<Rightarrow> bp) q (o_user b))
      (trade_info_new (o_id a) (case sd of Buy \<Rightarrow> ap | Sell \<Rightarrow> bp) q (o_user a)) g c = Inr (t, g', c')"
  using assms(2) unfolding q_def [symmetric] match_front_def Let_def
  by (cases "is_filled (snd (fills b q))"; cases "is_filled (snd (fills a q))";
      auto simp: and_then_Inr retire_def)+

lemma match_front_crossing:
  assumes "match_front sd bp ap b bs a as om g c = Inr (bs', as', om', t, g', c')"
    and "o_user b \<noteq> o_user a" and "o_price b = bp" and "o_price a = ap" and "ap \<le> bp"
  shows "crossing sd (mset (b # bs) + B, mset (a # as) + A, om) t (mset bs' + B, mset as' + A, om')"
    and "priced bp Buy (b # bs) \<Longrightarrow> priced bp Buy bs'"
    and "priced ap Sell (a # as) \<Longrightarrow> priced ap Sell as'"
proof -
  let ?q = "min (o_remaining b) (o_remaining a)"
  note parts = match_front_Inr [OF assms(1)]
  have t: "trade_of sd b a ?q t"
    using parts(4) assms(3,4) by (auto simp: issue_trade_Inr trade_of_def split: side.splits)
  have "crossing sd (add_mset b (mset bs + B), add_mset a (mset as + A), om) t
      (leftover b ?q + (mset bs + B), leftover a ?q + (mset as + A), om')"
    unfolding parts(3) using assms t by (intro cross) simp_all
  moreover have "mset bs' + B = leftover b ?q + (mset bs + B)"
    "mset as' + A = leftover a ?q + (mset as + A)"
    by (simp_all add: parts(1,2) leftover_def)
  ultimately show "crossing sd (mset (b # bs) + B, mset (a # as) + A, om) t (mset bs' + B, mset as' + A, om')"
    by (simp add: add.assoc)
  show "priced bp Buy (b # bs) \<Longrightarrow> priced bp Buy bs'" "priced ap Sell (a # as) \<Longrightarrow> priced ap Sell as'"
    by (auto simp: parts(1,2))
qed

lemma match_level_crossings:
  assumes "match_level sd bp ap nb na opp same bids asks om ts g c =
      Inr (f, bids', asks', om', ts', g', c')"
    and "priced bp Buy bids" and "priced ap Sell asks" and "ap \<le> bp"
  shows "\<exists>new. ts' = ts @ new \<and>
      crossings sd (mset bids + B, mset asks + A, om) new (mset bids' + B, mset asks' + A, om') \<and>
      priced bp Buy bids' \<and> priced ap Sell asks'"
  using assms
proof (induction opp same bids asks om ts g c
    rule: match_level_induct [where sd = sd and nb = nb and na = na and bp = bp and ap = ap])
  case (Empty opp same bids asks om ts g c)
  then show ?case by (auto intro: crossings.none)
next
  case (SkipBoth opp same b bs a as om ts g c)
  then show ?case by (simp add: match_level_self)
next
  case (AllSelf opp same b bs a as om ts g c)
  then show ?case by (auto simp: match_level_self intro: crossings.none)
next
  case (SkipOpposite opp same b bs a as om ts g c)
  then show ?case by (simp add: match_level_self)
next
  case (Fault opp same b bs a as om ts g c e)
  then show ?case by (simp add: match_level_other)
next
  case (Fill opp same b bs a as om ts g c bs' as' om1 t g1 c1)
  note front = match_front_crossing [OF Fill.hyps(2,1)]
  from Fill.prems Fill.hyps have "match_level sd bp ap nb na opp same bs' as' om1 (ts @ [t]) g1 c1 =
      Inr (f, bids', asks', om', ts', g', c')" by (simp add: match_level_other)
  then obtain new where new: "ts' = (ts @ [t]) @ new"
    "crossings sd (mset bs' + B, mset as' + A, om1) new (mset bids' + B, mset asks' + A, om')"
    "priced bp Buy bids'" "priced ap Sell asks'"
    using Fill.IH Fill.prems front(2,3) by auto
  moreover have "crossing sd (mset (b # bs) + B, mset (a # as) + A, om) t (mset bs' + B, mset as' + A, om1)"
    using Fill.prems front(1) by simp
  ultimately show ?case by (auto intro: crossings_Cons)
qed

text \<open>One turn of the outer loop: what the book and the set-aside levels are after a level.\<close>

definition after_level ::
  "side \<Rightarrow> price \<Rightarrow> price \<Rightarrow> order_book \<Rightarrow> book_side \<Rightarrow> bool \<Rightarrow> order_pointers \<Rightarrow> order_pointers
     \<Rightarrow> (order_id, order) hmap \<Rightarrow> order_book \<times> book_side" where
  "after_level sd bp ap bk sl all_self bids asks om =
     (let bm = bm_set bp bids (bids_map bk); am = bm_set ap asks (asks_map bk) in
      if all_self then
        (case sd of
           Buy \<Rightarrow> (\<lparr>bids_map = bm, asks_map = bm_remove ap am, orders_map = om\<rparr>, sl @ [(ap, asks)])
         | Sell \<Rightarrow> (\<lparr>bids_map = bm_remove bp bm, asks_map = am, orders_map = om\<rparr>, sl @ [(bp, bids)]))
      else
        (\<lparr>bids_map = (if bids = [] then bm_remove bp bm else bm),
          asks_map = (if asks = [] then bm_remove ap am else am), orders_map = om\<rparr>, sl))"

definition matching_stops :: "order_book \<Rightarrow> bool" where
  "matching_stops bk =
     (case (bm_last (bids_map bk), bm_first (asks_map bk)) of
        (Some (bp, _), Some (ap, _)) \<Rightarrow> bp < ap
      | _ \<Rightarrow> True)"

lemma match_loop_stop:
  "matching_stops bk \<Longrightarrow> match_loop sd bk sl ts g c = Inr (bk, sl, ts, g, c)"
  by (subst match_loop.simps) (cases "bm_last (bids_map bk)"; cases "bm_first (asks_map bk)"; auto simp: matching_stops_def)

lemma match_loop_level:
  assumes "bm_last (bids_map bk) = Some (bp, bids)" and "bm_first (asks_map bk) = Some (ap, asks)"
    and "ap \<le> bp"
  shows "match_loop sd bk sl ts g c =
    and_then (match_level sd bp ap (length bids) (length asks) 0 0 bids asks (orders_map bk) ts g c)
      (\<lambda>(f, bids, asks, om, ts, g, c).
         let (bk, sl) = after_level sd bp ap bk sl f bids asks om in match_loop sd bk sl ts g c)"
  using assms
  by (cases bk, subst match_loop.simps)
    (auto simp: after_level_def and_then_def Let_def split: sum.splits side.splits)

lemma after_level_shorter:
  assumes "bm_last (bids_map bk) = Some (bp, bids)" and "bm_first (asks_map bk) = Some (ap, asks)"
    and "match_level sd bp ap nb na 0 0 bids asks om ts g c = Inr (f, bids', asks', om', ts', g', c')"
    and "after_level sd bp ap bk sl f bids' asks' om' = (bk', sl')"
  shows "length (bids_map bk') + length (asks_map bk') < length (bids_map bk) + length (asks_map bk)"
proof -
  have "length (bm_remove bp (bm_set bp xs (bids_map bk))) < length (bids_map bk)"
    "length (bm_remove ap (bm_set ap xs (asks_map bk))) < length (asks_map bk)" for xs
    using assms(1,2) by (auto intro!: bm_remove_set_shorter dest: bm_first_in bm_last_in)
  then have "length (bm_remove bp (bm_set bp xs (bids_map bk))) < length (bids_map bk)"
    "length (bm_remove ap (bm_set ap xs (asks_map bk))) < length (asks_map bk)"
    "length (bm_remove bp (bm_set bp xs (bids_map bk))) \<le> length (bids_map bk)"
    "length (bm_remove ap (bm_set ap xs (asks_map bk))) \<le> length (asks_map bk)" for xs
    by (simp_all add: less_imp_le)
  moreover have "f \<or> bids' = [] \<or> asks' = []"
    using assms(3) by (cases f) (auto dest: match_level_exit)
  ultimately show ?thesis using assms(4)
    by (cases sd) (auto simp: after_level_def Let_def split: if_splits intro: add_less_le_mono add_le_less_mono)
qed

lemma match_loop_induct [case_names Stop Fault Level]:
  assumes stop: "\<And>bk sl ts g c. matching_stops bk \<Longrightarrow> P bk sl ts g c"
    and fault: "\<And>bk sl ts g c bp bids ap asks e.
      bm_last (bids_map bk) = Some (bp, bids) \<Longrightarrow> bm_first (asks_map bk) = Some (ap, asks) \<Longrightarrow> ap \<le> bp \<Longrightarrow>
      match_level sd bp ap (length bids) (length asks) 0 0 bids asks (orders_map bk) ts g c = Inl e \<Longrightarrow>
      match_loop sd bk sl ts g c = Inl e \<Longrightarrow> P bk sl ts g c"
    and level: "\<And>bk sl ts g c bp bids ap asks f bids' asks' om' ts' g' c' bk' sl'.
      bm_last (bids_map bk) = Some (bp, bids) \<Longrightarrow> bm_first (asks_map bk) = Some (ap, asks) \<Longrightarrow> ap \<le> bp \<Longrightarrow>
      match_level sd bp ap (length bids) (length asks) 0 0 bids asks (orders_map bk) ts g c
        = Inr (f, bids', asks', om', ts', g', c') \<Longrightarrow>
      after_level sd bp ap bk sl f bids' asks' om' = (bk', sl') \<Longrightarrow>
      match_loop sd bk sl ts g c = match_loop sd bk' sl' ts' g' c' \<Longrightarrow>
      P bk' sl' ts' g' c' \<Longrightarrow> P bk sl ts g c"
  shows "P bk sl ts g c"
proof (induction "length (bids_map bk) + length (asks_map bk)" arbitrary: bk sl ts g c rule: less_induct)
  case (less bk sl ts g c)
  show ?case
  proof (cases "matching_stops bk")
    case True
    then show ?thesis by (rule stop)
  next
    case False
    then obtain bp bids ap asks where
      best: "bm_last (bids_map bk) = Some (bp, bids)" "bm_first (asks_map bk) = Some (ap, asks)" "ap \<le> bp"
      by (auto simp: matching_stops_def split: option.splits)
    note unfold = match_loop_level [OF best, of sd sl ts g c]
    show ?thesis
    proof (cases "match_level sd bp ap (length bids) (length asks) 0 0 bids asks (orders_map bk) ts g c")
      case (Inl e)
      then show ?thesis by (rule fault [OF best]) (simp add: unfold Inl)
    next
      case (Inr r)
      obtain f bids' asks' om' ts' g' c' where r: "r = (f, bids', asks', om', ts', g', c')" by (cases r)
      obtain bk' sl' where a: "after_level sd bp ap bk sl f bids' asks' om' = (bk', sl')" by fastforce
      from Inr r have lv: "match_level sd bp ap (length bids) (length asks) 0 0 bids asks (orders_map bk) ts g c
        = Inr (f, bids', asks', om', ts', g', c')" by simp
      from unfold lv a have "match_loop sd bk sl ts g c = match_loop sd bk' sl' ts' g' c'" by simp
      moreover have "P bk' sl' ts' g' c'"
        by (rule less) (rule after_level_shorter [OF best(1,2) lv a])
      ultimately show ?thesis by (rule level [OF best lv a])
    qed
  qed
qed

text \<open>The abstract book behind a loop state: set-aside levels still belong to their side.\<close>

definition view :: "order_book \<Rightarrow> abstract_book" where
  "view bk = (orders_of (bids_map bk), orders_of (asks_map bk), orders_map bk)"

definition loop_view :: "side \<Rightarrow> order_book \<Rightarrow> book_side \<Rightarrow> abstract_book" where
  "loop_view sd bk sl =
     (case sd of
        Buy \<Rightarrow> (orders_of (bids_map bk), orders_of sl + orders_of (asks_map bk), orders_map bk)
      | Sell \<Rightarrow> (orders_of sl + orders_of (bids_map bk), orders_of (asks_map bk), orders_map bk))"

fun other_side :: "side \<Rightarrow> side" where
  "other_side Buy = Sell"
| "other_side Sell = Buy"

definition book_levels_ok :: "order_book \<Rightarrow> bool" where
  "book_levels_ok bk \<longleftrightarrow> levels_ok Buy (bids_map bk) \<and> levels_ok Sell (asks_map bk)"

definition aside_ok :: "side \<Rightarrow> book_side \<Rightarrow> book_side \<Rightarrow> bool" where
  "aside_ok sd m sl \<longleftrightarrow> distinct (map fst sl) \<and> fst ` set sl \<inter> fst ` set m = {} \<and>
     (\<forall>(p, ords) \<in> set sl. ords \<noteq> [] \<and> priced p (other_side sd) ords)"

lemma aside_ok_Nil [simp]: "aside_ok sd m []"
  by (simp add: aside_ok_def)

lemma keys_image_set [simp]: "fst ` set (bm_set k v m) = fst ` set m"
  by (metis keys_bm_set set_map)

lemma aside_ok_set [simp]: "aside_ok sd (bm_set k v m) sl = aside_ok sd m sl"
  by (simp add: aside_ok_def)

lemma keys_image_insert: "fst ` set (bm_insert k v m) = insert k (fst ` set m)"
  by (induction m) auto

lemma aside_ok_insert:
  "aside_ok sd m ((p, ords) # sl) \<Longrightarrow> aside_ok sd (bm_insert p ords m) sl"
  by (auto simp: aside_ok_def keys_image_insert)

lemma aside_ok_remove: "aside_ok sd m sl \<Longrightarrow> aside_ok sd (bm_remove k m) sl"
  by (auto simp: aside_ok_def)

lemma aside_ok_snoc:
  "aside_ok sd m sl \<Longrightarrow> k \<in> fst ` set m \<Longrightarrow> ords \<noteq> [] \<Longrightarrow> priced k (other_side sd) ords \<Longrightarrow>
     aside_ok sd (bm_remove k m) (sl @ [(k, ords)])"
  by (auto simp: aside_ok_def)

text \<open>Re-inserting the levels set aside restores the side they were taken from.\<close>

lemma reinsert_one_side:
  assumes "levels_ok (other_side sd) m" and "aside_ok sd m sl"
  shows "levels_ok (other_side sd) (fold (\<lambda>(p, ords). bm_insert p ords) sl m) \<and>
    orders_of (fold (\<lambda>(p, ords). bm_insert p ords) sl m) = orders_of sl + orders_of m"
  using assms
proof (induction sl arbitrary: m)
  case (Cons e sl)
  obtain p ords where e: "e = (p, ords)" by (cases e)
  from Cons.prems(2) e have fresh: "p \<notin> fst ` set m" "p \<notin> fst ` set sl"
    and ords: "ords \<noteq> []" "priced p (other_side sd) ords" by (auto simp: aside_ok_def)
  have "aside_ok sd (bm_insert p ords m) sl"
    using Cons.prems(2) unfolding e by (rule aside_ok_insert)
  with levels_ok_insert [OF Cons.prems(1) ords] have
    "levels_ok (other_side sd) (fold (\<lambda>(p, ords). bm_insert p ords) sl (bm_insert p ords m))"
    "orders_of (fold (\<lambda>(p, ords). bm_insert p ords) sl (bm_insert p ords m)) =
      orders_of sl + orders_of (bm_insert p ords m)"
    using Cons.IH by blast+
  with fresh(1) e show ?case by (simp add: orders_of_insert)
qed simp

lemma reinsert_levels_eq:
  "reinsert_levels sd sl bk = with_opposite sd (fold (\<lambda>(p, ords). bm_insert p ords) sl) bk"
proof (induction sl arbitrary: bk)
  case Nil
  then show ?case by (cases sd) (simp_all add: reinsert_levels_def with_opposite_def)
next
  case (Cons e sl)
  have "reinsert_levels sd (e # sl) bk =
      reinsert_levels sd sl (with_opposite sd (bm_insert (fst e) (snd e)) bk)"
    by (cases sd; cases e) (simp_all add: reinsert_levels_def with_opposite_def)
  with Cons show ?case by (cases sd; cases e) (simp_all add: with_opposite_def)
qed

lemma reinsert_levels_ok:
  assumes "book_levels_ok bk" and "aside_ok sd (opposite_map sd bk) sl"
  shows "book_levels_ok (reinsert_levels sd sl bk)"
    and "view (reinsert_levels sd sl bk) = loop_view sd bk sl"
  using assms reinsert_one_side [of sd "opposite_map sd bk" sl]
  by (cases sd; simp add: reinsert_levels_eq book_levels_ok_def opposite_map_def with_opposite_def
      view_def loop_view_def)+

lemma after_level_ok:
  assumes ok: "book_levels_ok bk" and aside: "aside_ok sd (opposite_map sd bk) sl"
    and best: "bm_last (bids_map bk) = Some (bp, bids)" "bm_first (asks_map bk) = Some (ap, asks)"
    and lv: "match_level sd bp ap nb na 0 0 bids asks om ts g c = Inr (f, bids', asks', om', ts', g', c')"
    and after: "after_level sd bp ap bk sl f bids' asks' om' = (bk', sl')"
    and priced: "priced bp Buy bids'" "priced ap Sell asks'"
  shows "book_levels_ok bk' \<and> aside_ok sd (opposite_map sd bk') sl'"
proof -
  have lok: "levels_ok Buy (bids_map bk)" "levels_ok Sell (asks_map bk)"
    using ok by (simp_all add: book_levels_ok_def)
  have ins: "bp \<in> fst ` set (bids_map bk)" "ap \<in> fst ` set (asks_map bk)"
    using best by (auto dest: bm_first_in bm_last_in)
  show ?thesis
  proof (cases f)
    case True
    with lv have "bids' \<noteq> []" "asks' \<noteq> []" by (auto dest: match_level_all_self)
    with True after lok ins aside priced show ?thesis
      by (cases sd) (auto simp: after_level_def Let_def book_levels_ok_def opposite_map_def
          simp del: set_bm_remove intro!: levels_ok_remove_set levels_ok_set aside_ok_snoc, force+)
  next
    case False
    with after lok aside priced show ?thesis
      by (cases sd) (auto simp: after_level_def Let_def book_levels_ok_def opposite_map_def
          levels_ok_remove_set levels_ok_set aside_ok_remove split: if_splits)
  qed
qed

lemma after_level_view:
  assumes ok: "book_levels_ok bk"
    and best: "bm_last (bids_map bk) = Some (bp, bids)" "bm_first (asks_map bk) = Some (ap, asks)"
    and after: "after_level sd bp ap bk sl f bids' asks' om' = (bk', sl')"
  shows "\<exists>B A. loop_view sd bk sl = (mset bids + B, mset asks + A, orders_map bk) \<and>
    loop_view sd bk' sl' = (mset bids' + B, mset asks' + A, om')"
proof -
  have ok': "bm_ok (bids_map bk)" "bm_ok (asks_map bk)"
    using ok by (simp_all add: book_levels_ok_def levels_ok_def)
  from orders_of_split [OF ok'(1) bs.highest_Some [OF ok'(1) best(1)]] obtain B where
    B: "orders_of (bids_map bk) = mset bids + B" "\<And>ys. orders_of (bm_set bp ys (bids_map bk)) = mset ys + B"
    "\<And>ys. orders_of (bm_remove bp (bm_set bp ys (bids_map bk))) = B" by metis
  from orders_of_split [OF ok'(2) bs.lowest_Some [OF ok'(2) best(2)]] obtain A where
    A: "orders_of (asks_map bk) = mset asks + A" "\<And>ys. orders_of (bm_set ap ys (asks_map bk)) = mset ys + A"
    "\<And>ys. orders_of (bm_remove ap (bm_set ap ys (asks_map bk))) = A" by metis
  let ?X = "orders_of sl"
  have one: "loop_view sd bk sl =
      (mset bids + (if sd = Sell then ?X + B else B), mset asks + (if sd = Buy then ?X + A else A), orders_map bk)"
    by (cases sd) (simp_all add: loop_view_def B A ac_simps)
  have two: "loop_view sd bk' sl' =
      (mset bids' + (if sd = Sell then ?X + B else B), mset asks' + (if sd = Buy then ?X + A else A), om')"
    using after by (cases sd) (auto simp: after_level_def Let_def loop_view_def B A ac_simps split: if_splits)
  from one two show ?thesis by blast
qed

lemma match_loop_crossings:
  assumes "match_loop sd bk sl ts g c = Inr (bk', sl', ts', g', c')"
    and "book_levels_ok bk" and "aside_ok sd (opposite_map sd bk) sl"
  shows "\<exists>new. ts' = ts @ new \<and> crossings sd (loop_view sd bk sl) new (loop_view sd bk' sl') \<and>
    book_levels_ok bk' \<and> aside_ok sd (opposite_map sd bk') sl'"
  using assms
proof (induction bk sl ts g c rule: match_loop_induct [where sd = sd])
  case (Stop bk sl ts g c)
  then show ?case by (auto simp: match_loop_stop intro: crossings.none)
next
  case (Fault bk sl ts g c bp bids ap asks e)
  then show ?case by simp
next
  case (Level bk sl ts g c bp bids ap asks f bids1 asks1 om1 ts1 g1 c1 bk1 sl1)
  note best = Level.hyps(1,2) and lv = Level.hyps(4) and after = Level.hyps(5)
  have ok: "levels_ok Buy (bids_map bk)" "levels_ok Sell (asks_map bk)"
    using Level.prems(2) by (simp_all add: book_levels_ok_def)
  then have priced: "priced bp Buy bids" "priced ap Sell asks"
    using best levels_ok_get bs.highest_Some bs.lowest_Some by (metis levels_ok_def)+
  obtain B A where views: "loop_view sd bk sl = (mset bids + B, mset asks + A, orders_map bk)"
    "loop_view sd bk1 sl1 = (mset bids1 + B, mset asks1 + A, om1)"
    using after_level_view [OF Level.prems(2) best after] by blast
  from match_level_crossings [OF lv priced Level.hyps(3), of B A] obtain new1 where
    new1: "ts1 = ts @ new1" "crossings sd (loop_view sd bk sl) new1 (loop_view sd bk1 sl1)"
    "priced bp Buy bids1" "priced ap Sell asks1" unfolding views by blast
  from after_level_ok [OF Level.prems(2,3) best lv after new1(3,4)] have
    "book_levels_ok bk1" "aside_ok sd (opposite_map sd bk1) sl1" by simp_all
  with Level.IH Level.prems(1) Level.hyps(6) obtain new2 where
    "ts' = ts1 @ new2" "crossings sd (loop_view sd bk1 sl1) new2 (loop_view sd bk' sl')"
    "book_levels_ok bk'" "aside_ok sd (opposite_map sd bk') sl'" by metis
  with new1 show ?case by (auto intro: crossings_trans)
qed

lemma match_order_crossings:
  assumes "match_order bk sd g c = Inr (ts, bk', g', c')" and "book_levels_ok bk"
  shows "crossings sd (view bk) ts (view bk')" and "book_levels_ok bk'"
proof -
  from assms(1) obtain bk1 sl1 where
    run: "match_loop sd bk [] [] g c = Inr (bk1, sl1, ts, g', c')" and
    bk': "bk' = reinsert_levels sd sl1 bk1"
    by (auto simp: match_order_def and_then_Inr)
  from match_loop_crossings [OF run assms(2)] have
    cr: "crossings sd (loop_view sd bk []) ts (loop_view sd bk1 sl1)" and
    ok: "book_levels_ok bk1" "aside_ok sd (opposite_map sd bk1) sl1" by auto
  have "loop_view sd bk [] = view bk" by (cases sd) (simp_all add: loop_view_def view_def)
  with cr reinsert_levels_ok [OF ok] show "crossings sd (view bk) ts (view bk')" "book_levels_ok bk'"
    by (simp_all add: bk')
qed

section \<open>Refinement: \<open>match_against_opposite\<close>\<close>

text \<open>
  The aggressor of a FAK or FOK order stands on its own side of the abstract book while it is being
  matched, with the quantity that is left of it; it leaves when nothing is left.
\<close>

definition fill_view ::
  "side \<Rightarrow> order multiset \<Rightarrow> order multiset \<Rightarrow> (order_id, order) hmap \<Rightarrow> abstract_book" where
  "fill_view sd own opp om = (case sd of Buy \<Rightarrow> (own, opp, om) | Sell \<Rightarrow> (opp, own, om))"

definition aggressor_bag :: "order \<Rightarrow> quantity \<Rightarrow> order_status \<Rightarrow> order multiset" where
  "aggressor_bag x r st = (if r = 0 then {#} else {#x\<lparr>o_remaining := r, o_status := st\<rparr>#})"

lemma leftover_aggressor:
  assumes "q \<le> r"
  obtains st' where "leftover (x\<lparr>o_remaining := r, o_status := st\<rparr>) q = aggressor_bag x (r - q) st'"
proof (cases "q = 0")
  case True
  then show ?thesis by (intro that [of st]) (simp add: leftover_def aggressor_bag_def is_filled_def)
next
  case False
  with assms show ?thesis
    by (intro that [of PartiallyFilled])
      (auto simp: leftover_def aggressor_bag_def is_filled_def fills_apply)
qed

lemma retire_absent: "hm_get om (o_id x) = None \<Longrightarrow> retire x q om = om"
  by (simp add: retire_def hm_remove_absent)

lemma retire_get_None: "hm_get om i = None \<Longrightarrow> hm_get (retire x q om) i = None"
  by (simp add: retire_def)

lemma crossing_fill:
  assumes "o_user x \<noteq> o_user y" and "crosses sd (o_price x) (o_price y)"
    and q: "q = min (o_remaining x) (o_remaining y)" and "hm_get om (o_id x) = None"
    and "t_bid t = (case sd of Buy \<Rightarrow> trade_info_new (o_id x) (o_price y) q (o_user x)
                             | Sell \<Rightarrow> trade_info_new (o_id y) (o_price y) q (o_user y))"
    and "t_ask t = (case sd of Buy \<Rightarrow> trade_info_new (o_id y) (o_price y) q (o_user y)
                             | Sell \<Rightarrow> trade_info_new (o_id x) (o_price y) q (o_user x))"
  shows "crossing sd (fill_view sd (add_mset x X) (add_mset y Y) om) t
    (fill_view sd (leftover x q + X) (leftover y q + Y) (retire y q om))"
proof (cases sd)
  case Buy
  have "crossing Buy (add_mset x X, add_mset y Y, om) t
      (leftover x q + X, leftover y q + Y, retire y q (retire x q om))"
    using assms Buy by (intro cross) (simp_all add: crosses_def trade_of_def)
  then show ?thesis using assms(4) Buy by (simp add: fill_view_def retire_absent)
next
  case Sell
  have "crossing Sell (add_mset y Y, add_mset x X, om) t
      (leftover y q + Y, leftover x q + X, retire x q (retire y q om))"
    using assms Sell by (intro cross) (simp_all add: crosses_def trade_of_def min.commute)
  then show ?thesis using assms(4) Sell by (simp add: fill_view_def retire_absent retire_get_None)
qed

lemma fill_front_Inr:
  fixes r :: quantity
  defines "q y \<equiv> min r (o_remaining y)"
  assumes "fill_front x r y ys om g c = Inr (r', ys', om', t, g', c')"
  shows "r' = r - q y"
    and "ys' = (if is_filled (snd (fills y (q y))) then ys else snd (fills y (q y)) # ys)"
    and "om' = retire y (q y) om"
    and "t_bid t = (case o_side x of Buy \<Rightarrow> trade_info_new (o_id x) (o_price y) (q y) (o_user x)
                             | Sell \<Rightarrow> trade_info_new (o_id y) (o_price y) (q y) (o_user y))"
    and "t_ask t = (case o_side x of Buy \<Rightarrow> trade_info_new (o_id y) (o_price y) (q y) (o_user y)
                             | Sell \<Rightarrow> trade_info_new (o_id x) (o_price y) (q y) (o_user x))"
    and "stamp g c = Inr ((t_id t, t_timestamp t), g', c')"
  using assms(2) unfolding q_def [symmetric] fill_front_def Let_def
  by (cases "is_filled (snd (fills y (q y)))"; cases "o_side x";
      auto simp: and_then_Inr retire_def issue_trade_Inr)+

lemma fill_front_crossing:
  assumes f: "fill_front x r y ys om g c = Inr (r', ys', om', t, g', c')"
    and "r \<noteq> 0" and "o_user x \<noteq> o_user y" and "crosses (o_side x) (o_price x) (o_price y)"
    and "hm_get om (o_id x) = None"
  obtains st' where
    "crossing (o_side x)
       (fill_view (o_side x) (aggressor_bag x r st + X) (mset (y # ys) + Y) om) t
       (fill_view (o_side x) (aggressor_bag x r' st' + X) (mset ys' + Y) om')"
proof -
  let ?x = "x\<lparr>o_remaining := r, o_status := st\<rparr>" and ?q = "min r (o_remaining y)"
  note parts = fill_front_Inr [OF f]
  obtain st' where st': "leftover ?x ?q = aggressor_bag x r' st'"
    using leftover_aggressor [where q = ?q and r = r and x = x and st = st] parts(1) by auto
  have "crossing (o_side x) (fill_view (o_side x) (add_mset ?x X) (add_mset y (mset ys + Y)) om) t
     (fill_view (o_side x) (leftover ?x ?q + X) (leftover y ?q + (mset ys + Y)) (retire y ?q om))"
    using assms(3,4,5) parts(4,5) by (intro crossing_fill; cases "o_side x") simp_all
  moreover have "mset ys' + Y = leftover y ?q + (mset ys + Y)"
    by (simp add: parts(2) leftover_def)
  moreover have "aggressor_bag x r st + X = add_mset ?x X" using assms(2) by (simp add: aggressor_bag_def)
  ultimately show ?thesis by (intro that [of st']) (simp add: st' parts(3) add.assoc)
qed

lemma fill_front_frame:
  assumes "fill_front x r y ys om g c = Inr (r', ys', om', t, g', c')"
  shows "priced p sd (y # ys) \<Longrightarrow> priced p sd ys'"
    and "hm_get om i = None \<Longrightarrow> hm_get om' i = None"
  by (auto simp: fill_front_Inr(2,3) [OF assms] retire_def)

lemma fill_level_crossings:
  assumes "fill_level x n skipped r ys om ts g c = Inr (f, r', ys', om', ts', g', c')"
    and "priced p s ys" and "crosses (o_side x) (o_price x) p" and "hm_get om (o_id x) = None"
  shows "\<exists>new st'. ts' = ts @ new \<and>
      crossings (o_side x) (fill_view (o_side x) (aggressor_bag x r st + X) (mset ys + Y) om) new
        (fill_view (o_side x) (aggressor_bag x r' st' + X) (mset ys' + Y) om') \<and>
      priced p s ys' \<and> hm_get om' (o_id x) = None"
  using assms
proof (induction skipped r ys om ts g c arbitrary: st rule: fill_level_induct [where x = x and n = n])
  case (Done skipped r ys om ts g c)
  then show ?case by (auto intro!: exI [of _ st] crossings.none)
next
  case (AllSelf skipped r y ys om ts g c)
  then show ?case by (auto simp: fill_level_self intro!: exI [of _ st] crossings.none)
next
  case (Skip skipped r y ys om ts g c)
  then show ?case by (simp add: fill_level_self)
next
  case (Fault skipped r y ys om ts g c e)
  then show ?case by (simp add: fill_level_other)
next
  case (Fill skipped r y ys om ts g c r1 ys1 om1 t g1 c1)
  note frame = fill_front_frame [OF Fill.hyps(3)]
  from Fill.prems(2,3) have "crosses (o_side x) (o_price x) (o_price y)" by simp
  with fill_front_crossing [OF Fill.hyps(3,1) not_sym [OF Fill.hyps(2)]] Fill.prems(4)
  obtain st1 where one: "crossing (o_side x)
       (fill_view (o_side x) (aggressor_bag x r st + X) (mset (y # ys) + Y) om) t
       (fill_view (o_side x) (aggressor_bag x r1 st1 + X) (mset ys1 + Y) om1)" by blast
  from Fill.prems Fill.hyps frame obtain new st' where
    "ts' = (ts @ [t]) @ new"
    "crossings (o_side x) (fill_view (o_side x) (aggressor_bag x r1 st1 + X) (mset ys1 + Y) om1) new
        (fill_view (o_side x) (aggressor_bag x r' st' + X) (mset ys' + Y) om')"
    "priced p s ys'" "hm_get om' (o_id x) = None"
    using Fill.IH [of st1] by (auto simp: fill_level_other)
  with one show ?case by (auto intro: crossings_Cons)
qed

text \<open>The outer loop, with an induction rule over its turns.\<close>

definition fill_stops :: "order \<Rightarrow> quantity \<Rightarrow> order_book \<Rightarrow> bool" where
  "fill_stops x r bk \<longleftrightarrow> r = 0 \<or>
     (case best_opposite (o_side x) bk of
        None \<Rightarrow> True | Some (p, ys) \<Rightarrow> \<not> crosses (o_side x) (o_price x) p)"

definition after_fill ::
  "side \<Rightarrow> price \<Rightarrow> order_book \<Rightarrow> book_side \<Rightarrow> bool \<Rightarrow> order_pointers \<Rightarrow> (order_id, order) hmap
     \<Rightarrow> order_book \<times> book_side" where
  "after_fill sd p bk sl all_self ys om =
     (let bk = with_opposite sd (bm_set p ys) (bk\<lparr>orders_map := om\<rparr>) in
      if all_self then (with_opposite sd (bm_remove p) bk, sl @ [(p, ys)])
      else if ys = [] then (with_opposite sd (bm_remove p) bk, sl)
      else (bk, sl))"

lemma fill_loop_stop:
  "fill_stops x r bk \<Longrightarrow> fill_loop x r bk sl ts g c = Inr (r, bk, sl, ts, g, c)"
  by (subst fill_loop.simps) (auto simp: fill_stops_def split: option.splits)

lemma fill_loop_level:
  assumes "r \<noteq> 0" and "best_opposite (o_side x) bk = Some (p, ys)"
    and "crosses (o_side x) (o_price x) p"
  shows "fill_loop x r bk sl ts g c =
    and_then (fill_level x (length ys) 0 r ys (orders_map bk) ts g c)
      (\<lambda>(f, r, ys, om, ts, g, c).
         let (bk, sl) = after_fill (o_side x) p bk sl f ys om in fill_loop x r bk sl ts g c)"
  using assms
  by (subst fill_loop.simps) (auto simp: after_fill_def and_then_def Let_def split: sum.splits)

lemma after_fill_shorter:
  assumes "best_opposite (o_side x) bk = Some (p, ys)" and "r \<noteq> 0"
    and "fill_level x n 0 r ys om ts g c = Inr (f, r', ys', om', ts', g', c')"
    and "after_fill (o_side x) p bk sl f ys' om' = (bk', sl')"
  shows "length (opposite_map (o_side x) bk') < length (opposite_map (o_side x) bk) \<or>
    length (opposite_map (o_side x) bk') = length (opposite_map (o_side x) bk) \<and> unat r' < unat r"
proof -
  have "f \<or> r' = 0 \<or> ys' = []" using assms(3) by (cases f) (auto dest: fill_level_exit)
  then show ?thesis using assms(2,4) best_remove_shorter [OF assms(1)]
    by (auto simp: after_fill_def Let_def unat_gt_0 split: if_splits)
qed

lemma fill_loop_induct [case_names Stop Fault Level]:
  assumes stop: "\<And>r bk sl ts g c. fill_stops x r bk \<Longrightarrow> P r bk sl ts g c"
    and fault: "\<And>r bk sl ts g c p ys e.
      r \<noteq> 0 \<Longrightarrow> best_opposite (o_side x) bk = Some (p, ys) \<Longrightarrow> crosses (o_side x) (o_price x) p \<Longrightarrow>
      fill_level x (length ys) 0 r ys (orders_map bk) ts g c = Inl e \<Longrightarrow>
      fill_loop x r bk sl ts g c = Inl e \<Longrightarrow> P r bk sl ts g c"
    and level: "\<And>r bk sl ts g c p ys f r' ys' om' ts' g' c' bk' sl'.
      r \<noteq> 0 \<Longrightarrow> best_opposite (o_side x) bk = Some (p, ys) \<Longrightarrow> crosses (o_side x) (o_price x) p \<Longrightarrow>
      fill_level x (length ys) 0 r ys (orders_map bk) ts g c = Inr (f, r', ys', om', ts', g', c') \<Longrightarrow>
      after_fill (o_side x) p bk sl f ys' om' = (bk', sl') \<Longrightarrow>
      fill_loop x r bk sl ts g c = fill_loop x r' bk' sl' ts' g' c' \<Longrightarrow>
      P r' bk' sl' ts' g' c' \<Longrightarrow> P r bk sl ts g c"
  shows "P r bk sl ts g c"
proof (induction "(length (opposite_map (o_side x) bk), unat r)" arbitrary: r bk sl ts g c
    rule: wf_induct_rule [OF wf_lex_prod [OF wf_less wf_less]])
  case (1 r bk sl ts g c)
  show ?case
  proof (cases "fill_stops x r bk")
    case True
    then show ?thesis by (rule stop)
  next
    case False
    then obtain p ys where r: "r \<noteq> 0" and best: "best_opposite (o_side x) bk = Some (p, ys)"
      and cr: "crosses (o_side x) (o_price x) p"
      by (auto simp: fill_stops_def split: option.splits)
    note unfold = fill_loop_level [OF r best cr, of sl ts g c]
    show ?thesis
    proof (cases "fill_level x (length ys) 0 r ys (orders_map bk) ts g c")
      case (Inl e)
      then show ?thesis by (rule fault [OF r best cr]) (simp add: unfold Inl)
    next
      case (Inr q)
      obtain f r' ys' om' ts' g' c' where q: "q = (f, r', ys', om', ts', g', c')" by (cases q)
      obtain bk' sl' where a: "after_fill (o_side x) p bk sl f ys' om' = (bk', sl')" by fastforce
      from Inr q have lv: "fill_level x (length ys) 0 r ys (orders_map bk) ts g c =
        Inr (f, r', ys', om', ts', g', c')" by simp
      from unfold lv a have "fill_loop x r bk sl ts g c = fill_loop x r' bk' sl' ts' g' c'" by simp
      moreover have "P r' bk' sl' ts' g' c'"
        by (rule "1") (use after_fill_shorter [OF best r lv a] in auto)
      ultimately show ?thesis by (rule level [OF r best cr lv a])
    qed
  qed
qed

lemma opposite_levels_ok:
  "book_levels_ok bk \<Longrightarrow> levels_ok (other_side sd) (opposite_map sd bk)"
  by (cases sd) (simp_all add: book_levels_ok_def opposite_map_def)

lemma best_opposite_get:
  assumes "book_levels_ok bk" and "best_opposite sd bk = Some (p, ys)"
  shows "bm_get (opposite_map sd bk) p = Some ys"
  using assms by (cases sd) (auto simp: book_levels_ok_def levels_ok_def best_opposite_def
      opposite_map_def intro: bs.lowest_Some bs.highest_Some)

lemma own_with_opposite [simp]:
  "opposite_map (other_side sd) (with_opposite sd f bk) = opposite_map (other_side sd) bk"
  "orders_map (with_opposite sd f bk) = orders_map bk"
  by (cases sd; simp add: opposite_map_def with_opposite_def)+

lemma book_levels_ok_iff:
  "book_levels_ok bk \<longleftrightarrow> levels_ok (other_side sd) (opposite_map sd bk) \<and>
     levels_ok sd (opposite_map (other_side sd) bk)"
  by (cases sd) (auto simp: book_levels_ok_def opposite_map_def)

lemma after_fill_ok:
  assumes ok: "book_levels_ok bk" and aside: "aside_ok sd (opposite_map sd bk) sl"
    and best: "best_opposite sd bk = Some (p, ys)"
    and after: "after_fill sd p bk sl f ys' om' = (bk', sl')"
    and priced: "priced p (other_side sd) ys'" and ne: "f \<Longrightarrow> ys' \<noteq> []"
  shows "book_levels_ok bk' \<and> aside_ok sd (opposite_map sd bk') sl'"
    and "\<exists>Y. orders_of sl + orders_of (opposite_map sd bk) = mset ys + Y \<and>
      orders_of sl' + orders_of (opposite_map sd bk') = mset ys' + Y"
    and "opposite_map (other_side sd) bk' = opposite_map (other_side sd) bk" and "orders_map bk' = om'"
proof -
  let ?m = "opposite_map sd bk"
  have lok: "levels_ok (other_side sd) ?m" "levels_ok sd (opposite_map (other_side sd) bk)"
    using ok by (simp_all add: book_levels_ok_iff [of bk sd])
  have in_m: "p \<in> fst ` set ?m" using best by (rule best_opposite_in)
  have own: "opposite_map (other_side sd) (bk\<lparr>orders_map := om'\<rparr>) = opposite_map (other_side sd) bk"
    by (cases sd) (simp_all add: opposite_map_def)
  show "book_levels_ok bk' \<and> aside_ok sd (opposite_map sd bk') sl'"
    using after lok aside in_m priced ne own
    by (auto simp: after_fill_def Let_def book_levels_ok_iff [of _ sd] aside_ok_remove
        simp del: set_bm_remove
        intro!: levels_ok_remove_set levels_ok_set aside_ok_snoc split: if_splits) force
  from lok(1) have "bm_ok ?m" by (simp add: levels_ok_def)
  from orders_of_split [OF this best_opposite_get [OF ok best]] obtain R where
    "orders_of ?m = mset ys + R" "\<And>zs. orders_of (bm_set p zs ?m) = mset zs + R"
    "\<And>zs. orders_of (bm_remove p (bm_set p zs ?m)) = R" by metis
  then show "\<exists>Y. orders_of sl + orders_of ?m = mset ys + Y \<and>
      orders_of sl' + orders_of (opposite_map sd bk') = mset ys' + Y"
    using after by (intro exI [of _ "orders_of sl + R"])
      (auto simp: after_fill_def Let_def ac_simps split: if_splits)
  show "opposite_map (other_side sd) bk' = opposite_map (other_side sd) bk" "orders_map bk' = om'"
    using after own by (auto simp: after_fill_def Let_def split: if_splits)
qed

definition fill_loop_view ::
  "order \<Rightarrow> quantity \<Rightarrow> order_status \<Rightarrow> order_book \<Rightarrow> book_side \<Rightarrow> abstract_book" where
  "fill_loop_view x r st bk sl =
     fill_view (o_side x) (aggressor_bag x r st + orders_of (opposite_map (other_side (o_side x)) bk))
       (orders_of sl + orders_of (opposite_map (o_side x) bk)) (orders_map bk)"

lemma fill_loop_crossings:
  assumes "fill_loop x r bk sl ts g c = Inr (r', bk', sl', ts', g', c')"
    and "book_levels_ok bk" and "aside_ok (o_side x) (opposite_map (o_side x) bk) sl"
    and "hm_get (orders_map bk) (o_id x) = None"
  shows "\<exists>new st'. ts' = ts @ new \<and>
    crossings (o_side x) (fill_loop_view x r st bk sl) new (fill_loop_view x r' st' bk' sl') \<and>
    book_levels_ok bk' \<and> aside_ok (o_side x) (opposite_map (o_side x) bk') sl' \<and>
    hm_get (orders_map bk') (o_id x) = None"
  using assms
proof (induction r bk sl ts g c arbitrary: st rule: fill_loop_induct [where x = x])
  case (Stop r bk sl ts g c)
  then show ?case by (auto simp: fill_loop_stop intro!: exI [of _ st] crossings.none)
next
  case (Fault r bk sl ts g c p ys e)
  then show ?case by simp
next
  case (Level r bk sl ts g c p ys f r1 ys1 om1 ts1 g1 c1 bk1 sl1)
  let ?sd = "o_side x"
  note best = Level.hyps(2) and lv = Level.hyps(4)
  have "priced p (other_side ?sd) ys"
    using levels_ok_get [OF opposite_levels_ok best_opposite_get] Level.prems(2) best by blast
  note level = fill_level_crossings [OF lv this Level.hyps(3) Level.prems(4)]
  then have priced1: "priced p (other_side ?sd) ys1" by blast
  have "f \<Longrightarrow> ys1 \<noteq> []" using lv by (auto dest: fill_level_all_self)
  note after = after_fill_ok [OF Level.prems(2,3) best Level.hyps(5) priced1 this]
  obtain Y where Y: "orders_of sl + orders_of (opposite_map ?sd bk) = mset ys + Y"
    "orders_of sl1 + orders_of (opposite_map ?sd bk1) = mset ys1 + Y" using after(2) by blast
  obtain new1 st1 where new1: "ts1 = ts @ new1"
    "crossings ?sd (fill_loop_view x r st bk sl) new1 (fill_loop_view x r1 st1 bk1 sl1)"
    "hm_get (orders_map bk1) (o_id x) = None"
    using level [of st "orders_of (opposite_map (other_side ?sd) bk)" Y]
    by (auto simp: fill_loop_view_def Y after(3,4))
  from Level.IH [of st1] Level.prems(1) Level.hyps(6) after(1) new1(3) obtain new2 st2 where
    "ts' = ts1 @ new2" "crossings ?sd (fill_loop_view x r1 st1 bk1 sl1) new2 (fill_loop_view x r' st2 bk' sl')"
    "book_levels_ok bk'" "aside_ok ?sd (opposite_map ?sd bk') sl'" "hm_get (orders_map bk') (o_id x) = None"
    by auto
  with new1 show ?case by (auto intro: crossings_trans)
qed

lemma match_against_opposite_crossings:
  assumes "match_against_opposite bk x full g c = Inr (Some ts, bk', g', c')"
    and "book_levels_ok bk" and "hm_get (orders_map bk) (o_id x) = None"
  shows "\<exists>r st. book_levels_ok bk' \<and> hm_get (orders_map bk') (o_id x) = None \<and> (full \<longrightarrow> r = 0) \<and>
    crossings (o_side x)
      (fill_view (o_side x) (aggressor_bag x (o_remaining x) (o_status x)
          + orders_of (opposite_map (other_side (o_side x)) bk))
        (orders_of (opposite_map (o_side x) bk)) (orders_map bk)) ts
      (fill_view (o_side x) (aggressor_bag x r st + orders_of (opposite_map (other_side (o_side x)) bk'))
        (orders_of (opposite_map (o_side x) bk')) (orders_map bk'))"
proof -
  let ?sd = "o_side x"
  from assms(1) obtain r bk1 sl1 where
    run: "fill_loop x (o_remaining x) bk [] [] g c = Inr (r, bk1, sl1, ts, g', c')" and
    bk': "bk' = reinsert_levels ?sd sl1 bk1" and full: "\<not> (full \<and> 0 < r)"
    by (auto simp: match_against_opposite_def and_then_Inr Let_def split: if_splits)
  from fill_loop_crossings [OF run assms(2) _ assms(3), of "o_status x"] obtain st where
    cr: "crossings ?sd (fill_loop_view x (o_remaining x) (o_status x) bk []) ts
      (fill_loop_view x r st bk1 sl1)" and
    ok: "book_levels_ok bk1" "aside_ok ?sd (opposite_map ?sd bk1) sl1" and
    none: "hm_get (orders_map bk1) (o_id x) = None" by auto
  have "fill_loop_view x r st bk1 sl1 =
      fill_view ?sd (aggressor_bag x r st + orders_of (opposite_map (other_side ?sd) bk'))
        (orders_of (opposite_map ?sd bk')) (orders_map bk')"
    using reinsert_one_side [OF opposite_levels_ok [OF ok(1)] ok(2)]
    by (simp add: fill_loop_view_def bk' reinsert_levels_eq)
  with cr show ?thesis
    using reinsert_levels_ok(1) [OF ok] none full
    by (intro exI [of _ r] exI [of _ st])
      (auto simp: bk' reinsert_levels_eq fill_loop_view_def word_gt_0)
qed

end
