(* ===== verification/BookInvariant.thy ===== *)
theory BookInvariant
  imports Matching
begin

text \<open>
  What every run of crossings keeps and produces: the agreement between the deques and the lookup
  table, the conservation of quantity, and the terms of the trades. From these follow the
  invariant of the order book and the effect of each of its operations.
\<close>

section \<open>Terms of an order\<close>

definition same_terms :: "order \<Rightarrow> order \<Rightarrow> bool" where
  "same_terms x y \<longleftrightarrow> o_id x = o_id y \<and> o_type x = o_type y \<and> o_side x = o_side y \<and>
     o_price x = o_price y \<and> o_initial x = o_initial y \<and> o_timestamp x = o_timestamp y \<and>
     o_user x = o_user y"

lemma same_terms_refl [simp]: "same_terms x x"
  by (simp add: same_terms_def)

lemma same_terms_trans: "same_terms x y \<Longrightarrow> same_terms y z \<Longrightarrow> same_terms x z"
  by (simp add: same_terms_def)

lemma same_terms_fills [simp]: "same_terms (snd (fills x q)) x"
  by (simp add: same_terms_def)

lemma same_termsD:
  assumes "same_terms x y"
  shows "o_id x = o_id y" "o_side x = o_side y" "o_price x = o_price y" "o_user x = o_user y"
  using assms by (simp_all add: same_terms_def)

lemma leftover_elim:
  assumes "y \<in># leftover x q" and "q \<le> o_remaining x"
  shows "y = snd (fills x q) \<and> same_terms y x \<and> o_remaining y = o_remaining x - q \<and> o_remaining y \<noteq> 0"
  using assms by (auto simp: leftover_def is_filled_def fills_remaining split: if_splits)

section \<open>Deques and lookup table agree\<close>

text \<open>
  \<open>indexed_but U M om\<close>: the table lists exactly the orders of \<open>M\<close> whose identifier is not in \<open>U\<close>,
  each once, with the terms of the order and at least its remaining quantity (the table keeps the
  copy made at insertion). \<open>U\<close> holds the identifier of an aggressor that never rests.
\<close>

definition indexed_but :: "order_id set \<Rightarrow> order multiset \<Rightarrow> (order_id, order) hmap \<Rightarrow> bool" where
  "indexed_but U M om \<longleftrightarrow> hm_ok om \<and> (\<forall>i \<in> U. hm_get om i = None) \<and>
     image_mset o_id (filter_mset (\<lambda>x. o_id x \<notin> U) M) = image_mset fst (mset om) \<and>
     (\<forall>x \<in># M. o_remaining x \<noteq> 0) \<and>
     (\<forall>x \<in># M. o_id x \<notin> U \<longrightarrow>
        (\<exists>y. hm_get om (o_id x) = Some y \<and> same_terms x y \<and> o_remaining x \<le> o_remaining y))"

abbreviation indexed :: "order multiset \<Rightarrow> (order_id, order) hmap \<Rightarrow> bool" where
  "indexed \<equiv> indexed_but {}"

lemma keys_remove:
  "hm_ok om \<Longrightarrow> image_mset fst (mset (hm_remove i om)) = image_mset fst (mset om) - {#i#}"
proof (induction om)
  case (Cons e om)
  then have "fst e \<notin># image_mset fst (mset om)" "hm_ok om" by (auto simp: hm_ok_def)
  then show ?case
    using Cons.IH by (cases "fst e = i") (auto simp: hm_remove_def AList.delete_eq diff_single_trivial
      intro!: arg_cong [where f = "image_mset fst"] filter_mset_eq_conv [THEN iffD2])
qed (simp add: hm_remove_def)

lemma keys_distinct: "hm_ok om \<Longrightarrow> count (image_mset fst (mset om)) i \<le> 1"
proof (induction om)
  case (Cons e om)
  then have "fst e \<notin># image_mset fst (mset om)" "hm_ok om" by (auto simp: hm_ok_def)
  with Cons.IH show ?case by (auto simp: count_eq_zero_iff)
qed simp

lemma indexed_fresh:
  assumes "indexed_but U (add_mset x M) om" and "o_id x \<notin> U" and "y \<in># M"
  shows "o_id y \<noteq> o_id x"
proof
  assume eq: "o_id y = o_id x"
  let ?ids = "image_mset o_id (filter_mset (\<lambda>x. o_id x \<notin> U) M)"
  from assms have "add_mset (o_id x) ?ids = image_mset fst (mset om)" "hm_ok om"
    by (simp_all add: indexed_but_def)
  with keys_distinct [of om "o_id x"] have "count (add_mset (o_id x) ?ids) (o_id x) \<le> 1" by simp
  then have "o_id x \<notin># ?ids" by (simp only: count_add_mset count_eq_zero_iff [symmetric]) simp
  moreover have "o_id y \<in># ?ids" using assms(2,3) eq by (auto intro!: rev_image_eqI)
  ultimately show False using eq by simp
qed

text \<open>Filling one order and retiring it when exhausted keeps the agreement.\<close>

lemma indexed_settle:
  assumes ix: "indexed_but U (add_mset x M) om" and q: "q \<le> o_remaining x"
  shows "indexed_but U (leftover x q + M) (retire x q om)"
proof (cases "is_filled (snd (fills x q))")
  case filled: True
  show ?thesis
  proof (cases "o_id x \<in> U")
    case True
    with ix have "retire x q om = om" by (auto simp: indexed_but_def intro: retire_absent)
    with True filled ix show ?thesis by (auto simp: indexed_but_def leftover_def)
  next
    case False
    note fresh = indexed_fresh [OF ix False]
    from ix False have "hm_ok om" and
      ids: "add_mset (o_id x) (image_mset o_id (filter_mset (\<lambda>x. o_id x \<notin> U) M)) = image_mset fst (mset om)"
      by (simp_all add: indexed_but_def)
    then have "image_mset o_id (filter_mset (\<lambda>x. o_id x \<notin> U) M) = image_mset fst (mset (hm_remove (o_id x) om))"
      by (simp add: keys_remove flip: ids)
    with filled ix fresh show ?thesis by (auto simp: indexed_but_def leftover_def retire_def)
  qed
next
  case False
  let ?x = "snd (fills x q)"
  have rem: "o_remaining ?x \<le> o_remaining x" "o_remaining ?x \<noteq> 0"
    using False q by (auto simp: is_filled_def fills_remaining word_le_nat_alt unat_minus_le)
  have "\<exists>y. hm_get om (o_id x) = Some y \<and> same_terms ?x y \<and> o_remaining ?x \<le> o_remaining y"
    if "o_id x \<notin> U"
  proof -
    from ix that obtain y where "hm_get om (o_id x) = Some y" "same_terms x y" "o_remaining x \<le> o_remaining y"
      by (auto simp: indexed_but_def)
    with rem(1) show ?thesis
      by (metis order.trans same_terms_fills same_terms_trans)
  qed
  with False ix rem(2) show ?thesis by (auto simp: indexed_but_def leftover_def retire_def)
qed

fun agrees :: "order_id set \<Rightarrow> abstract_book \<Rightarrow> bool" where
  "agrees U (B, A, om) = indexed_but U (B + A) om"

lemma crossing_agrees:
  assumes "crossing sd s t s'" and "agrees U s"
  shows "agrees U s'"
  using assms
proof cases
  case (cross b a q B A om)
  from assms(2) cross have "indexed_but U (add_mset b (add_mset a (B + A))) om"
    by (simp add: add_mset_commute)
  then have "indexed_but U (leftover b q + add_mset a (B + A)) (retire b q om)"
    by (rule indexed_settle) (simp add: cross)
  then have "indexed_but U (add_mset a (leftover b q + (B + A))) (retire b q om)" by simp
  then have "indexed_but U (leftover a q + (leftover b q + (B + A))) (retire a q (retire b q om))"
    by (rule indexed_settle) (simp add: cross)
  with cross show ?thesis by (simp add: union_assoc union_commute union_lcomm)
qed

lemma crossings_agrees: "crossings sd s ts s' \<Longrightarrow> agrees U s \<Longrightarrow> agrees U s'"
  by (induction rule: crossings.induct) (auto intro: crossing_agrees)

section \<open>Conservation of quantity\<close>

definition volume :: "(order_id \<Rightarrow> bool) \<Rightarrow> order multiset \<Rightarrow> nat" where
  "volume P M = (\<Sum>x \<in># filter_mset (\<lambda>x. P (o_id x)) M. unat (o_remaining x))"

definition bid_volume :: "(order_id \<Rightarrow> bool) \<Rightarrow> trade list \<Rightarrow> nat" where
  "bid_volume P ts = (\<Sum>t \<leftarrow> filter (\<lambda>t. P (ti_order_id (t_bid t))) ts. unat (ti_quantity (t_bid t)))"

definition ask_volume :: "(order_id \<Rightarrow> bool) \<Rightarrow> trade list \<Rightarrow> nat" where
  "ask_volume P ts = (\<Sum>t \<leftarrow> filter (\<lambda>t. P (ti_order_id (t_ask t))) ts. unat (ti_quantity (t_ask t)))"

lemma volume_simps [simp]:
  "volume P {#} = 0"
  "volume P (add_mset x M) = (if P (o_id x) then unat (o_remaining x) else 0) + volume P M"
  "volume P (M + N) = volume P M + volume P N"
  by (simp_all add: volume_def)

lemma volume_leftover:
  "q \<le> o_remaining x \<Longrightarrow>
     volume P (leftover x q) + (if P (o_id x) then unat q else 0) = (if P (o_id x) then unat (o_remaining x) else 0)"
  by (auto simp: leftover_def is_filled_def fills_remaining unat_minus_le word_le_nat_alt)

lemma trade_volume_snoc [simp]:
  "bid_volume P (ts @ [t]) = bid_volume P ts + (if P (ti_order_id (t_bid t)) then unat (ti_quantity (t_bid t)) else 0)"
  "ask_volume P (ts @ [t]) = ask_volume P ts + (if P (ti_order_id (t_ask t)) then unat (ti_quantity (t_ask t)) else 0)"
  "bid_volume P [] = 0" "ask_volume P [] = 0"
  by (simp_all add: bid_volume_def ask_volume_def)

lemma trade_ofD:
  assumes "trade_of sd b a q t"
  shows "t_bid t = trade_info_new (o_id b) (case sd of Buy \<Rightarrow> o_price a | Sell \<Rightarrow> o_price b) q (o_user b)"
    and "t_ask t = trade_info_new (o_id a) (case sd of Buy \<Rightarrow> o_price a | Sell \<Rightarrow> o_price b) q (o_user a)"
  using assms by (simp_all add: trade_of_def Let_def)

lemma trade_info_new_simps [simp]:
  "ti_order_id (trade_info_new i p q u) = i" "ti_price (trade_info_new i p q u) = p"
  "ti_quantity (trade_info_new i p q u) = q" "ti_user (trade_info_new i p q u) = u"
  by (simp_all add: trade_info_new_def)

fun bids_in :: "abstract_book \<Rightarrow> order multiset" where "bids_in (B, A, om) = B"
fun asks_in :: "abstract_book \<Rightarrow> order multiset" where "asks_in (B, A, om) = A"

lemma crossing_volume:
  assumes "crossing sd s t s'"
  shows "volume P (bids_in s') + (if P (ti_order_id (t_bid t)) then unat (ti_quantity (t_bid t)) else 0)
      = volume P (bids_in s)"
    and "volume P (asks_in s') + (if P (ti_order_id (t_ask t)) then unat (ti_quantity (t_ask t)) else 0)
      = volume P (asks_in s)"
  using assms
proof (atomize (full), cases)
  case (cross b a q B A om)
  then have "q \<le> o_remaining b" "q \<le> o_remaining a" by simp_all
  with volume_leftover [of q b P] volume_leftover [of q a P] cross
  show "volume P (bids_in s') + (if P (ti_order_id (t_bid t)) then unat (ti_quantity (t_bid t)) else 0)
      = volume P (bids_in s) \<and>
    volume P (asks_in s') + (if P (ti_order_id (t_ask t)) then unat (ti_quantity (t_ask t)) else 0)
      = volume P (asks_in s)"
    by (auto simp: trade_ofD)
qed

lemma crossings_volume:
  "crossings sd s ts s' \<Longrightarrow> volume P (bids_in s') + bid_volume P ts = volume P (bids_in s) \<and>
     volume P (asks_in s') + ask_volume P ts = volume P (asks_in s)"
proof (induction rule: crossings.induct)
  case (more s ts s' t s'')
  with crossing_volume [OF more.hyps(2), of P] show ?case by (simp add: ac_simps)
qed simp

section \<open>Terms of the trades\<close>

text \<open>
  A trade is due to a bid and an ask that were in the book when matching began: different users,
  one price within both limits and one quantity that both had left.
\<close>

definition due_to :: "order \<Rightarrow> order \<Rightarrow> trade \<Rightarrow> bool" where
  "due_to b a t \<longleftrightarrow>
     ti_order_id (t_bid t) = o_id b \<and> ti_user (t_bid t) = o_user b \<and>
     ti_order_id (t_ask t) = o_id a \<and> ti_user (t_ask t) = o_user a \<and> o_user b \<noteq> o_user a \<and>
     ti_price (t_bid t) = ti_price (t_ask t) \<and>
     o_price a \<le> ti_price (t_ask t) \<and> ti_price (t_bid t) \<le> o_price b \<and>
     ti_quantity (t_bid t) = ti_quantity (t_ask t) \<and> 0 < ti_quantity (t_bid t) \<and>
     ti_quantity (t_bid t) \<le> o_remaining b \<and> ti_quantity (t_ask t) \<le> o_remaining a"

definition at_resting_price :: "side \<Rightarrow> order \<Rightarrow> order \<Rightarrow> trade \<Rightarrow> bool" where
  "at_resting_price sd b a t \<longleftrightarrow> ti_price (t_bid t) = (case sd of Buy \<Rightarrow> o_price a | Sell \<Rightarrow> o_price b)"

definition shrinks :: "order multiset \<Rightarrow> order multiset \<Rightarrow> bool" where
  "shrinks M' M \<longleftrightarrow> (\<forall>x \<in># M'. \<exists>y \<in># M. same_terms x y \<and> o_remaining x \<le> o_remaining y)"

definition live :: "order multiset \<Rightarrow> bool" where
  "live M \<longleftrightarrow> (\<forall>x \<in># M. o_remaining x \<noteq> 0)"

lemma shrinks_refl [simp]: "shrinks M M"
  by (auto simp: shrinks_def intro!: bexI)

lemma shrinks_trans: "shrinks M' M \<Longrightarrow> shrinks M'' M' \<Longrightarrow> shrinks M'' M"
  unfolding shrinks_def by (meson order.trans same_terms_trans)

lemma shrinks_ids: "shrinks M' M \<Longrightarrow> \<forall>y \<in># M. o_id y \<noteq> i \<Longrightarrow> x \<in># M' \<Longrightarrow> o_id x \<noteq> i"
  unfolding shrinks_def by (metis same_termsD(1))

lemma shrinks_leftover:
  assumes "q \<le> o_remaining x"
  shows "shrinks (leftover x q + M) (add_mset x M)"
proof -
  have "o_remaining x - q \<le> o_remaining x"
    using assms by (simp add: word_le_nat_alt unat_minus_le)
  then show ?thesis
    using leftover_elim [OF _ assms] by (fastforce simp: shrinks_def intro!: bexI)
qed

lemma live_leftover: "q \<le> o_remaining x \<Longrightarrow> live (add_mset x M) \<Longrightarrow> live (leftover x q + M)"
  by (auto simp: live_def dest: leftover_elim)

lemma crossing_shrinks:
  assumes "crossing sd s t s'"
  shows "shrinks (bids_in s') (bids_in s) \<and> shrinks (asks_in s') (asks_in s)"
  using assms by cases (auto intro: shrinks_leftover)

lemma crossing_live:
  assumes "crossing sd s t s'" and "live (bids_in s)" and "live (asks_in s)"
  shows "live (bids_in s') \<and> live (asks_in s')"
  using assms by cases (auto intro: live_leftover)

lemma crossings_shrinks:
  "crossings sd s ts s' \<Longrightarrow> shrinks (bids_in s') (bids_in s) \<and> shrinks (asks_in s') (asks_in s)"
  by (induction rule: crossings.induct) (auto dest: crossing_shrinks intro: shrinks_trans)

lemma crossings_live:
  "crossings sd s ts s' \<Longrightarrow> live (bids_in s) \<Longrightarrow> live (asks_in s) \<Longrightarrow> live (bids_in s') \<and> live (asks_in s')"
  by (induction rule: crossings.induct) (auto dest: crossing_live)

lemma crossing_due:
  assumes "crossing sd s t s'" and "live (bids_in s)" and "live (asks_in s)"
  shows "\<exists>b \<in># bids_in s. \<exists>a \<in># asks_in s. due_to b a t \<and> at_resting_price sd b a t"
  using assms
proof cases
  case (cross b a q B A om)
  have "due_to b a t \<and> at_resting_price sd b a t"
    using cross(3-6) trade_ofD [OF cross(6)] assms(2,3) cross(1)
    by (auto simp: due_to_def at_resting_price_def live_def word_gt_0 min_def split: side.splits)
  with cross show ?thesis by auto
qed

lemma due_to_shrunk:
  assumes "due_to b a t" and "same_terms b b'" "o_remaining b \<le> o_remaining b'"
    and "same_terms a a'" "o_remaining a \<le> o_remaining a'"
  shows "due_to b' a' t"
  using assms(1,3,5) same_termsD [OF assms(2)] same_termsD [OF assms(4)]
  by (auto simp: due_to_def)

lemma crossings_due:
  "crossings sd s ts s' \<Longrightarrow> live (bids_in s) \<Longrightarrow> live (asks_in s) \<Longrightarrow> t \<in> set ts \<Longrightarrow>
     \<exists>b \<in># bids_in s. \<exists>a \<in># asks_in s. due_to b a t \<and> at_resting_price sd b a t"
proof (induction rule: crossings.induct)
  case (more s ts s' t' s'')
  show ?case
  proof (cases "t \<in> set ts")
    case False
    with more.prems have t: "t = t'" by simp
    have "live (bids_in s')" "live (asks_in s')"
      using crossings_live [OF more.hyps(1)] more.prems by auto
    from crossing_due [OF more.hyps(2) this] obtain b a where
      ba: "b \<in># bids_in s'" "a \<in># asks_in s'" "due_to b a t" "at_resting_price sd b a t"
      by (auto simp: t)
    from crossings_shrinks [OF more.hyps(1)] ba(1,2) obtain b' a' where
      "b' \<in># bids_in s" "same_terms b b'" "o_remaining b \<le> o_remaining b'"
      "a' \<in># asks_in s" "same_terms a a'" "o_remaining a \<le> o_remaining a'"
      by (auto simp: shrinks_def) blast
    moreover from this ba(4) have "at_resting_price sd b' a' t"
      by (auto simp: at_resting_price_def same_terms_def split: side.splits)
    ultimately show ?thesis using due_to_shrunk [OF ba(3)] by blast
  qed (use more in simp)
qed simp

section \<open>The invariant of the order book\<close>

definition book_orders :: "order_book \<Rightarrow> order multiset" where
  "book_orders bk = orders_of (bids_map bk) + orders_of (asks_map bk)"

definition book_ok :: "order_book \<Rightarrow> bool" where
  "book_ok bk \<longleftrightarrow> book_levels_ok bk \<and> indexed (book_orders bk) (orders_map bk)"

lemma book_orders_view: "book_orders bk = bids_in (view bk) + asks_in (view bk)"
  by (simp add: book_orders_def view_def)

lemma agrees_view: "agrees U (view bk) \<longleftrightarrow> indexed_but U (book_orders bk) (orders_map bk)"
  by (simp add: book_orders_def view_def)

lemma book_orders_opposite:
  "book_orders bk = orders_of (opposite_map sd bk) + orders_of (opposite_map (other_side sd) bk)"
  by (cases sd) (simp_all add: book_orders_def opposite_map_def ac_simps)

lemma indexed_live: "indexed_but U M om \<Longrightarrow> live M"
  by (simp add: indexed_but_def live_def)

lemma indexed_get: "indexed M om \<Longrightarrow> x \<in># M \<Longrightarrow> \<exists>y. hm_get om (o_id x) = Some y \<and> same_terms x y"
  by (auto simp: indexed_but_def)

lemma indexed_insert:
  assumes "indexed M om" and "hm_get om (o_id x) = None" and "o_remaining x \<noteq> 0"
  shows "indexed (add_mset x M) (hm_insert (o_id x) x om)"
proof -
  have fresh: "o_id y \<noteq> o_id x" if "y \<in># M" for y
    using indexed_get [OF assms(1) that] assms(2) by auto
  have ids: "image_mset fst (mset (hm_insert (o_id x) x om)) = add_mset (o_id x) (image_mset fst (mset om))"
    using assms(2) by (induction om) (auto simp: hm_get_def hm_insert_def split: if_splits)
  with assms fresh show ?thesis by (auto simp: indexed_but_def)
qed

lemma indexed_aggressor:
  assumes "indexed M om" and "hm_get om (o_id x) = None"
  shows "indexed_but {o_id x} (aggressor_bag x r st + M) om"
proof -
  have fresh: "o_id y \<noteq> o_id x" if "y \<in># M" for y
    using indexed_get [OF assms(1) that] assms(2) by auto
  then have "filter_mset (\<lambda>y. o_id y \<noteq> o_id x) M = M" by (simp add: filter_mset_eq_conv)
  with assms fresh show ?thesis by (auto simp: indexed_but_def aggressor_bag_def)
qed

lemma indexed_without_aggressor:
  assumes "indexed_but {o_id x} (aggressor_bag x r st + M) om" and "\<forall>y \<in># M. o_id y \<noteq> o_id x"
  shows "indexed M om"
proof -
  have "filter_mset (\<lambda>y. o_id y \<noteq> o_id x) M = M" using assms(2) by (simp add: filter_mset_eq_conv)
  with assms show ?thesis by (auto simp: indexed_but_def aggressor_bag_def split: if_splits)
qed

lemma fill_loop_own_side:
  "fill_loop x r bk sl ts g c = Inr (r', bk', sl', ts', g', c') \<Longrightarrow>
     opposite_map (other_side (o_side x)) bk' = opposite_map (other_side (o_side x)) bk"
proof (induction r bk sl ts g c rule: fill_loop_induct [where x = x])
  case (Level r bk sl ts g c p ys f r1 ys1 om1 ts1 g1 c1 bk1 sl1)
  then have "opposite_map (other_side (o_side x)) bk1 = opposite_map (other_side (o_side x)) bk"
    by (cases "o_side x") (auto simp: after_fill_def Let_def with_opposite_def opposite_map_def split: if_splits)
  with Level show ?case by simp
qed (simp_all add: fill_loop_stop)

lemma match_against_opposite_own_side:
  assumes "match_against_opposite bk x full g c = Inr (Some ts, bk', g', c')"
  shows "opposite_map (other_side (o_side x)) bk' = opposite_map (other_side (o_side x)) bk"
  using assms by (auto simp: match_against_opposite_def and_then_Inr Let_def reinsert_levels_eq
      split: if_splits dest: fill_loop_own_side)

end
