(* ===== verification/Samples.thy ===== *)
theory Samples
  imports BookInvariant
begin

text \<open>
  Concrete orders, books, generators and clocks. The theorems of the component theories are applied
  to them, so that each is seen to speak about runs that exist.
\<close>

definition sample_order ::
  "order_id \<Rightarrow> order_type \<Rightarrow> side \<Rightarrow> 32 word \<Rightarrow> quantity \<Rightarrow> user_id \<Rightarrow> order" where
  "sample_order i ty sd p q u =
     \<lparr>o_id = i, o_type = ty, o_side = sd, o_status = Empty, o_price = Price p, o_initial = q,
      o_remaining = q, o_timestamp = 0, o_user = u\<rparr>"

definition sample_generator :: generator where
  "sample_generator = \<lparr>machine_id = 1, datacenter_id = 1, sequence = 0, last_timestamp = 0\<rparr>"

text \<open>Twelve readings of the clock, one millisecond apart.\<close>

definition sample_clock :: clock where
  "sample_clock = map (\<lambda>i. 1704067200005000000 + int i * 1000000) [0..<12]"

text \<open>Orders placed one after another, each on the book the previous one left.\<close>

fun place_all ::
  "order_book \<Rightarrow> order list \<Rightarrow> generator \<Rightarrow> clock \<Rightarrow> fault + order_book \<times> generator \<times> clock" where
  "place_all bk [] g c = Inr (bk, g, c)"
| "place_all bk (x # xs) g c =
     and_then (add_order bk x g c) (\<lambda>(_, bk, g, c). place_all bk xs g c)"

text \<open>Two asks at 100, of users 1 and 2, and one at 103, of user 3; one bid at 98, of user 4.\<close>

definition sample_book :: order_book where
  "sample_book =
     (let a1 = sample_order 1 GoodTillCancel Sell 100 5 1;
          a2 = sample_order 2 GoodTillCancel Sell 100 4 2;
          a3 = sample_order 3 GoodTillCancel Sell 103 6 3;
          b1 = sample_order 4 GoodTillCancel Buy 98 7 4
      in \<lparr>bids_map = [(Price 98, [b1])],
          asks_map = [(Price 100, [a1, a2]), (Price 103, [a3])],
          orders_map = [(1, a1), (2, a2), (3, a3), (4, b1)]\<rparr>)"

lemmas eval_samples = sample_order_def sample_generator_def sample_clock_def sample_book_def Let_def

lemma sample_book_placed:
  "map_sum id fst (place_all order_book_new
      [sample_order 1 GoodTillCancel Sell 100 5 1, sample_order 2 GoodTillCancel Sell 100 4 2,
       sample_order 3 GoodTillCancel Sell 103 6 3, sample_order 4 GoodTillCancel Buy 98 7 4]
      sample_generator sample_clock) = Inr sample_book"
  by code_simp

lemma sample_book_levels_ok: "book_levels_ok sample_book"
  by (simp add: book_levels_ok_def levels_ok_def eval_samples bm_ok_def)

lemma sample_book_ok: "book_ok sample_book"
  using sample_book_levels_ok
  by (simp add: book_ok_def book_orders_def indexed_but_def orders_of_def hm_ok_def hm_get_def eval_samples)

end
