(* ===== verification/BookTheorems.thy ===== *)
theory BookTheorems
  imports Samples
begin

text \<open>
  The operations of the order book: \<open>add_order\<close> on each of its branches, \<open>cancel_order\<close> and
  \<open>cancel_orders_for_user\<close> keep the invariant of the book, and what each of them does to the
  orders it holds.
\<close>

section \<open>Placing an order\<close>

definition immediate :: "order_type \<Rightarrow> bool" where
  "immediate ty \<longleftrightarrow> ty = FillAndKill \<or> ty = FillOrKill"

definition side_orders :: "side \<Rightarrow> order_book \<Rightarrow> order multiset" where
  "side_orders sd bk = (case sd of Buy \<Rightarrow> orders_of (bids_map bk) | Sell \<Rightarrow> orders_of (asks_map bk))"

definition contenders :: "order_book \<Rightarrow> order \<Rightarrow> side \<Rightarrow> order multiset" where
  "contenders bk x sd = (if o_side x = sd then add_mset x (side_orders sd bk) else side_orders sd bk)"

definition traded :: "(order_id \<Rightarrow> bool) \<Rightarrow> side \<Rightarrow> trade list \<Rightarrow> nat" where
  "traded P sd ts = (case sd of Buy \<Rightarrow> bid_volume P ts | Sell \<Rightarrow> ask_volume P ts)"

text \<open>The book in which a resting order meets \<open>match_order\<close>.\<close>

definition placed :: "order_book \<Rightarrow> order \<Rightarrow> order_book" where
  "placed bk x =
     (let bk = bk\<lparr>orders_map := hm_insert (o_id x) x (orders_map bk)\<rparr> in
      case o_side x of
        Buy \<Rightarrow> bk\<lparr>bids_map := push_level x (bids_map bk)\<rparr>
      | Sell \<Rightarrow> bk\<lparr>asks_map := push_level x (asks_map bk)\<rparr>)"

lemma add_order_cases:
  assumes "add_order bk x g c = Inr (r, bk', g', c')"
  obtains
    (rejected) "r = None" "bk' = bk" "g' = g" "c' = c"
  | (immediate) ts where "hm_get (orders_map bk) (o_id x) = None" "r = Some ts" "immediate (o_type x)"
      "match_against_opposite bk x (o_type x = FillOrKill) g c = Inr (Some ts, bk', g', c')"
  | (resting) ts where "hm_get (orders_map bk) (o_id x) = None" "r = Some ts" "\<not> immediate (o_type x)"
      "match_order (placed bk x) (o_side x) g c = Inr (ts, bk', g', c')"
proof -
  have none: "r = None \<Longrightarrow> bk' = bk \<and> g' = g \<and> c' = c" if
    "match_against_opposite bk x f g c = Inr (r, bk', g', c')" for f
    using that by (auto simp: match_against_opposite_def and_then_Inr Let_def split: if_splits)
  show ?thesis
  proof (cases r)
    case None
    with assms none show ?thesis
      by (intro rejected) (auto simp: add_order_def Let_def and_then_Inr split: if_splits)
  next
    case (Some ts)
    with assms show ?thesis
      by (cases "immediate (o_type x)")
        (auto simp: add_order_def immediate_def placed_def Let_def and_then_Inr hm_contains_def
          intro: immediate resting split: if_splits)
  qed
qed

lemma placed_ok:
  assumes ok: "book_ok bk" and "hm_get (orders_map bk) (o_id x) = None" and "o_remaining x \<noteq> 0"
  shows "book_ok (placed bk x)" and "side_orders sd (placed bk x) = contenders bk x sd"
proof -
  have lv: "levels_ok Buy (bids_map bk)" "levels_ok Sell (asks_map bk)"
    and ix: "indexed (book_orders bk) (orders_map bk)"
    using ok by (simp_all add: book_ok_def book_levels_ok_def)
  then have "book_orders (placed bk x) = add_mset x (book_orders bk)"
    "orders_map (placed bk x) = hm_insert (o_id x) x (orders_map bk)"
    by (cases "o_side x"; simp add: placed_def Let_def book_orders_def orders_of_push levels_ok_def)+
  moreover have "book_levels_ok (placed bk x)"
    using lv by (cases "o_side x") (simp_all add: placed_def Let_def book_levels_ok_def levels_ok_push)
  ultimately show "book_ok (placed bk x)"
    using indexed_insert [OF ix assms(2,3)] by (simp add: book_ok_def)
  show "side_orders sd (placed bk x) = contenders bk x sd"
    using lv by (cases "o_side x"; cases sd)
      (simp_all add: placed_def Let_def side_orders_def contenders_def orders_of_push levels_ok_def)
qed

lemma side_orders_view:
  "bids_in (view bk) = side_orders Buy bk" "asks_in (view bk) = side_orders Sell bk"
  by (simp_all add: view_def side_orders_def)

lemma side_orders_opposite: "side_orders (other_side sd) bk = orders_of (opposite_map sd bk)"
  by (cases sd) (simp_all add: side_orders_def opposite_map_def)

lemma book_orders_sides: "book_orders bk = side_orders Buy bk + side_orders Sell bk"
  by (simp add: book_orders_def side_orders_def)

text \<open>The abstract run behind a successful placement of either kind.\<close>

lemma resting_run:
  assumes "book_ok bk" and "hm_get (orders_map bk) (o_id x) = None" and "o_remaining x \<noteq> 0"
    and "match_order (placed bk x) (o_side x) g c = Inr (ts, bk', g', c')"
  shows "crossings (o_side x) (view (placed bk x)) ts (view bk')" and "book_ok bk'"
proof -
  note ok = placed_ok(1) [OF assms(1-3)]
  from ok have "book_levels_ok (placed bk x)" by (simp add: book_ok_def)
  note run = match_order_crossings [OF assms(4) this]
  show "crossings (o_side x) (view (placed bk x)) ts (view bk')" by (rule run)
  from crossings_agrees [OF run(1), of "{}"] ok run(2) show "book_ok bk'"
    by (simp add: book_ok_def agrees_view)
qed

definition immediate_view :: "order \<Rightarrow> quantity \<Rightarrow> order_status \<Rightarrow> order_book \<Rightarrow> abstract_book" where
  "immediate_view x r st bk =
     fill_view (o_side x) (aggressor_bag x r st + side_orders (o_side x) bk)
       (side_orders (other_side (o_side x)) bk) (orders_map bk)"

lemma immediate_view_sides:
  "bids_in (immediate_view x r st bk) =
     (if o_side x = Buy then aggressor_bag x r st else {#}) + side_orders Buy bk"
  "asks_in (immediate_view x r st bk) =
     (if o_side x = Sell then aggressor_bag x r st else {#}) + side_orders Sell bk"
  by (cases "o_side x"; simp add: immediate_view_def fill_view_def)+

lemma agrees_immediate_view:
  "agrees U (immediate_view x r st bk) =
     indexed_but U (aggressor_bag x r st + book_orders bk) (orders_map bk)"
  by (cases "o_side x") (simp_all add: immediate_view_def fill_view_def book_orders_sides ac_simps)

lemma aggressor_bag_self: "o_remaining x \<noteq> 0 \<Longrightarrow> aggressor_bag x (o_remaining x) (o_status x) = {#x#}"
  by (simp add: aggressor_bag_def)

lemma immediate_run:
  assumes ok: "book_ok bk" and fresh: "hm_get (orders_map bk) (o_id x) = None"
    and run: "match_against_opposite bk x full g c = Inr (Some ts, bk', g', c')"
  shows "book_ok bk'" and "side_orders (o_side x) bk' = side_orders (o_side x) bk"
    and "\<exists>r st. (full \<longrightarrow> r = 0) \<and> crossings (o_side x)
      (immediate_view x (o_remaining x) (o_status x) bk) ts (immediate_view x r st bk')"
proof -
  let ?sd = "o_side x"
  have lv: "book_levels_ok bk" and ix: "indexed (book_orders bk) (orders_map bk)"
    using ok by (simp_all add: book_ok_def)
  have own: "orders_of (opposite_map (other_side ?sd) b) = side_orders ?sd b" for b
    by (cases ?sd) (simp_all add: opposite_map_def side_orders_def)
  from match_against_opposite_crossings [OF run lv fresh] obtain r st where
    lv': "book_levels_ok bk'" and none: "hm_get (orders_map bk') (o_id x) = None" and full: "full \<longrightarrow> r = 0"
    and cr: "crossings ?sd (immediate_view x (o_remaining x) (o_status x) bk) ts (immediate_view x r st bk')"
    by (auto simp: immediate_view_def side_orders_opposite own)
  have keep: "side_orders ?sd bk' = side_orders ?sd bk"
    using match_against_opposite_own_side [OF run] by (simp flip: own)
  have old: "\<forall>y \<in># book_orders bk. o_id y \<noteq> o_id x"
    using indexed_get [OF ix] fresh by fastforce
  have "shrinks (side_orders (other_side ?sd) bk') (side_orders (other_side ?sd) bk)"
    using crossings_shrinks [OF cr] by (cases ?sd) (simp_all add: immediate_view_sides)
  then have "\<forall>y \<in># book_orders bk'. o_id y \<noteq> o_id x"
    using old keep shrinks_ids [of "side_orders (other_side ?sd) bk'" "side_orders (other_side ?sd) bk" "o_id x"]
    by (cases ?sd) (auto simp: book_orders_sides)
  moreover have "indexed_but {o_id x} (aggressor_bag x r st + book_orders bk') (orders_map bk')"
    using crossings_agrees [OF cr, of "{o_id x}"] indexed_aggressor [OF ix fresh]
    by (simp add: agrees_immediate_view)
  ultimately have "indexed (book_orders bk') (orders_map bk')"
    by (rule indexed_without_aggressor [rotated])
  with lv' show "book_ok bk'" by (simp add: book_ok_def)
  show "side_orders ?sd bk' = side_orders ?sd bk" by (rule keep)
  show "\<exists>r st. (full \<longrightarrow> r = 0) \<and> crossings ?sd
      (immediate_view x (o_remaining x) (o_status x) bk) ts (immediate_view x r st bk')"
    using cr full by blast
qed

text \<open>Placing an order of any type keeps the invariant of the book.\<close>

lemma add_order_keeps_book_ok:
  assumes "book_ok bk" and "0 < o_remaining x" and "add_order bk x g c = Inr (r, bk', g', c')"
  shows "book_ok bk'"
  using assms(3)
proof (cases rule: add_order_cases)
  case rejected
  with assms(1) show ?thesis by simp
next
  case (immediate ts)
  show ?thesis by (rule immediate_run(1) [OF assms(1) immediate(1,4)])
next
  case (resting ts)
  have "o_remaining x \<noteq> 0" using assms(2) by auto
  then show ?thesis by (rule resting_run(2) [OF assms(1) resting(1) _ resting(4)])
qed

text \<open>
  C16. Every trade is due to two orders that were in the book or arriving: a bid and an ask of
  different users with overlapping limits, at the price of the resting side, for one positive
  quantity that both still had.
\<close>

theorem add_order_trades_due:
  assumes "book_ok bk" and "0 < o_remaining x" and "add_order bk x g c = Inr (Some ts, bk', g', c')"
    and "t \<in> set ts"
  shows "\<exists>b \<in># contenders bk x Buy. \<exists>a \<in># contenders bk x Sell.
    due_to b a t \<and> at_resting_price (o_side x) b a t"
proof -
  have x: "o_remaining x \<noteq> 0" using assms(2) by auto
  have live: "live (book_orders bk)" using assms(1) by (auto simp: book_ok_def intro: indexed_live)
  from assms(3) show ?thesis
  proof (cases rule: add_order_cases)
    case (immediate us)
    from immediate_run(3) [OF assms(1) immediate(1,4)] obtain r st where
      "crossings (o_side x) (immediate_view x (o_remaining x) (o_status x) bk) ts (immediate_view x r st bk')"
      using immediate(2) by auto
    from crossings_due [OF this _ _ assms(4)] live x show ?thesis
      by (auto simp: immediate_view_sides aggressor_bag_self contenders_def live_def book_orders_sides
          split: if_splits)
  next
    case (resting us)
    note run = resting_run(1) [OF assms(1) resting(1) x resting(4)]
    note sides = placed_ok(2) [OF assms(1) resting(1) x]
    from crossings_due [OF run, of t] live x assms(4) resting(2) show ?thesis
      by (auto simp: side_orders_view sides contenders_def live_def book_orders_sides split: if_splits)
  qed simp
qed

theorem add_order_trades_due_witness:
  "\<exists>t. \<exists>b \<in># contenders sample_book (sample_order 9 GoodTillCancel Buy 103 7 2) Buy.
     \<exists>a \<in># contenders sample_book (sample_order 9 GoodTillCancel Buy 103 7 2) Sell.
       due_to b a t \<and> at_resting_price Buy b a t"
proof -
  let ?x = "sample_order 9 GoodTillCancel Buy 103 7 2"
  have "case add_order sample_book ?x sample_generator sample_clock of
      Inr (Some ts, _) \<Rightarrow> ts \<noteq> [] | _ \<Rightarrow> False" by code_simp
  then obtain ts bk' g' c' where
    run: "add_order sample_book ?x sample_generator sample_clock = Inr (Some ts, bk', g', c')" and "ts \<noteq> []"
    by (auto split: sum.splits option.splits)
  from add_order_trades_due [OF sample_book_ok _ run, of "hd ts"] \<open>ts \<noteq> []\<close> show ?thesis
    by (intro exI [of _ "hd ts"]) (simp add: sample_order_def)
qed

lemma volume_contenders:
  "volume P (contenders bk x sd) =
     volume P (side_orders sd bk) + (if o_side x = sd \<and> P (o_id x) then unat (o_remaining x) else 0)"
  by (simp add: contenders_def)

lemma volume_aggressor_bag:
  "volume P (aggressor_bag x r st) = (if P (o_id x) then unat r else 0)"
  by (simp add: aggressor_bag_def)

text \<open>
  C5. Quantity is conserved order by order and side by side: what the orders with any given
  identifiers had before equals what they have left plus what they traded. Only the unfilled part
  of a FillAndKill order is dropped; nothing of any other order is lost.
\<close>

theorem add_order_conserves_quantity:
  assumes "book_ok bk" and "0 < o_remaining x" and "add_order bk x g c = Inr (Some ts, bk', g', c')"
  shows "\<exists>dropped. (o_type x \<noteq> FillAndKill \<longrightarrow> dropped = 0) \<and> (\<forall>P sd.
    volume P (contenders bk x sd) = volume P (side_orders sd bk') + traded P sd ts +
      (if o_side x = sd \<and> P (o_id x) then dropped else 0))"
proof -
  have x: "o_remaining x \<noteq> 0" using assms(2) by auto
  from assms(3) show ?thesis
  proof (cases rule: add_order_cases)
    case (immediate us)
    from immediate_run(3) [OF assms(1) immediate(1,4)] obtain r st where
      run: "crossings (o_side x) (immediate_view x (o_remaining x) (o_status x) bk) ts (immediate_view x r st bk')"
      and full: "o_type x = FillOrKill \<longrightarrow> r = 0"
      using immediate(2) by auto
    have "volume P (contenders bk x sd) = volume P (side_orders sd bk') + traded P sd ts +
      (if o_side x = sd \<and> P (o_id x) then unat r else 0)" for P sd
      using crossings_volume [OF run, of P]
      by (cases sd; cases "o_side x")
        (simp_all add: immediate_view_sides volume_contenders volume_aggressor_bag traded_def)
    moreover have "o_type x \<noteq> FillAndKill \<longrightarrow> unat r = 0"
      using full immediate(3) by (auto simp: immediate_def)
    ultimately show ?thesis by blast
  next
    case (resting us)
    note run = resting_run(1) [OF assms(1) resting(1) x resting(4)]
    note sides = placed_ok(2) [OF assms(1) resting(1) x]
    have "volume P (contenders bk x sd) = volume P (side_orders sd bk') + traded P sd ts" for P sd
      using crossings_volume [OF run, of P] resting(2)
      by (cases sd) (simp_all add: side_orders_view sides traded_def)
    then show ?thesis by (intro exI [of _ 0]) simp
  qed simp
qed

theorem add_order_conserves_quantity_witness:
  "\<exists>ts bk'. volume (\<lambda>i. i = 1) (contenders sample_book (sample_order 9 GoodTillCancel Buy 103 7 2) Sell) =
     volume (\<lambda>i. i = 1) (side_orders Sell bk') + traded (\<lambda>i. i = 1) Sell ts"
proof -
  let ?x = "sample_order 9 GoodTillCancel Buy 103 7 2"
  have "case add_order sample_book ?x sample_generator sample_clock of
      Inr (Some ts, _) \<Rightarrow> True | _ \<Rightarrow> False" by code_simp
  then obtain ts bk' g' c' where
    run: "add_order sample_book ?x sample_generator sample_clock = Inr (Some ts, bk', g', c')"
    by (auto split: sum.splits option.splits)
  from add_order_conserves_quantity [OF sample_book_ok _ run] show ?thesis
    by (fastforce simp: sample_order_def)
qed

end
