(* ===== verification/Issuing.thy ===== *)
theory Issuing
  imports Matching
begin

text \<open>
  Where the identifiers and time stamps of the trades come from, and the faults of matching: every
  trade carries the next stamp of the generator, in the order of the trades, and matching fails
  only when drawing a stamp does.
\<close>

definition stamp_of :: "trade \<Rightarrow> u64 \<times> u64" where
  "stamp_of t = (t_id t, t_timestamp t)"

text \<open>\<open>issues g c new g' c'\<close>: the trades \<open>new\<close> used up the stamps from \<open>g, c\<close> to \<open>g', c'\<close>.\<close>

definition issues :: "generator \<Rightarrow> clock \<Rightarrow> trade list \<Rightarrow> generator \<Rightarrow> clock \<Rightarrow> bool" where
  "issues g c new g' c' \<longleftrightarrow> draw stamp (length new) g c = Inr (map stamp_of new, g', c')"

definition stamps_fail :: "generator \<Rightarrow> clock \<Rightarrow> fault \<Rightarrow> bool" where
  "stamps_fail g c e \<longleftrightarrow> (\<exists>n. draw stamp n g c = Inl e)"

lemma issues_Nil [simp]: "issues g c [] g' c' \<longleftrightarrow> g' = g \<and> c' = c"
  by (auto simp: issues_def)

lemma issues_Cons:
  assumes "stamp g c = Inr (stamp_of t, g1, c1)" and "issues g1 c1 new g' c'"
  shows "issues g c (t # new) g' c'"
  using assms by (simp add: issues_def)

lemma issues_trans: "issues g c xs g1 c1 \<Longrightarrow> issues g1 c1 ys g' c' \<Longrightarrow> issues g c (xs @ ys) g' c'"
proof (induction xs arbitrary: g c)
  case (Cons t xs)
  then obtain g2 c2 where "stamp g c = Inr (stamp_of t, g2, c2)" "issues g2 c2 xs g1 c1"
    by (auto simp: issues_def and_then_Inr)
  with Cons show ?case by (auto intro: issues_Cons)
qed simp

lemma stamps_fail_now: "stamp g c = Inl e \<Longrightarrow> stamps_fail g c e"
  unfolding stamps_fail_def by (intro exI [of _ 1]) simp

lemma stamps_fail_step:
  "stamp g c = Inr (s, g1, c1) \<Longrightarrow> stamps_fail g1 c1 e \<Longrightarrow> stamps_fail g c e"
proof -
  assume one: "stamp g c = Inr (s, g1, c1)" and "stamps_fail g1 c1 e"
  then obtain n where "draw stamp n g1 c1 = Inl e" by (auto simp: stamps_fail_def)
  with one have "draw stamp (Suc n) g c = Inl e" by simp
  then show ?thesis unfolding stamps_fail_def ..
qed

lemma stamps_fail_later: "issues g c xs g1 c1 \<Longrightarrow> stamps_fail g1 c1 e \<Longrightarrow> stamps_fail g c e"
proof (induction xs arbitrary: g c)
  case (Cons t xs)
  then obtain g2 c2 where "stamp g c = Inr (stamp_of t, g2, c2)" "issues g2 c2 xs g1 c1"
    by (auto simp: issues_def and_then_Inr)
  with Cons show ?case by (auto intro: stamps_fail_step)
qed simp

section \<open>The loops\<close>

lemma match_front_stamp:
  "match_front sd bp ap b bs a as om g c = Inr (bs', as', om', t, g', c') \<Longrightarrow>
     stamp g c = Inr (stamp_of t, g', c')"
  "match_front sd bp ap b bs a as om g c = Inl e \<Longrightarrow> stamp g c = Inl e"
  by (auto simp: match_front_def Let_def and_then_Inr and_then_Inl issue_trade_Inr issue_trade_Inl
      stamp_of_def split: prod.splits)

lemma fill_front_stamp:
  "fill_front x r y ys om g c = Inr (r', ys', om', t, g', c') \<Longrightarrow> stamp g c = Inr (stamp_of t, g', c')"
  "fill_front x r y ys om g c = Inl e \<Longrightarrow> stamp g c = Inl e"
  by (auto simp: fill_front_def Let_def and_then_Inr and_then_Inl issue_trade_Inr issue_trade_Inl
      stamp_of_def split: prod.splits)

lemma match_level_issues:
  "match_level sd bp ap nb na opp same bids asks om ts g c = Inr (f, bids', asks', om', ts', g', c') \<Longrightarrow>
     \<exists>new. ts' = ts @ new \<and> issues g c new g' c'"
  "match_level sd bp ap nb na opp same bids asks om ts g c = Inl e \<Longrightarrow> stamps_fail g c e"
proof (induction opp same bids asks om ts g c
    rule: match_level_induct [where sd = sd and nb = nb and na = na and bp = bp and ap = ap])
  case (Fault opp same bid bids ask asks om ts g c e')
  { case 1 with Fault show ?case by (simp add: match_level_other) }
  { case 2 with Fault show ?case by (auto simp: match_level_other dest: match_front_stamp intro: stamps_fail_now) }
next
  case (Fill opp same bid bids ask asks om ts g c bids1 asks1 om1 t g1 c1)
  note stamp = match_front_stamp(1) [OF Fill.hyps(2)]
  { case 1
    with Fill obtain new where "ts' = (ts @ [t]) @ new" "issues g1 c1 new g' c'"
      by (auto simp: match_level_other)
    with issues_Cons [OF stamp] show ?case by auto }
  { case 2
    with Fill have "stamps_fail g1 c1 e" by (simp add: match_level_other)
    with stamp show ?case by (rule stamps_fail_step) }
qed (auto simp: match_level_self)

lemma fill_level_issues:
  "fill_level x n skipped r ys om ts g c = Inr (f, r', ys', om', ts', g', c') \<Longrightarrow>
     \<exists>new. ts' = ts @ new \<and> issues g c new g' c'"
  "fill_level x n skipped r ys om ts g c = Inl e \<Longrightarrow> stamps_fail g c e"
proof (induction skipped r ys om ts g c rule: fill_level_induct [where x = x and n = n])
  case (Fault skipped r y ys om ts g c e')
  { case 1 with Fault show ?case by (simp add: fill_level_other) }
  { case 2 with Fault show ?case by (auto simp: fill_level_other dest: fill_front_stamp intro: stamps_fail_now) }
next
  case (Fill skipped r y ys om ts g c r1 ys1 om1 t g1 c1)
  note stamp = fill_front_stamp(1) [OF Fill.hyps(3)]
  { case 1
    with Fill obtain new where "ts' = (ts @ [t]) @ new" "issues g1 c1 new g' c'"
      by (auto simp: fill_level_other)
    with issues_Cons [OF stamp] show ?case by auto }
  { case 2
    with Fill have "stamps_fail g1 c1 e" by (simp add: fill_level_other)
    with stamp show ?case by (rule stamps_fail_step) }
qed (auto simp: fill_level_self)

lemma match_loop_issues:
  "match_loop sd bk sl ts g c = Inr (bk', sl', ts', g', c') \<Longrightarrow> \<exists>new. ts' = ts @ new \<and> issues g c new g' c'"
  "match_loop sd bk sl ts g c = Inl e \<Longrightarrow> stamps_fail g c e"
proof (induction bk sl ts g c rule: match_loop_induct [where sd = sd])
  case (Fault bk sl ts g c bp bids ap asks e')
  { case 1 with Fault show ?case by simp }
  { case 2 with Fault match_level_issues(2) [OF Fault(4)] show ?case by simp }
next
  case (Level bk sl ts g c bp bids ap asks f bids1 asks1 om1 ts1 g1 c1 bk1 sl1)
  from match_level_issues(1) [OF Level.hyps(4)] obtain new1 where
    new1: "ts1 = ts @ new1" "issues g c new1 g1 c1" by blast
  { case 1
    with Level obtain new2 where "ts' = ts1 @ new2" "issues g1 c1 new2 g' c'" by auto
    with new1 show ?case by (auto intro: issues_trans) }
  { case 2
    with Level new1(2) show ?case by (auto intro: stamps_fail_later) }
qed (auto simp: match_loop_stop)

lemma fill_loop_issues:
  "fill_loop x r bk sl ts g c = Inr (r', bk', sl', ts', g', c') \<Longrightarrow> \<exists>new. ts' = ts @ new \<and> issues g c new g' c'"
  "fill_loop x r bk sl ts g c = Inl e \<Longrightarrow> stamps_fail g c e"
proof (induction r bk sl ts g c rule: fill_loop_induct [where x = x])
  case (Fault r bk sl ts g c p ys e')
  { case 1 with Fault show ?case by simp }
  { case 2 with Fault fill_level_issues(2) [OF Fault(4)] show ?case by simp }
next
  case (Level r bk sl ts g c p ys f r1 ys1 om1 ts1 g1 c1 bk1 sl1)
  from fill_level_issues(1) [OF Level.hyps(4)] obtain new1 where
    new1: "ts1 = ts @ new1" "issues g c new1 g1 c1" by blast
  { case 1
    with Level obtain new2 where "ts' = ts1 @ new2" "issues g1 c1 new2 g' c'" by auto
    with new1 show ?case by (auto intro: issues_trans) }
  { case 2
    with Level new1(2) show ?case by (auto intro: stamps_fail_later) }
qed (auto simp: fill_loop_stop)

lemma match_order_issues:
  "match_order bk sd g c = Inr (ts, bk', g', c') \<Longrightarrow> issues g c ts g' c'"
  "match_order bk sd g c = Inl e \<Longrightarrow> stamps_fail g c e"
  by (auto simp: match_order_def and_then_Inr and_then_Inl dest: match_loop_issues)

lemma match_against_opposite_issues:
  "match_against_opposite bk x full g c = Inr (Some ts, bk', g', c') \<Longrightarrow> issues g c ts g' c'"
  by (auto simp: match_against_opposite_def and_then_Inr Let_def split: if_splits dest: fill_loop_issues(1))

end
