(* ===== verification/Priority.thy ===== *)
theory Priority
  imports BookTheorems Issuing
begin

text \<open>
  Price-time priority. The reference is a plain sweep over one queue: the crossing orders of other
  users, best price first and oldest first within a price. The matching of FillAndKill and
  FillOrKill orders, with its level walk, rotations and set-aside levels, refines it.
\<close>

section \<open>The reference sweep\<close>

text \<open>The fills, what is left of the quantity, and what is left of the queue.\<close>

fun sweep :: "quantity \<Rightarrow> order list \<Rightarrow> trade_info list" where
  "sweep r [] = []"
| "sweep r (y # ys) =
     (if r = 0 then []
      else (let q = min r (o_remaining y) in
            trade_info_new (o_id y) (o_price y) q (o_user y) # sweep (r - q) ys))"

fun sweep_left :: "quantity \<Rightarrow> order list \<Rightarrow> quantity" where
  "sweep_left r [] = r"
| "sweep_left r (y # ys) = sweep_left (r - min r (o_remaining y)) ys"

fun sweep_rest :: "quantity \<Rightarrow> order list \<Rightarrow> order list" where
  "sweep_rest r [] = []"
| "sweep_rest r (y # ys) =
     (if r = 0 then y # ys
      else if o_remaining y \<le> r then sweep_rest (r - o_remaining y) ys
      else snd (fills y r) # ys)"

lemma sweep_zero [simp]: "sweep 0 ys = []" "sweep_rest 0 ys = ys"
  by (cases ys; simp_all)+

lemma sweep_left_zero [simp]: "sweep_left 0 ys = 0"
  by (induction ys) simp_all

lemma sweep_append:
  "sweep r (xs @ ys) = sweep r xs @ sweep (sweep_left r xs) ys"
  by (induction xs arbitrary: r) (auto simp: Let_def)

lemma sweep_left_append [simp]: "sweep_left r (xs @ ys) = sweep_left (sweep_left r xs) ys"
  by (induction xs arbitrary: r) auto

lemma sweep_rest_append:
  "sweep_rest r (xs @ ys) = sweep_rest r xs @ sweep_rest (sweep_left r xs) ys"
  by (induction xs arbitrary: r) (auto simp: min_def)

lemma unat_sweep_left:
  "unat (sweep_left r ys) = unat r - (\<Sum>y\<leftarrow>ys. unat (o_remaining y))"
  by (induction ys arbitrary: r) (auto simp: unat_minus_le unat_min)

lemma sweep_rest_left: "sweep_left r ys \<noteq> 0 \<Longrightarrow> sweep_rest r ys = []"
  by (induction ys arbitrary: r) (auto simp: min_def split: if_splits)

text \<open>The queue an order meets, and what of the opposite side is out of its reach.\<close>

definition opposite_levels :: "side \<Rightarrow> order_book \<Rightarrow> book_side" where
  "opposite_levels sd bk = (case sd of Buy \<Rightarrow> asks_map bk | Sell \<Rightarrow> rev (bids_map bk))"

definition others :: "user_id \<Rightarrow> order list \<Rightarrow> order list" where
  "others u = filter (\<lambda>y. o_user y \<noteq> u)"

definition reachable_levels :: "order \<Rightarrow> book_side \<Rightarrow> book_side" where
  "reachable_levels x = takeWhile (\<lambda>(p, _). crosses (o_side x) (o_price x) p)"

definition queue :: "order \<Rightarrow> book_side \<Rightarrow> order list" where
  "queue x m = others (o_user x) (concat (map snd (reachable_levels x m)))"

definition out_of_reach :: "order \<Rightarrow> book_side \<Rightarrow> order list" where
  "out_of_reach x m = others (o_user x)
     (concat (map snd (dropWhile (\<lambda>(p, _). crosses (o_side x) (o_price x) p) m)))"

definition resting_leg :: "side \<Rightarrow> trade \<Rightarrow> trade_info" where
  "resting_leg sd t = (case sd of Buy \<Rightarrow> t_ask t | Sell \<Rightarrow> t_bid t)"

definition own_leg :: "side \<Rightarrow> trade \<Rightarrow> trade_info" where
  "own_leg sd t = (case sd of Buy \<Rightarrow> t_bid t | Sell \<Rightarrow> t_ask t)"

text \<open>The other leg of a trade is the aggressor's, with the price and quantity of the resting leg.\<close>

definition mirrored :: "order \<Rightarrow> trade \<Rightarrow> bool" where
  "mirrored x t \<longleftrightarrow> own_leg (o_side x) t =
     (resting_leg (o_side x) t)\<lparr>ti_order_id := o_id x, ti_user := o_user x\<rparr>"

lemma others_simps [simp]:
  "others u [] = []"
  "others u (y # ys) = (if o_user y = u then others u ys else y # others u ys)"
  "others u (xs @ ys) = others u xs @ others u ys"
  by (simp_all add: others_def)

lemma queue_simps [simp]:
  "queue x [] = []"
  "queue x ((p, ys) # m) =
     (if crosses (o_side x) (o_price x) p then others (o_user x) ys @ queue x m else [])"
  by (simp_all add: queue_def reachable_levels_def)

lemma out_of_reach_simps [simp]:
  "out_of_reach x [] = []"
  "out_of_reach x ((p, ys) # m) =
     (if crosses (o_side x) (o_price x) p then out_of_reach x m
      else others (o_user x) (ys @ concat (map snd m)))"
  by (simp_all add: out_of_reach_def)

lemma queue_out_of_reach: "queue x m @ out_of_reach x m = others (o_user x) (concat (map snd m))"
  by (induction m) auto

lemma best_opposite_levels:
  "best_opposite sd bk = Some e \<longleftrightarrow> (\<exists>m. opposite_levels sd bk = e # m)"
  by (cases sd)
    (simp_all add: best_opposite_def opposite_levels_def bm_first_Some bm_last_Some rev_eq_Cons_iff,
      metis rev_rev_ident)

lemma best_opposite_None: "best_opposite sd bk = None \<longleftrightarrow> opposite_levels sd bk = []"
  by (cases sd) (auto simp: best_opposite_def opposite_levels_def)

section \<open>One level\<close>

lemma fill_front_sweep:
  assumes "fill_front x r y ys om g c = Inr (r1, ys1, om1, t, g1, c1)"
    and "r \<noteq> 0" and "o_user y \<noteq> o_user x"
  shows "resting_leg (o_side x) t # sweep r1 (others (o_user x) ys1) = sweep r (others (o_user x) (y # ys))"
    and "sweep_left r1 (others (o_user x) ys1) = sweep_left r (others (o_user x) (y # ys))"
    and "sweep_rest r1 (others (o_user x) ys1) = sweep_rest r (others (o_user x) (y # ys))"
    and "mirrored x t"
proof -
  note parts = fill_front_Inr [OF assms(1)]
  show "mirrored x t"
    by (cases "o_side x")
      (simp_all add: mirrored_def own_leg_def resting_leg_def parts(4,5) trade_info_new_def)
  have "resting_leg (o_side x) t = trade_info_new (o_id y) (o_price y) (min r (o_remaining y)) (o_user y)"
    by (cases "o_side x") (simp_all add: resting_leg_def parts(4,5))
  then show "resting_leg (o_side x) t # sweep r1 (others (o_user x) ys1) = sweep r (others (o_user x) (y # ys))"
    "sweep_left r1 (others (o_user x) ys1) = sweep_left r (others (o_user x) (y # ys))"
    "sweep_rest r1 (others (o_user x) ys1) = sweep_rest r (others (o_user x) (y # ys))"
    using assms(2,3)
    by (cases "o_remaining y \<le> r";
        auto simp: parts(1,2) Let_def min_def is_filled_def fills_remaining not_le less_imp_le)+
qed

text \<open>
  \<open>skips\<close>: the deque is a part still to be looked at followed by own orders already rotated to
  the back; the skip counter and the first part never exceed the initial length.
\<close>

definition skips :: "user_id \<Rightarrow> nat \<Rightarrow> nat \<Rightarrow> order_pointers \<Rightarrow> bool" where
  "skips u n skipped ys \<longleftrightarrow> (\<exists>rest own. ys = rest @ own \<and> (\<forall>y \<in> set own. o_user y = u) \<and>
     length rest + skipped \<le> n)"

lemma skips_start: "skips u (length ys) 0 ys"
  unfolding skips_def by (intro exI [of _ ys] exI [of _ "[]"]) simp

lemma skips_stop: "skips u n skipped (y # ys) \<Longrightarrow> n \<le> Suc skipped \<Longrightarrow> o_user y = u \<Longrightarrow> others u (y # ys) = []"
proof -
  assume "skips u n skipped (y # ys)" and n: "n \<le> Suc skipped" and y: "o_user y = u"
  then obtain rest own where ys: "y # ys = rest @ own" "\<forall>y \<in> set own. o_user y = u"
    "length rest + skipped \<le> n" by (auto simp: skips_def)
  have "others u own = []" using ys(2) by (simp add: others_def filter_empty_conv)
  moreover have "rest = [] \<or> rest = [y]" using ys(1,3) n by (cases rest; cases "tl rest") auto
  ultimately show "others u (y # ys) = []" using y unfolding ys(1) by auto
qed

lemma skips_rotate:
  assumes "skips u n skipped (y # ys)" and "\<not> n \<le> Suc skipped" and "o_user y = u"
  shows "skips u n (Suc skipped) (ys @ [y])"
proof -
  from assms(1) obtain rest own where ys: "y # ys = rest @ own" "\<forall>y \<in> set own. o_user y = u"
    "length rest + skipped \<le> n" by (auto simp: skips_def)
  show ?thesis
  proof (cases rest)
    case Nil
    with ys assms(2,3) show ?thesis unfolding skips_def
      by (intro exI [of _ "[]"] exI [of _ "ys @ [y]"]) auto
  next
    case (Cons z zs)
    with ys assms(2,3) show ?thesis unfolding skips_def
      by (intro exI [of _ zs] exI [of _ "own @ [y]"]) auto
  qed
qed

lemma skips_fill:
  assumes "skips u n skipped (y # ys)" and "o_user y \<noteq> u" and "ys' = ys \<or> (\<exists>z. ys' = z # ys)"
  shows "skips u n skipped ys'"
proof -
  from assms(1,2) obtain rest own where ys: "ys = rest @ own" "\<forall>y \<in> set own. o_user y = u"
    "Suc (length rest) + skipped \<le> n"
    by (auto simp: skips_def Cons_eq_append_conv)
  from assms(3) show ?thesis
  proof
    assume "ys' = ys"
    with ys show ?thesis unfolding skips_def by (intro exI [of _ rest] exI [of _ own]) simp
  next
    assume "\<exists>z. ys' = z # ys"
    then obtain z where "ys' = z # ys" ..
    with ys show ?thesis unfolding skips_def by (intro exI [of _ "z # rest"] exI [of _ own]) simp
  qed
qed

lemma fill_level_sweep:
  assumes "fill_level x n skipped r ys om ts g c = Inr (f, r', ys', om', ts', g', c')"
    and "skips (o_user x) n skipped ys"
  shows "\<exists>new. ts' = ts @ new \<and>
    map (resting_leg (o_side x)) new = sweep r (others (o_user x) ys) \<and>
    r' = sweep_left r (others (o_user x) ys) \<and>
    others (o_user x) ys' = sweep_rest r (others (o_user x) ys) \<and>
    (f \<longrightarrow> others (o_user x) ys' = []) \<and> (\<forall>t \<in> set new. mirrored x t)"
  using assms
proof (induction skipped r ys om ts g c rule: fill_level_induct [where x = x and n = n])
  case (AllSelf skipped r y ys om ts g c)
  from skips_stop [OF AllSelf.prems(2) AllSelf.hyps(3,2)] AllSelf show ?case
    by (auto simp: fill_level_self)
next
  case (Skip skipped r y ys om ts g c)
  from skips_rotate [OF Skip.prems(2) Skip.hyps(3,2)] Skip show ?case
    by (simp add: fill_level_self)
next
  case (Fault skipped r y ys om ts g c e)
  then show ?case by (simp add: fill_level_other)
next
  case (Fill skipped r y ys om ts g c r1 ys1 om1 t g1 c1)
  note front = fill_front_sweep [OF Fill.hyps(3,1,2)]
  have "skips (o_user x) n skipped ys1"
    by (rule skips_fill [OF Fill.prems(2) Fill.hyps(2)]) (auto simp: fill_front_Inr(2) [OF Fill.hyps(3)])
  with Fill obtain new where "ts' = (ts @ [t]) @ new"
    "map (resting_leg (o_side x)) new = sweep r1 (others (o_user x) ys1)"
    "r' = sweep_left r1 (others (o_user x) ys1)"
    "others (o_user x) ys' = sweep_rest r1 (others (o_user x) ys1)" "f \<longrightarrow> others (o_user x) ys' = []"
    "\<forall>t \<in> set new. mirrored x t"
    by (auto simp: fill_level_other)
  moreover from this have "map (resting_leg (o_side x)) (t # new) = sweep r (others (o_user x) (y # ys))"
    by (simp only: list.map front(1))
  ultimately show ?case by (intro exI [of _ "t # new"]) (simp only: front(2,3), simp add: front(4))
qed auto

section \<open>The walk over the levels\<close>

lemma after_fill_levels:
  assumes "opposite_levels sd bk = (p, ys) # m" and "bm_ok (opposite_map sd bk)"
    and "after_fill sd p bk sl f ys' om = (bk', sl')"
  shows "opposite_levels sd bk' = (if f \<or> ys' = [] then m else (p, ys') # m)"
    and "sl' = (if f then sl @ [(p, ys')] else sl)"
proof -
  show "sl' = (if f then sl @ [(p, ys')] else sl)"
    using assms(3) by (auto simp: after_fill_def Let_def split: if_splits)
  show "opposite_levels sd bk' = (if f \<or> ys' = [] then m else (p, ys') # m)"
  proof (cases sd)
    case Buy
    with assms(1) have m: "asks_map bk = (p, ys) # m" by (simp add: opposite_levels_def)
    with assms(2) Buy have "p \<notin> fst ` set m" by (auto simp: opposite_map_def bm_ok_Cons)
    with Buy m assms(3) show ?thesis
      by (auto simp: after_fill_def Let_def opposite_levels_def with_opposite_def split: if_splits)
  next
    case Sell
    with assms(1) have m: "bids_map bk = rev m @ [(p, ys)]"
      by (simp add: opposite_levels_def rev_swap)
    with assms(2) Sell have "p \<notin> fst ` set (rev m)" by (force simp: opposite_map_def bm_ok_append)
    with Sell m assms(3) show ?thesis
      by (auto simp: after_fill_def Let_def opposite_levels_def with_opposite_def split: if_splits)
  qed
qed

definition walk_others :: "order \<Rightarrow> order_book \<Rightarrow> order list" where
  "walk_others x bk = others (o_user x) (concat (map snd (opposite_levels (o_side x) bk)))"

lemma walk_others_split:
  "walk_others x bk = queue x (opposite_levels (o_side x) bk) @ out_of_reach x (opposite_levels (o_side x) bk)"
  by (simp add: walk_others_def queue_out_of_reach)

text \<open>Where the loop stops with quantity left, nothing is left in reach.\<close>

lemma fill_stops_queue: "fill_stops x r bk \<Longrightarrow> r \<noteq> 0 \<Longrightarrow> queue x (opposite_levels (o_side x) bk) = []"
  by (cases "opposite_levels (o_side x) bk")
    (auto simp: fill_stops_def best_opposite_levels best_opposite_None split: option.splits)

lemma fill_loop_sweep:
  assumes "fill_loop x r bk sl ts g c = Inr (r', bk', sl', ts', g', c')"
    and "book_levels_ok bk" and "aside_ok (o_side x) (opposite_map (o_side x) bk) sl"
    and "hm_get (orders_map bk) (o_id x) = None" and "\<forall>(p, ys) \<in> set sl. others (o_user x) ys = []"
  shows "\<exists>new. ts' = ts @ new \<and>
    map (resting_leg (o_side x)) new = sweep r (queue x (opposite_levels (o_side x) bk)) \<and>
    r' = sweep_left r (queue x (opposite_levels (o_side x) bk)) \<and>
    walk_others x bk' = sweep_rest r (queue x (opposite_levels (o_side x) bk)) @
      out_of_reach x (opposite_levels (o_side x) bk) \<and>
    (\<forall>(p, ys) \<in> set sl'. others (o_user x) ys = []) \<and> (\<forall>t \<in> set new. mirrored x t)"
  using assms
proof (induction r bk sl ts g c rule: fill_loop_induct [where x = x])
  case (Stop r bk sl ts g c)
  then show ?case
    using fill_stops_queue [OF Stop(1)] walk_others_split [of x bk]
    by (cases "r = 0") (auto simp: fill_loop_stop)
next
  case (Fault r bk sl ts g c p ys e)
  then show ?case by simp
next
  case (Level r bk sl ts g c p ys f r1 ys1 om1 ts1 g1 c1 bk1 sl1)
  let ?sd = "o_side x"
  note best = Level.hyps(2) and lv = Level.hyps(4)
  from best obtain m where m: "opposite_levels ?sd bk = (p, ys) # m" by (auto simp: best_opposite_levels)
  note lok = opposite_levels_ok [OF Level.prems(2), of ?sd]
  have bm: "bm_ok (opposite_map ?sd bk)" using lok by (simp add: levels_ok_def)
  have priced: "priced p (other_side ?sd) ys"
    using levels_ok_get [OF lok best_opposite_get [OF Level.prems(2) best]] by simp
  from fill_level_sweep [OF lv skips_start] obtain new1 where new1: "ts1 = ts @ new1"
    "map (resting_leg ?sd) new1 = sweep r (others (o_user x) ys)"
    "r1 = sweep_left r (others (o_user x) ys)"
    "others (o_user x) ys1 = sweep_rest r (others (o_user x) ys)" "f \<longrightarrow> others (o_user x) ys1 = []"
    "\<forall>t \<in> set new1. mirrored x t"
    by blast
  have crs: "priced p (other_side ?sd) ys1 \<and> hm_get om1 (o_id x) = None"
    using fill_level_crossings [OF lv priced Level.hyps(3) Level.prems(4)] by blast
  have "f \<Longrightarrow> ys1 \<noteq> []" using lv by (auto dest: fill_level_all_self)
  note after = after_fill_ok [OF Level.prems(2,3) best Level.hyps(5) conjunct1 [OF crs] this]
  note levels = after_fill_levels [OF m bm Level.hyps(5)]
  have queue1: "queue x (opposite_levels ?sd bk1) = others (o_user x) ys1 @ queue x m"
    "out_of_reach x (opposite_levels ?sd bk1) = out_of_reach x m"
    using new1(5) Level.hyps(3) by (auto simp: levels(1))
  have own: "\<forall>(p, ys) \<in> set sl1. others (o_user x) ys = []"
    using Level.prems(5) new1(5) by (auto simp: levels(2))
  have none1: "hm_get (orders_map bk1) (o_id x) = None" using crs by (simp add: after(4))
  have run1: "fill_loop x r1 bk1 sl1 ts1 g1 c1 = Inr (r', bk', sl', ts', g', c')"
    using Level.prems(1) Level.hyps(6) by simp
  from Level.IH [OF run1 conjunct1 [OF after(1)] conjunct2 [OF after(1)] none1 own, unfolded queue1]
  obtain new2 where new2: "ts' = ts1 @ new2"
    "map (resting_leg ?sd) new2 = sweep r1 (others (o_user x) ys1 @ queue x m)"
    "r' = sweep_left r1 (others (o_user x) ys1 @ queue x m)"
    "walk_others x bk' = sweep_rest r1 (others (o_user x) ys1 @ queue x m) @ out_of_reach x m"
    "\<forall>(p, ys) \<in> set sl'. others (o_user x) ys = []" "\<forall>t \<in> set new2. mirrored x t"
    by blast
  have "r1 = 0 \<or> others (o_user x) ys1 = []"
    unfolding new1(3,4) using sweep_rest_left by blast
  then show ?case
    using new1 new2 Level.hyps(3)
    by (intro exI [of _ "new1 @ new2"]) (auto simp: m sweep_append sweep_rest_append)
qed

text \<open>Putting back levels of own orders only does not change what others see.\<close>

lemma others_insert:
  assumes "p \<notin> fst ` set m" and "others u ys = []"
  shows "others u (concat (map snd (bm_insert p ys m))) = others u (concat (map snd m))"
    and "others u (concat (map snd (rev (bm_insert p ys m)))) = others u (concat (map snd (rev m)))"
proof -
  from bm_insert_fresh [OF assms(1), of thesis for thesis] obtain us vs
    where "m = us @ vs" "bm_insert p ys m = us @ (p, ys) # vs" by blast
  with assms(2) show "others u (concat (map snd (bm_insert p ys m))) = others u (concat (map snd m))"
    "others u (concat (map snd (rev (bm_insert p ys m)))) = others u (concat (map snd (rev m)))"
    by simp_all
qed

lemma others_reinsert:
  assumes "aside_ok sd m sl" and "\<forall>(p, ys) \<in> set sl. others u ys = []"
  shows "others u (concat (map snd (fold (\<lambda>(p, ys). bm_insert p ys) sl m))) = others u (concat (map snd m))"
    and "others u (concat (map snd (rev (fold (\<lambda>(p, ys). bm_insert p ys) sl m)))) =
      others u (concat (map snd (rev m)))"
proof -
  have "others u (concat (map snd (fold (\<lambda>(p, ys). bm_insert p ys) sl m))) = others u (concat (map snd m)) \<and>
    others u (concat (map snd (rev (fold (\<lambda>(p, ys). bm_insert p ys) sl m)))) =
      others u (concat (map snd (rev m)))"
    using assms
  proof (induction sl arbitrary: m)
    case (Cons e sl)
    obtain p ys where e: "e = (p, ys)" by (cases e)
    have "aside_ok sd (bm_insert p ys m) sl"
      using Cons.prems(1) unfolding e by (rule aside_ok_insert)
    moreover have "p \<notin> fst ` set m" "others u ys = []"
      using Cons.prems by (auto simp: e aside_ok_def)
    ultimately show ?case using Cons.IH [of "bm_insert p ys m"] Cons.prems(2) others_insert [of p m u ys]
      by (simp add: e)
  qed simp
  then show "others u (concat (map snd (fold (\<lambda>(p, ys). bm_insert p ys) sl m))) = others u (concat (map snd m))"
    "others u (concat (map snd (rev (fold (\<lambda>(p, ys). bm_insert p ys) sl m)))) =
      others u (concat (map snd (rev m)))" by simp_all
qed

lemma walk_others_reinsert:
  assumes "aside_ok (o_side x) (opposite_map (o_side x) bk) sl"
    and "\<forall>(p, ys) \<in> set sl. others (o_user x) ys = []"
  shows "walk_others x (reinsert_levels (o_side x) sl bk) = walk_others x bk"
  using others_reinsert [OF assms]
  by (cases "o_side x") (simp_all add: walk_others_def opposite_levels_def reinsert_levels_eq
      with_opposite_def opposite_map_def)

section \<open>The queue in terms of prices\<close>

definition eligible :: "order \<Rightarrow> order_book \<Rightarrow> order list" where
  "eligible x bk =
     filter (\<lambda>y. o_user y \<noteq> o_user x \<and> crosses (o_side x) (o_price x) (o_price y))
       (concat (map snd (opposite_levels (o_side x) bk)))"

definition beyond :: "order \<Rightarrow> order_book \<Rightarrow> order list" where
  "beyond x bk =
     filter (\<lambda>y. o_user y \<noteq> o_user x \<and> \<not> crosses (o_side x) (o_price x) (o_price y))
       (concat (map snd (opposite_levels (o_side x) bk)))"

lemma opposite_levels_sorted:
  assumes "book_levels_ok bk"
  shows "sorted_wrt (\<lambda>e e'. crosses sd q (fst e') \<longrightarrow> crosses sd q (fst e)) (opposite_levels sd bk)"
    and "\<forall>(p, ys) \<in> set (opposite_levels sd bk). priced p (other_side sd) ys"
  using assms
  by (cases sd; fastforce simp: opposite_levels_def book_levels_ok_def levels_ok_def bm_ok_def
      sorted_wrt_map sorted_wrt_rev crosses_def elim: sorted_wrt_mono_rel [rotated])+

lemma filter_priced:
  "priced p sd ys \<Longrightarrow> filter (\<lambda>y. o_user y \<noteq> u \<and> Q (o_price y)) ys = (if Q p then others u ys else [])"
  by (induction ys) auto

lemma queue_eligible:
  assumes "book_levels_ok bk"
  shows "queue x (opposite_levels (o_side x) bk) = eligible x bk"
    and "out_of_reach x (opposite_levels (o_side x) bk) = beyond x bk"
proof -
  let ?Q = "crosses (o_side x) (o_price x)"
  have "queue x m = filter (\<lambda>y. o_user y \<noteq> o_user x \<and> ?Q (o_price y)) (concat (map snd m)) \<and>
    out_of_reach x m = filter (\<lambda>y. o_user y \<noteq> o_user x \<and> \<not> ?Q (o_price y)) (concat (map snd m))"
    if "sorted_wrt (\<lambda>e e'. ?Q (fst e') \<longrightarrow> ?Q (fst e)) m"
      and "\<forall>(p, ys) \<in> set m. priced p (other_side (o_side x)) ys" for m :: book_side
    using that
  proof (induction m)
    case (Cons e m)
    obtain p ys where e: "e = (p, ys)" by (cases e)
    have far: "\<not> ?Q p \<Longrightarrow> \<forall>(q, zs) \<in> set m. \<not> ?Q q" using Cons.prems(1) e by auto
    have "queue x m = []" "out_of_reach x m = others (o_user x) (concat (map snd m))" if "\<not> ?Q p"
      using far [OF that] by (cases m; auto)+
    with Cons e show ?case
      by (simp add: filter_priced [of p "other_side (o_side x)" ys "o_user x" ?Q]
          filter_priced [of p "other_side (o_side x)" ys "o_user x" "\<lambda>q. \<not> ?Q q"])
  qed simp
  from this [OF opposite_levels_sorted [OF assms]]
  show "queue x (opposite_levels (o_side x) bk) = eligible x bk"
    "out_of_reach x (opposite_levels (o_side x) bk) = beyond x bk"
    by (simp_all add: eligible_def beyond_def)
qed

section \<open>FillAndKill and FillOrKill orders\<close>

lemma match_against_opposite_sweep:
  assumes "match_against_opposite bk x full g c = Inr (Some ts, bk', g', c')"
    and "book_levels_ok bk" and "hm_get (orders_map bk) (o_id x) = None"
  shows "map (resting_leg (o_side x)) ts = sweep (o_remaining x) (eligible x bk)"
    and "walk_others x bk' = sweep_rest (o_remaining x) (eligible x bk) @ beyond x bk"
    and "\<forall>t \<in> set ts. mirrored x t"
proof -
  from assms(1) obtain r bk1 sl1 where
    run: "fill_loop x (o_remaining x) bk [] [] g c = Inr (r, bk1, sl1, ts, g', c')" and
    bk': "bk' = reinsert_levels (o_side x) sl1 bk1"
    by (auto simp: match_against_opposite_def and_then_Inr Let_def split: if_splits)
  from fill_loop_crossings [OF run assms(2) _ assms(3)]
  have "aside_ok (o_side x) (opposite_map (o_side x) bk1) sl1" by auto
  with fill_loop_sweep [OF run assms(2) _ assms(3)] walk_others_reinsert
  show "map (resting_leg (o_side x)) ts = sweep (o_remaining x) (eligible x bk)"
    "walk_others x bk' = sweep_rest (o_remaining x) (eligible x bk) @ beyond x bk"
    "\<forall>t \<in> set ts. mirrored x t"
    unfolding bk' queue_eligible [OF assms(2)] by simp_all
qed

text \<open>
  C1. FillAndKill and FillOrKill orders are matched in strict price-time priority: the fills are
  those of one sweep over the orders of other users within the limit, best price first, oldest
  first within a price, each at the resting price, and what the other users see afterwards is
  exactly what the sweep leaves.
\<close>

theorem immediate_orders_sweep_the_queue:
  assumes "book_ok bk" and "immediate (o_type x)"
    and "add_order bk x g c = Inr (Some ts, bk', g', c')"
  shows "map (resting_leg (o_side x)) ts = sweep (o_remaining x) (eligible x bk) \<and>
    (\<forall>t \<in> set ts. mirrored x t) \<and>
    walk_others x bk' = sweep_rest (o_remaining x) (eligible x bk) @ beyond x bk"
  using assms(3)
proof (cases rule: add_order_cases)
  case (immediate us)
  with match_against_opposite_sweep [OF immediate(4) _ immediate(1)] assms(1) show ?thesis
    by (simp add: book_ok_def)
qed (use assms(2) in simp_all)

theorem immediate_orders_sweep_the_queue_witness:
  "\<exists>ts bk' g' c'. add_order sample_book (sample_order 9 FillAndKill Buy 103 7 2)
     sample_generator sample_clock = Inr (Some ts, bk', g', c') \<and>
   map (resting_leg Buy) ts = [trade_info_new 1 (Price 100) 5 1, trade_info_new 3 (Price 103) 2 3]"
proof -
  let ?x = "sample_order 9 FillAndKill Buy 103 7 2"
  have "case add_order sample_book ?x sample_generator sample_clock of
      Inr (Some ts, _) \<Rightarrow> True | _ \<Rightarrow> False" by code_simp
  then obtain ts bk' g' c' where
    run: "add_order sample_book ?x sample_generator sample_clock = Inr (Some ts, bk', g', c')"
    by (auto split: sum.splits option.splits)
  have "sweep (o_remaining ?x) (eligible ?x sample_book) =
      [trade_info_new 1 (Price 100) 5 1, trade_info_new 3 (Price 103) 2 3]" by code_simp
  with immediate_orders_sweep_the_queue [OF sample_book_ok _ run] run show ?thesis
    by (simp add: sample_order_def immediate_def)
qed

text \<open>The pre-check of a FillOrKill order adds up exactly the queue, and its sum cannot wrap.\<close>

lemma fold_liquidity:
  "fold (\<lambda>ord available. if o_user ord \<noteq> u then available + as_u64 (o_remaining ord) else available) ys a =
     a + (\<Sum>y\<leftarrow>others u ys. as_u64 (o_remaining y))"
  by (induction ys arbitrary: a) (simp_all add: add.assoc)

lemma liquidity_queue:
  "liquidity (o_side x) (o_price x) (o_user x) m a = a + (\<Sum>y\<leftarrow>queue x m. as_u64 (o_remaining y))"
  by (induction m arbitrary: a) (auto simp: fold_liquidity add.assoc)

definition offered :: "order list \<Rightarrow> nat" where
  "offered ys = (\<Sum>y\<leftarrow>ys. unat (o_remaining y))"

lemma indexed_size: "indexed M om \<Longrightarrow> size M = length om"
proof -
  assume "indexed M om"
  then have "image_mset o_id M = image_mset fst (mset om)" by (simp add: indexed_but_def)
  from arg_cong [OF this, of size] show ?thesis by simp
qed

lemma mset_opposite_levels: "mset (concat (map snd (opposite_levels sd bk))) = side_orders (other_side sd) bk"
  by (cases sd) (simp_all add: opposite_levels_def side_orders_def orders_of_def mset_concat rev_map [symmetric])

lemma eligible_length: "book_ok bk \<Longrightarrow> length (eligible x bk) \<le> book_size bk"
proof -
  assume ok: "book_ok bk"
  have "length (eligible x bk) \<le> size (side_orders (other_side (o_side x)) bk)"
    unfolding eligible_def mset_opposite_levels [symmetric] by simp
  also have "\<dots> \<le> size (book_orders bk)"
    by (cases "o_side x") (simp_all add: book_orders_sides)
  also have "\<dots> = book_size bk"
    using ok by (simp add: book_ok_def book_size_def indexed_size)
  finally show ?thesis .
qed

lemma available_liquidity_offered:
  assumes "book_ok bk" and "book_size bk \<le> 2 ^ 32"
  shows "unat (available_liquidity x bk) = offered (eligible x bk)"
proof -
  have ok: "book_levels_ok bk" using assms(1) by (simp add: book_ok_def)
  have "offered (eligible x bk) \<le> length (eligible x bk) * 4294967295"
    unfolding offered_def by (rule sum_list_u32_bound)
  also have "\<dots> \<le> 2 ^ 32 * 4294967295"
    using eligible_length [OF assms(1), of x] assms(2) by simp
  finally have "offered (eligible x bk) < 2 ^ 64" by simp
  then have "unat (\<Sum>y\<leftarrow>eligible x bk. as_u64 (o_remaining y)) = offered (eligible x bk)"
    by (subst unat_sum_list_u64) (simp_all add: offered_def)
  moreover have "available_liquidity x bk = (\<Sum>y\<leftarrow>eligible x bk. as_u64 (o_remaining y))"
    using liquidity_queue [of x "opposite_levels (o_side x) bk" 0]
    by (simp add: available_liquidity_def queue_eligible(1) [OF ok, symmetric] opposite_levels_def)
  ultimately show ?thesis by simp
qed

lemma can_match_best:
  "can_match bk (o_side x) (o_price x) \<longleftrightarrow>
     (case best_opposite (o_side x) bk of None \<Rightarrow> False | Some (p, _) \<Rightarrow> crosses (o_side x) (o_price x) p)"
  by (cases "o_side x") (simp_all add: can_match_def best_opposite_def crosses_def split: option.splits)

lemma cannot_match_queue:
  "\<not> can_match bk (o_side x) (o_price x) \<Longrightarrow> queue x (opposite_levels (o_side x) bk) = []"
  by (cases "opposite_levels (o_side x) bk")
    (auto simp: can_match_best best_opposite_levels best_opposite_None split: option.splits)

definition filled_quantity :: "trade list \<Rightarrow> nat" where
  "filled_quantity ts = (\<Sum>t\<leftarrow>ts. unat (ti_quantity (t_bid t)))"

lemma sweep_quantity:
  "(\<Sum>l\<leftarrow>sweep r ys. unat (ti_quantity l)) = unat r - unat (sweep_left r ys)"
proof (induction ys arbitrary: r)
  case (Cons y ys)
  have le: "unat (sweep_left (r - min r (o_remaining y)) ys) \<le> unat (r - min r (o_remaining y))"
    by (simp add: unat_sweep_left)
  have "unat (r - min r (o_remaining y)) = unat r - unat (min r (o_remaining y))"
    "unat (min r (o_remaining y)) \<le> unat r" by (simp_all add: unat_minus_le unat_min)
  with Cons [of "r - min r (o_remaining y)"] le show ?case by (simp add: Let_def) arith
qed simp

lemma mirrored_quantity:
  "\<forall>t \<in> set ts. mirrored x t \<Longrightarrow>
     filled_quantity ts = (\<Sum>l\<leftarrow>map (resting_leg (o_side x)) ts. unat (ti_quantity l))"
  unfolding filled_quantity_def
  by (induction ts; cases "o_side x") (auto simp: mirrored_def own_leg_def resting_leg_def)

lemma sweep_fills: "unat r - unat (sweep_left r ys) = min (unat r) (offered ys)"
  by (simp add: unat_sweep_left offered_def)

lemma fill_or_kill_all_or_nothing':
  assumes "book_ok bk" and "book_size bk \<le> 2 ^ 32" and "o_type x = FillOrKill"
    and "\<not> has_order bk (o_id x)" and "0 < o_remaining x"
  shows "if offered (eligible x bk) < unat (o_remaining x)
    then add_order bk x g c = Inr (None, bk, g, c)
    else (case add_order bk x g c of
        Inl e \<Rightarrow> stamps_fail g c e
      | Inr (r, bk', g', c') \<Rightarrow> \<exists>ts. r = Some ts \<and> filled_quantity ts = unat (o_remaining x))"
proof -
  have lv: "book_levels_ok bk" using assms(1) by (simp add: book_ok_def)
  have fresh: "hm_get (orders_map bk) (o_id x) = None"
    using assms(4) by (simp add: has_order_def hm_contains_def)
  note avail = available_liquidity_offered [OF assms(1,2), of x]
  have add: "add_order bk x g c =
    (if can_match bk (o_side x) (o_price x) then match_against_opposite bk x True g c else Inr (None, bk, g, c))"
    using assms(3,4) by (simp add: add_order_def has_order_def)
  show ?thesis
  proof (cases "offered (eligible x bk) < unat (o_remaining x)")
    case True
    with avail have "available_liquidity x bk < as_u64 (o_remaining x)" by (simp add: word_less_nat_alt)
    with True show ?thesis by (simp add: add match_against_opposite_def)
  next
    case False
    have ge: "\<not> available_liquidity x bk < as_u64 (o_remaining x)"
      using avail False by (simp add: word_less_nat_alt)
    have "0 < unat (o_remaining x)" using assms(5) by (simp add: word_less_nat_alt)
    with False have "eligible x bk \<noteq> []" by (auto simp: offered_def)
    then have can: "can_match bk (o_side x) (o_price x)"
      using cannot_match_queue [of bk x] by (auto simp: queue_eligible(1) [OF lv])
    show ?thesis
    proof (cases "fill_loop x (o_remaining x) bk [] [] g c")
      case (Inl e)
      with fill_loop_issues(2) [OF Inl] False ge can show ?thesis
        by (simp add: add match_against_opposite_def)
    next
      case (Inr q)
      obtain r bk1 sl ts g' c' where q: "q = (r, bk1, sl, ts, g', c')" by (cases q)
      with Inr have run: "fill_loop x (o_remaining x) bk [] [] g c = Inr (r, bk1, sl, ts, g', c')" by simp
      note sweep = fill_loop_sweep [OF run lv _ fresh, simplified]
      have "unat r = 0"
        using sweep False by (simp add: queue_eligible(1) [OF lv] unat_sweep_left offered_def)
      moreover have "filled_quantity ts = unat (o_remaining x)"
        using sweep False mirrored_quantity [of ts x]
        by (simp add: queue_eligible(1) [OF lv] sweep_quantity sweep_fills)
      ultimately show ?thesis
        using run False ge can by (simp add: add match_against_opposite_def unat_zero_iff)
    qed
  qed
qed

text \<open>
  C14. A FillOrKill order executes completely or not at all: if the other users offer less than its
  quantity within its limit it is refused and nothing changes; otherwise it is filled to the last
  unit, and the safety net behind the pre-check, which would abort the process, is never reached:
  the only fault left is the generator failing to issue an identifier.
\<close>

theorem fill_or_kill_all_or_nothing:
  assumes "book_ok bk" and "book_size bk \<le> 2 ^ 32" and "o_type x = FillOrKill"
    and "\<not> has_order bk (o_id x)" and "0 < o_remaining x"
  shows "if offered (eligible x bk) < unat (o_remaining x)
    then add_order bk x g c = Inr (None, bk, g, c)
    else (case add_order bk x g c of
        Inl e \<Rightarrow> stamps_fail g c e
      | Inr (r, bk', g', c') \<Rightarrow> \<exists>ts. r = Some ts \<and> filled_quantity ts = unat (o_remaining x))"
  by (rule fill_or_kill_all_or_nothing' [OF assms])

theorem fill_or_kill_all_or_nothing_witness:
  "add_order sample_book (sample_order 9 FillOrKill Buy 102 6 2) sample_generator sample_clock =
     Inr (None, sample_book, sample_generator, sample_clock)"
proof -
  let ?x = "sample_order 9 FillOrKill Buy 102 6 2"
  have size: "book_size sample_book \<le> 2 ^ 32" by (simp add: book_size_def eval_samples)
  have "offered (eligible ?x sample_book) < unat (o_remaining ?x)" "\<not> has_order sample_book (o_id ?x)"
    by code_simp+
  with fill_or_kill_all_or_nothing [OF sample_book_ok size, of ?x sample_generator sample_clock]
  show ?thesis by (simp add: sample_order_def)
qed

end
