(* ===== verification/Cancelling.thy ===== *)
theory Cancelling
  imports Priority
begin

text \<open>
  Cancellation of one order and of all orders of a user, the depth snapshot, and the round trip of
  placing and cancelling. Both cancellations prune the levels of the book by a test on the terms
  of an order; the facts about pruning carry both.
\<close>

section \<open>Pruning the levels\<close>

definition level :: "side \<Rightarrow> price \<Rightarrow> order_book \<Rightarrow> order list" where
  "level sd p bk =
     (case bm_get (case sd of Buy \<Rightarrow> bids_map bk | Sell \<Rightarrow> asks_map bk) p of None \<Rightarrow> [] | Some ys \<Rightarrow> ys)"

definition prune :: "(order \<Rightarrow> bool) \<Rightarrow> book_side \<Rightarrow> book_side" where
  "prune P m = filter (\<lambda>(p, ys). ys \<noteq> []) (map (\<lambda>(p, ys). (p, filter P ys)) m)"

lemma prune_simps [simp]:
  "prune P [] = []"
  "prune P ((p, ys) # m) = (if filter P ys = [] then prune P m else (p, filter P ys) # prune P m)"
  "prune P (m @ n) = prune P m @ prune P n"
  by (simp_all add: prune_def)

lemma set_prune: "set (prune P m) = {(p, filter P ys) | p ys. (p, ys) \<in> set m \<and> filter P ys \<noteq> []}"
  by (auto simp: prune_def)

lemma prune_keys: "bm_ok m \<Longrightarrow> bm_ok (prune P m)"
  by (induction m) (fastforce simp: bm_ok_Cons set_prune)+

lemma levels_ok_prune: "levels_ok sd m \<Longrightarrow> levels_ok sd (prune P m)"
  by (auto simp: levels_ok_def prune_keys set_prune priced_def)

lemma orders_of_prune: "orders_of (prune P m) = filter_mset P (orders_of m)"
proof (induction m)
  case (Cons e m)
  then show ?case by (cases e) (auto simp flip: mset_filter)
qed simp

lemma get_prune:
  assumes "bm_ok m"
  shows "(case bm_get (prune P m) p of None \<Rightarrow> [] | Some ys \<Rightarrow> ys) =
    filter P (case bm_get m p of None \<Rightarrow> [] | Some ys \<Rightarrow> ys)"
  using assms
proof (induction m)
  case (Cons e m)
  obtain q ys where e: "e = (q, ys)" by (cases e)
  have "p = q \<Longrightarrow> bm_get (prune P m) p = None"
    using Cons.prems e by (force simp: bm_get_None set_prune bm_ok_Cons)
  with Cons e show ?case by (auto simp: bm_get_def bm_ok_Cons)
qed (simp add: bm_get_def)

lemma prune_id:
  "\<forall>(p, ys) \<in> set m. ys \<noteq> [] \<Longrightarrow> \<forall>x \<in># orders_of m. P x \<Longrightarrow> prune P m = m"
proof (induction m)
  case (Cons e m)
  then show ?case by (cases e) (auto simp: filter_id_conv)
qed simp

text \<open>Dropping an identifier from the level of its price prunes the whole side.\<close>

definition drop_level :: "order_id \<Rightarrow> price \<Rightarrow> book_side \<Rightarrow> book_side" where
  "drop_level i p m =
     (case bm_get m p of
        None \<Rightarrow> m
      | Some orders \<Rightarrow>
          (let orders = filter (\<lambda>x. o_id x \<noteq> i) orders; m = bm_set p orders m
           in if orders = [] then bm_remove p m else m))"

lemma drop_level_prune:
  assumes "levels_ok sd m" and "\<forall>x \<in># orders_of m. o_id x = i \<longrightarrow> o_price x = p"
  shows "drop_level i p m = prune (\<lambda>x. o_id x \<noteq> i) m"
proof -
  have bm: "bm_ok m" and ne: "\<forall>(p, ys) \<in> set m. ys \<noteq> [] \<and> priced p sd ys"
    using assms(1) by (auto simp: levels_ok_def)
  have other: "o_id x \<noteq> i" if "(q, ys) \<in> set m" "q \<noteq> p" "x \<in> set ys" for q ys x
  proof -
    have "x \<in># orders_of m" using that by (force simp: orders_of_def)
    moreover have "o_price x = q" using ne that by (auto simp: priced_def)
    ultimately show ?thesis using assms(2) that(2) by auto
  qed
  have keep: "prune (\<lambda>x. o_id x \<noteq> i) n = n" if "set n \<subseteq> set m" "p \<notin> fst ` set n" for n
  proof (rule prune_id)
    show "\<forall>(p, ys) \<in> set n. ys \<noteq> []" using ne that(1) by auto
    show "\<forall>x \<in># orders_of n. o_id x \<noteq> i"
    proof
      fix x assume "x \<in># orders_of n"
      then obtain q ys where "(q, ys) \<in> set n" "x \<in> set ys" by (auto simp: orders_of_def)
      moreover from this that have "(q, ys) \<in> set m" "q \<noteq> p" by (auto intro: rev_image_eqI)
      ultimately show "o_id x \<noteq> i" by (intro other)
    qed
  qed
  show ?thesis
  proof (cases "bm_get m p")
    case None
    then have "prune (\<lambda>x. o_id x \<noteq> i) m = m" using keep [of m] by (simp add: bm_get_None)
    with None show ?thesis by (simp add: drop_level_def)
  next
    case (Some ys)
    from bm_split_ok [OF bm Some] obtain us vs
      where m: "m = us @ (p, ys) # vs" and "p \<notin> fst ` set us" "p \<notin> fst ` set vs" .
    moreover have "prune (\<lambda>x. o_id x \<noteq> i) us = us" "prune (\<lambda>x. o_id x \<noteq> i) vs = vs"
      by (rule keep; auto simp: m \<open>p \<notin> fst ` set us\<close> \<open>p \<notin> fst ` set vs\<close>)+
    ultimately show ?thesis using Some by (auto simp: drop_level_def Let_def)
  qed
qed

lemma level_prune:
  assumes "book_levels_ok bk"
  shows "level sd p (bk\<lparr>bids_map := prune P (bids_map bk), asks_map := prune P (asks_map bk)\<rparr>) =
    filter P (level sd p bk)"
  using assms get_prune [of _ P p]
  by (cases sd) (simp_all add: level_def book_levels_ok_def levels_ok_def)

section \<open>Pruning the lookup table\<close>

lemma mset_eq_by_set:
  assumes "\<And>i. count A i \<le> 1" and "\<And>i. count B i \<le> 1" and "set_mset A = set_mset B"
  shows "A = B"
proof (rule multiset_eqI)
  fix i
  have "count A i = 0 \<longleftrightarrow> count B i = 0" using assms(3) by (auto simp: count_eq_zero_iff)
  with assms(1) [of i] assms(2) [of i] show "count A i = count B i" by linarith
qed

lemma count_filter_image_le: "count (image_mset f (filter_mset P M)) i \<le> count (image_mset f M) i"
  by (rule mset_subset_eq_count) (simp add: image_mset_subseteq_mono)

lemma indexed_entry:
  assumes "indexed M om" and "(k, y) \<in> set om"
  obtains x where "x \<in># M" and "o_id x = k" and "same_terms x y"
proof -
  have ok: "hm_ok om" and ids: "image_mset o_id M = image_mset fst (mset om)"
    using assms(1) by (simp_all add: indexed_but_def)
  have "k \<in># image_mset fst (mset om)" using assms(2) by (force simp: image_iff)
  then obtain x where x: "x \<in># M" "o_id x = k" unfolding ids [symmetric] by auto
  from indexed_get [OF assms(1) x(1)] x(2) hm_get_iff [OF ok] assms(2) have "same_terms x y"
    by (metis hm_get_iff ok option.inject)
  with x show ?thesis by (rule that)
qed

lemma indexed_prune:
  assumes ix: "indexed M om" and stable: "\<And>x y. same_terms x y \<Longrightarrow> P x = P y"
  shows "indexed (filter_mset P M) (filter (\<lambda>e. P (snd e)) om)"
proof -
  let ?om = "filter (\<lambda>e. P (snd e)) om"
  have ok: "hm_ok om" and ids: "image_mset o_id M = image_mset fst (mset om)"
    and live: "\<forall>x \<in># M. o_remaining x \<noteq> 0"
    and found: "\<forall>x \<in># M. \<exists>y. hm_get om (o_id x) = Some y \<and> same_terms x y \<and> o_remaining x \<le> o_remaining y"
    using ix by (simp_all add: indexed_but_def)
  have ok': "hm_ok ?om" using ok by (simp add: hm_ok_def distinct_map_filter)
  have get: "hm_get ?om k = Some y" if "hm_get om k = Some y" "P y" for k y
    using that by (simp add: hm_get_iff ok ok')
  have "image_mset o_id (filter_mset P M) = image_mset fst (mset ?om)"
  proof (rule mset_eq_by_set)
    fix i
    have "count (image_mset o_id M) i \<le> 1" unfolding ids by (rule keys_distinct [OF ok])
    then show "count (image_mset o_id (filter_mset P M)) i \<le> 1"
      using count_filter_image_le [of o_id P M i] by linarith
    show "count (image_mset fst (mset ?om)) i \<le> 1" by (rule keys_distinct [OF ok'])
  next
    have "o_id x \<in> fst ` set ?om" if x: "x \<in># M" "P x" for x
    proof -
      from found x(1) obtain y where y: "hm_get om (o_id x) = Some y" "same_terms x y" by blast
      from stable [OF y(2)] x(2) have "P y" by simp
      with y(1) have "hm_get ?om (o_id x) = Some y" by (rule get)
      then have "(o_id x, y) \<in> set ?om" by (rule hm_get_SomeD)
      then show ?thesis by (rule rev_image_eqI) simp
    qed
    moreover have "k \<in> o_id ` {x. x \<in># M \<and> P x}" if "(k, y) \<in> set om" "P y" for k y
    proof -
      from indexed_entry [OF ix that(1)] obtain x where "x \<in># M" "o_id x = k" "same_terms x y" .
      with stable [of x y] that(2) show ?thesis by auto
    qed
    ultimately show "set_mset (image_mset o_id (filter_mset P M)) = set_mset (image_mset fst (mset ?om))"
      by (fastforce simp: image_iff)
  qed
  moreover have "\<exists>y. hm_get ?om (o_id x) = Some y \<and> same_terms x y \<and> o_remaining x \<le> o_remaining y"
    if "x \<in># M" "P x" for x
  proof -
    from found that(1) obtain y where
      y: "hm_get om (o_id x) = Some y" "same_terms x y" "o_remaining x \<le> o_remaining y" by blast
    from stable [OF y(2)] that(2) have "P y" by simp
    with y get [OF y(1)] show ?thesis by simp
  qed
  ultimately show ?thesis using ok' live by (simp add: indexed_but_def)
qed

text \<open>A book with both its levels and its table pruned by the same test.\<close>

definition pruned :: "(order \<Rightarrow> bool) \<Rightarrow> order_book \<Rightarrow> order_book" where
  "pruned P bk = \<lparr>bids_map = prune P (bids_map bk), asks_map = prune P (asks_map bk),
     orders_map = filter (\<lambda>e. P (snd e)) (orders_map bk)\<rparr>"

lemma pruned_ok:
  assumes "book_ok bk" and "\<And>x y. same_terms x y \<Longrightarrow> P x = P y"
  shows "book_ok (pruned P bk)"
    and "level sd p (pruned P bk) = filter P (level sd p bk)"
    and "book_orders (pruned P bk) = filter_mset P (book_orders bk)"
proof -
  have lv: "book_levels_ok bk" and ix: "indexed (book_orders bk) (orders_map bk)"
    using assms(1) by (simp_all add: book_ok_def)
  show orders: "book_orders (pruned P bk) = filter_mset P (book_orders bk)"
    by (simp add: book_orders_def pruned_def orders_of_prune)
  have "indexed (book_orders (pruned P bk)) (orders_map (pruned P bk))"
    unfolding orders using indexed_prune [OF ix assms(2)] by (simp add: pruned_def)
  then show "book_ok (pruned P bk)"
    using lv by (simp add: book_ok_def book_levels_ok_def pruned_def levels_ok_prune)
  show "level sd p (pruned P bk) = filter P (level sd p bk)"
    using lv get_prune [of _ P p]
    by (cases sd) (simp_all add: level_def pruned_def book_levels_ok_def levels_ok_def)
qed

section \<open>Cancelling one order\<close>

lemma cancel_order_drop:
  "cancel_order bk i =
     (case hm_get (orders_map bk) i of
        None \<Rightarrow> (None, bk)
      | Some ord \<Rightarrow>
          (Some ord,
           (case o_side ord of
              Buy \<Rightarrow> bk\<lparr>orders_map := hm_remove i (orders_map bk),
                       bids_map := drop_level i (o_price ord) (bids_map bk)\<rparr>
            | Sell \<Rightarrow> bk\<lparr>orders_map := hm_remove i (orders_map bk),
                        asks_map := drop_level i (o_price ord) (asks_map bk)\<rparr>)))"
  by (simp add: cancel_order_def drop_level_def Let_def split: option.splits side.splits)

lemma indexed_key: assumes "indexed M om" and "(k, y) \<in> set om" shows "o_id y = k"
proof -
  from indexed_entry [OF assms] obtain x where "o_id x = k" "same_terms x y" .
  then show ?thesis by (simp add: same_terms_def)
qed

lemma orders_of_get: "bm_get m p = Some ys \<Longrightarrow> x \<in> set ys \<Longrightarrow> x \<in># orders_of m"
  by (force simp: bm_get_def orders_of_def dest: map_of_SomeD)

lemma level_book_orders: "x \<in> set (level sd p bk) \<Longrightarrow> x \<in># book_orders bk"
  by (cases sd) (auto simp: level_def book_orders_def split: option.splits dest!: orders_of_get [OF sym])

lemma cancel_order_pruned:
  assumes ok: "book_ok bk" and get: "hm_get (orders_map bk) i = Some ord"
  shows "cancel_order bk i = (Some ord, pruned (\<lambda>x. o_id x \<noteq> i) bk)"
proof -
  have lv: "levels_ok Buy (bids_map bk)" "levels_ok Sell (asks_map bk)"
    and ix: "indexed (book_orders bk) (orders_map bk)"
    using ok by (simp_all add: book_ok_def book_levels_ok_def)
  have hm: "hm_ok (orders_map bk)" using ix by (simp add: indexed_but_def)
  have same: "same_terms x ord" if "x \<in># book_orders bk" "o_id x = i" for x
    using indexed_get [OF ix that(1)] get that(2) by auto
  have side: "x \<in># orders_of (bids_map bk) \<Longrightarrow> o_side x = Buy"
    "x \<in># orders_of (asks_map bk) \<Longrightarrow> o_side x = Sell" for x
    using lv by (auto simp: levels_ok_def priced_def orders_of_def)
  have here: "o_id x = i \<longrightarrow> o_side ord = Buy \<and> o_price x = o_price ord" if "x \<in># orders_of (bids_map bk)" for x
    using same [of x] side(1) [OF that] that by (auto simp: book_orders_def same_terms_def)
  have there: "o_id x = i \<longrightarrow> o_side ord = Sell \<and> o_price x = o_price ord" if "x \<in># orders_of (asks_map bk)" for x
    using same [of x] side(2) [OF that] that by (auto simp: book_orders_def same_terms_def)
  have bids: "o_side ord = Buy \<Longrightarrow> drop_level i (o_price ord) (bids_map bk) = prune (\<lambda>x. o_id x \<noteq> i) (bids_map bk)"
    "o_side ord = Sell \<Longrightarrow> bids_map bk = prune (\<lambda>x. o_id x \<noteq> i) (bids_map bk)"
    using here lv(1) by (auto intro!: drop_level_prune [OF lv(1)] prune_id [symmetric] simp: levels_ok_def)
  have asks: "o_side ord = Sell \<Longrightarrow> drop_level i (o_price ord) (asks_map bk) = prune (\<lambda>x. o_id x \<noteq> i) (asks_map bk)"
    "o_side ord = Buy \<Longrightarrow> asks_map bk = prune (\<lambda>x. o_id x \<noteq> i) (asks_map bk)"
    using there lv(2) by (auto intro!: drop_level_prune [OF lv(2)] prune_id [symmetric] simp: levels_ok_def)
  have "hm_remove i (orders_map bk) = filter (\<lambda>e. o_id (snd e) \<noteq> i) (orders_map bk)"
    using indexed_key [OF ix] by (auto simp: hm_remove_def AList.delete_eq intro!: filter_cong)
  then show ?thesis
    using get bids asks by (cases "o_side ord") (simp_all add: cancel_order_drop pruned_def)
qed

text \<open>
  C23. Cancelling removes exactly the named order: it is returned if and only if the book lists it,
  every price level keeps its other orders in their order of arrival, no other entry of the lookup
  table changes, and the book stays well formed; an unknown identifier changes nothing.
\<close>

theorem cancel_order_removes_exactly:
  assumes "book_ok bk" and "cancel_order bk i = (r, bk')"
  shows "book_ok bk' \<and> r = get_order bk i \<and> (r = None \<longrightarrow> bk' = bk) \<and>
    (\<forall>sd p. level sd p bk' = filter (\<lambda>x. o_id x \<noteq> i) (level sd p bk)) \<and>
    (\<forall>j. get_order bk' j = (if j = i then None else get_order bk j))"
proof (cases "hm_get (orders_map bk) i")
  case None
  have ix: "indexed (book_orders bk) (orders_map bk)" using assms(1) by (simp add: book_ok_def)
  have "o_id x \<noteq> i" if "x \<in> set (level sd p bk)" for x sd p
    using indexed_get [OF ix level_book_orders [OF that]] None by auto
  then have "\<forall>sd p. filter (\<lambda>x. o_id x \<noteq> i) (level sd p bk) = level sd p bk" by (simp add: filter_id_conv)
  with None assms show ?thesis by (simp add: cancel_order_def get_order_def)
next
  case (Some ord)
  have P: "same_terms x y \<Longrightarrow> (o_id x \<noteq> i) = (o_id y \<noteq> i)" for x y by (simp add: same_terms_def)
  from cancel_order_pruned [OF assms(1) Some] assms(2) have
    r: "r = Some ord" "bk' = pruned (\<lambda>x. o_id x \<noteq> i) bk" by simp_all
  have ix: "indexed (book_orders bk) (orders_map bk)" using assms(1) by (simp add: book_ok_def)
  have hm: "hm_ok (orders_map bk)" using ix by (simp add: indexed_but_def)
  have "filter (\<lambda>e. o_id (snd e) \<noteq> i) (orders_map bk) = hm_remove i (orders_map bk)"
    using indexed_key [OF ix] by (auto simp: hm_remove_def AList.delete_eq intro!: filter_cong)
  then have "get_order bk' j = (if j = i then None else get_order bk j)" for j
    by (simp add: get_order_def r(2) pruned_def)
  with pruned_ok [OF assms(1) P] r Some show ?thesis by (simp add: get_order_def)
qed

theorem cancel_order_removes_exactly_witness:
  "level Sell (Price 100) (snd (cancel_order sample_book 1)) = [sample_order 2 GoodTillCancel Sell 100 4 2]"
proof -
  have "level Sell (Price 100) (snd (cancel_order sample_book 1)) =
      filter (\<lambda>x. o_id x \<noteq> 1) (level Sell (Price 100) sample_book)"
    using cancel_order_removes_exactly [OF sample_book_ok, of 1 "fst (cancel_order sample_book 1)"
        "snd (cancel_order sample_book 1)"] by simp
  also have "\<dots> = [sample_order 2 GoodTillCancel Sell 100 4 2]" by code_simp
  finally show ?thesis .
qed

section \<open>Cancelling all orders of a user\<close>

lemma fold_hm_remove: "fold hm_remove ks om = filter (\<lambda>e. fst e \<notin> set ks) om"
  by (induction ks arbitrary: om) (auto simp: hm_remove_def AList.delete_eq intro!: filter_cong)

lemma cancel_orders_for_user_pruned:
  assumes "book_ok bk"
  shows "cancel_orders_for_user bk u =
    (map fst (filter (\<lambda>e. o_user (snd e) = u) (orders_map bk)), pruned (\<lambda>x. o_user x \<noteq> u) bk)"
proof -
  let ?om = "orders_map bk"
  have hm: "hm_ok ?om" using assms by (simp add: book_ok_def indexed_but_def)
  have "fst e \<in> fst ` {e \<in> set ?om. o_user (snd e) = u} \<longleftrightarrow> o_user (snd e) = u" if "e \<in> set ?om" for e
  proof -
    have "y = snd e" if "(fst e, y) \<in> set ?om" for y
      using that \<open>e \<in> set ?om\<close> hm by (metis hm_get_iff option.inject prod.collapse)
    with that show ?thesis by (auto simp: image_iff) force
  qed
  then have "fold hm_remove (map fst (filter (\<lambda>e. o_user (snd e) = u) ?om)) ?om =
      filter (\<lambda>e. o_user (snd e) \<noteq> u) ?om"
    unfolding fold_hm_remove by (intro filter_cong) simp_all
  then show ?thesis by (simp add: cancel_orders_for_user_def pruned_def prune_def Let_def)
qed

text \<open>
  C24. Cancelling all orders of a user removes exactly the orders of that user from every level and
  from the lookup table, keeps everyone else's orders in their order of arrival, keeps the book well
  formed, and returns the identifiers of the removed orders, each once.
\<close>

theorem cancel_orders_for_user_removes_exactly:
  assumes "book_ok bk" and "cancel_orders_for_user bk u = (ids, bk')"
  shows "book_ok bk' \<and> distinct ids \<and>
    set ids = o_id ` {x. x \<in># book_orders bk \<and> o_user x = u} \<and>
    (\<forall>sd p. level sd p bk' = filter (\<lambda>x. o_user x \<noteq> u) (level sd p bk)) \<and>
    (\<forall>x. x \<in># book_orders bk' \<longrightarrow> o_user x \<noteq> u)"
proof -
  have P: "same_terms x y \<Longrightarrow> (o_user x \<noteq> u) = (o_user y \<noteq> u)" for x y by (simp add: same_terms_def)
  have ix: "indexed (book_orders bk) (orders_map bk)" using assms(1) by (simp add: book_ok_def)
  then have hm: "hm_ok (orders_map bk)" by (simp add: indexed_but_def)
  from cancel_orders_for_user_pruned [OF assms(1)] assms(2) have
    r: "ids = map fst (filter (\<lambda>e. o_user (snd e) = u) (orders_map bk))"
    "bk' = pruned (\<lambda>x. o_user x \<noteq> u) bk" by simp_all
  have "o_id x \<in> set ids" if "x \<in># book_orders bk" "o_user x = u" for x
  proof -
    from indexed_get [OF ix that(1)] obtain y where
      y: "hm_get (orders_map bk) (o_id x) = Some y" "same_terms x y" by blast
    then have "(o_id x, y) \<in> set (orders_map bk)" "o_user y = u"
      using that(2) by (auto simp: same_terms_def dest: hm_get_SomeD)
    then show ?thesis by (force simp: r(1))
  qed
  moreover have "\<exists>x. x \<in># book_orders bk \<and> o_user x = u \<and> o_id x = i" if "i \<in> set ids" for i
  proof -
    from that obtain y where "(i, y) \<in> set (orders_map bk)" "o_user y = u" by (auto simp: r(1))
    moreover from indexed_entry [OF ix this(1)] obtain x where
      "x \<in># book_orders bk" "o_id x = i" "same_terms x y" .
    ultimately show ?thesis by (auto simp: same_terms_def)
  qed
  ultimately have "set ids = o_id ` {x. x \<in># book_orders bk \<and> o_user x = u}" by (auto simp: image_iff)
  moreover have "distinct ids" using hm by (simp add: r(1) hm_ok_def distinct_map_filter)
  ultimately show ?thesis using pruned_ok [OF assms(1) P] by (simp add: r(2))
qed

theorem cancel_orders_for_user_removes_exactly_witness:
  "set (fst (cancel_orders_for_user sample_book 2)) =
     o_id ` {x. x \<in># book_orders sample_book \<and> o_user x = 2}"
  using cancel_orders_for_user_removes_exactly [OF sample_book_ok, of 2 "fst (cancel_orders_for_user sample_book 2)"
      "snd (cancel_orders_for_user sample_book 2)"] by simp

section \<open>Placing and cancelling\<close>

lemma pruned_placed:
  assumes "book_ok bk" and fresh: "hm_get (orders_map bk) (o_id x) = None"
  shows "pruned (\<lambda>y. o_id y \<noteq> o_id x) (placed bk x) = bk"
proof -
  let ?P = "\<lambda>y. o_id y \<noteq> o_id x"
  have lv: "levels_ok Buy (bids_map bk)" "levels_ok Sell (asks_map bk)"
    and ix: "indexed (book_orders bk) (orders_map bk)"
    using assms(1) by (simp_all add: book_ok_def book_levels_ok_def)
  have others: "\<forall>y \<in># orders_of m. ?P y" if "m = bids_map bk \<or> m = asks_map bk" for m
    using that indexed_get [OF ix] fresh by (fastforce simp: book_orders_def)
  have keep: "prune ?P m = m" if "levels_ok sd m" "\<forall>y \<in># orders_of m. ?P y" for sd m
    using that by (intro prune_id) (auto simp: levels_ok_def)
  have push: "prune ?P (push_level x m) = m" if ok: "levels_ok sd m" "\<forall>y \<in># orders_of m. ?P y" for sd m
  proof (cases "bm_get m (o_price x)")
    case None
    then have "o_price x \<notin> fst ` set m" by (simp add: bm_get_None)
    from bm_insert_fresh [OF this, of "[x]"] obtain us vs
      where m: "m = us @ vs" "bm_insert (o_price x) [x] m = us @ (o_price x, [x]) # vs" by blast
    then have "prune ?P (push_level x m) = prune ?P m" using None by (simp add: push_level_def)
    with keep [OF ok] show ?thesis by simp
  next
    case (Some ys)
    from ok(1) have "bm_ok m" by (simp add: levels_ok_def)
    from bm_split_ok [OF this Some] obtain us vs where
      m: "m = us @ (o_price x, ys) # vs" "o_price x \<notin> fst ` set us" "o_price x \<notin> fst ` set vs" .
    then have "prune ?P (push_level x m) = prune ?P m" using Some by (simp add: push_level_def)
    with keep [OF ok] show ?thesis by simp
  qed
  have "filter (\<lambda>e. ?P (snd e)) (hm_insert (o_id x) x (orders_map bk)) = orders_map bk"
  proof -
    have "filter (\<lambda>e. ?P (snd e)) (hm_insert (o_id x) x om) = om"
      if "\<forall>(k, y) \<in> set om. k \<noteq> o_id x \<and> ?P y" for om
      using that by (induction om) (auto simp: hm_insert_def)
    moreover have "k \<noteq> o_id x \<and> ?P y" if "(k, y) \<in> set (orders_map bk)" for k y
      using fresh indexed_key [OF ix that] that
      by (force simp: hm_get_def map_of_eq_None_iff)
    ultimately show ?thesis by blast
  qed
  then show ?thesis
    using keep [OF lv(1) others] keep [OF lv(2) others] push [OF lv(1) others] push [OF lv(2) others]
    by (cases "o_side x") (simp_all add: pruned_def placed_def Let_def)
qed

lemma last_bound: "bm_ok m \<Longrightarrow> bm_last m = Some (p, ys) \<Longrightarrow> q \<in> fst ` set m \<Longrightarrow> q \<le> p"
  by (rule bs.highest_greatest) (simp_all add: bm_get_None)

lemma first_bound: "bm_ok m \<Longrightarrow> bm_first m = Some (p, ys) \<Longrightarrow> q \<in> fst ` set m \<Longrightarrow> p \<le> q"
  by (rule bs.lowest_least) (simp_all add: bm_get_None)

lemma matching_stops_iff:
  assumes "book_levels_ok bk"
  shows "matching_stops bk \<longleftrightarrow> (\<forall>p \<in> fst ` set (bids_map bk). \<forall>q \<in> fst ` set (asks_map bk). p < q)"
proof -
  have ok: "bm_ok (bids_map bk)" "bm_ok (asks_map bk)"
    using assms by (simp_all add: book_levels_ok_def levels_ok_def)
  show ?thesis
  proof (cases "bm_last (bids_map bk)")
    case None
    then show ?thesis by (simp add: matching_stops_def)
  next
    case b: (Some e)
    obtain p ys where e: "e = (p, ys)" by (cases e)
    show ?thesis
    proof (cases "bm_first (asks_map bk)")
      case None
      then show ?thesis by (simp add: matching_stops_def split: option.splits)
    next
      case (Some f)
      obtain q zs where f: "f = (q, zs)" by (cases f)
      have "p \<in> fst ` set (bids_map bk)" "q \<in> fst ` set (asks_map bk)"
        using b Some e f by (auto dest: bm_last_in bm_first_in)
      moreover have "p' < q'" if "p < q" "p' \<in> fst ` set (bids_map bk)" "q' \<in> fst ` set (asks_map bk)" for p' q'
        using last_bound [OF ok(1), of p ys p'] first_bound [OF ok(2), of q zs q'] b Some e f that by simp
      ultimately show ?thesis using b Some e f by (auto simp: matching_stops_def)
    qed
  qed
qed

lemma can_match_iff:
  assumes "book_levels_ok bk"
  shows "can_match bk sd p \<longleftrightarrow> (\<exists>q \<in> fst ` set (opposite_map sd bk). crosses sd p q)"
proof (cases "best_opposite sd bk")
  case None
  then have "opposite_map sd bk = []" by (cases sd) (simp_all add: best_opposite_def opposite_map_def)
  with None show ?thesis by (cases sd) (simp_all add: can_match_def opposite_map_def)
next
  case (Some e)
  obtain q ys where e: "e = (q, ys)" by (cases e)
  have ok: "bm_ok (bids_map bk)" "bm_ok (asks_map bk)"
    using assms by (simp_all add: book_levels_ok_def levels_ok_def)
  have "crosses sd p q" if "q' \<in> fst ` set (opposite_map sd bk)" "crosses sd p q'" for q'
    using first_bound [OF ok(2), of q ys q'] last_bound [OF ok(1), of q ys q'] Some e that
    by (cases sd) (auto simp: best_opposite_def opposite_map_def crosses_def)
  moreover have "q \<in> fst ` set (opposite_map sd bk)" using Some e by (intro best_opposite_in) simp
  ultimately have "crosses sd p q \<longleftrightarrow> (\<exists>q \<in> fst ` set (opposite_map sd bk). crosses sd p q)" by blast
  with Some e show ?thesis
    by (cases sd) (simp_all add: can_match_def best_opposite_def crosses_def)
qed

lemma placed_stops:
  assumes stops: "matching_stops bk" and lv: "book_levels_ok bk"
    and no: "\<not> can_match bk (o_side x) (o_price x)"
  shows "matching_stops (placed bk x)"
proof -
  have keys: "fst ` set (push_level x m) = insert (o_price x) (fst ` set m)" for m
    by (auto simp: push_level_def keys_image_insert dest: bm_get_in split: option.splits)
  have "book_levels_ok (placed bk x)"
    using lv by (cases "o_side x") (simp_all add: placed_def Let_def book_levels_ok_def levels_ok_push)
  then show ?thesis
    using stops no unfolding matching_stops_iff [OF lv] can_match_iff [OF lv]
    by (cases "o_side x")
      (auto simp: matching_stops_iff placed_def Let_def keys opposite_map_def crosses_def not_le)
qed

text \<open>
  C31. Placing and cancelling is a round trip: on a book that is not crossed, an order that finds no
  counterpart rests without a trade and without drawing an identifier, and cancelling it returns
  the order and restores the book to the last entry of every map.
\<close>

theorem cancel_undoes_add:
  assumes "book_ok bk" and "matching_stops bk" and "\<not> immediate (o_type x)"
    and "\<not> has_order bk (o_id x)" and "\<not> can_match bk (o_side x) (o_price x)" and "0 < o_remaining x"
  shows "add_order bk x g c = Inr (Some [], placed bk x, g, c) \<and>
    cancel_order (placed bk x) (o_id x) = (Some x, bk)"
proof -
  have fresh: "hm_get (orders_map bk) (o_id x) = None"
    using assms(4) by (simp add: has_order_def hm_contains_def)
  have lv: "book_levels_ok bk" using assms(1) by (simp add: book_ok_def)
  note stop = placed_stops [OF assms(2) lv assms(5)]
  have run: "match_order (placed bk x) (o_side x) g c = Inr ([], placed bk x, g, c)"
    by (simp add: match_order_def match_loop_stop [OF stop] reinsert_levels_def)
  have "o_remaining x \<noteq> 0" using assms(6) by auto
  note ok = placed_ok(1) [OF assms(1) fresh this]
  have "hm_get (orders_map (placed bk x)) (o_id x) = Some x"
    by (cases "o_side x") (simp_all add: placed_def Let_def)
  from cancel_order_pruned [OF ok this] pruned_placed [OF assms(1) fresh]
  have "cancel_order (placed bk x) (o_id x) = (Some x, bk)" by simp
  moreover have "add_order bk x g c =
      and_then (match_order (placed bk x) (o_side x) g c) (\<lambda>(ts, bk, g, c). Inr (Some ts, bk, g, c))"
    using assms(3,4) by (simp add: add_order_def placed_def has_order_def immediate_def Let_def)
  ultimately show ?thesis by (simp add: run)
qed

theorem cancel_undoes_add_witness:
  "cancel_order (placed sample_book (sample_order 9 GoodTillCancel Buy 99 7 2)) 9 =
     (Some (sample_order 9 GoodTillCancel Buy 99 7 2), sample_book)"
proof -
  let ?x = "sample_order 9 GoodTillCancel Buy 99 7 2"
  have "matching_stops sample_book" "\<not> immediate (o_type ?x)" "\<not> has_order sample_book (o_id ?x)"
    "\<not> can_match sample_book (o_side ?x) (o_price ?x)" "0 < o_remaining ?x" by code_simp+
  from conjunct2 [OF cancel_undoes_add [OF sample_book_ok this]] show ?thesis
    by (simp add: sample_order_def)
qed

end
