(* ===== verification/Resting.thy ===== *)
theory Resting
  imports Cancelling
begin

text \<open>
  A resting order arriving at a book that is not crossed: \<open>match_order\<close>, which matches the whole
  book level against level, does to it what \<open>match_against_opposite\<close> does to a FillAndKill order,
  and then leaves the remainder at its limit price.
\<close>

section \<open>The arriving order in the book\<close>

definition partly :: "order \<Rightarrow> quantity \<Rightarrow> order" where
  "partly x r = x\<lparr>o_remaining := r,
     o_status := (if r = o_remaining x then o_status x else PartiallyFilled)\<rparr>"

definition own_level :: "order \<Rightarrow> quantity \<Rightarrow> order_pointers" where
  "own_level x r = (if r = 0 then [] else [partly x r])"

definition own_table :: "order \<Rightarrow> quantity \<Rightarrow> (order_id, order) hmap \<Rightarrow> (order_id, order) hmap" where
  "own_table x r om = (if r = 0 then om else hm_insert (o_id x) x om)"

text \<open>The book with what is left of the order at the back of its price level.\<close>

definition joined :: "order \<Rightarrow> quantity \<Rightarrow> order_book \<Rightarrow> order_book" where
  "joined x r bk =
     (if r = 0 then bk
      else (case o_side x of
              Buy \<Rightarrow> bk\<lparr>bids_map := push_level (partly x r) (bids_map bk),
                       orders_map := hm_insert (o_id x) x (orders_map bk)\<rparr>
            | Sell \<Rightarrow> bk\<lparr>asks_map := push_level (partly x r) (asks_map bk),
                        orders_map := hm_insert (o_id x) x (orders_map bk)\<rparr>))"

lemma partly_simps [simp]:
  "o_id (partly x r) = o_id x" "o_user (partly x r) = o_user x" "o_price (partly x r) = o_price x"
  "o_side (partly x r) = o_side x" "o_remaining (partly x r) = r" "partly x (o_remaining x) = x"
  by (simp_all add: partly_def)

lemma joined_zero [simp]: "joined x 0 bk = bk"
  by (simp add: joined_def)

lemma joined_placed: "o_remaining x \<noteq> 0 \<Longrightarrow> joined x (o_remaining x) bk = placed bk x"
  by (cases "o_side x") (simp_all add: joined_def placed_def Let_def)

lemma fills_partly:
  assumes "q \<le> r" and "r \<le> o_remaining x" and "r \<noteq> q"
  shows "snd (fills (partly x r) q) = partly x (r - q)"
proof (cases "q = 0")
  case False
  have "unat (r - q) < unat (o_remaining x)"
    using assms(1,2) False by (simp add: unat_minus_le word_le_nat_alt unat_zero_iff [symmetric])
  then have "r - q \<noteq> o_remaining x" by auto
  with assms False show ?thesis by (simp add: fills_apply partly_def)
qed simp

lemma minus_min_le: "r - min r q \<le> (r :: quantity)"
proof -
  have "unat (r - min r q) = unat r - unat (min r q)" by (rule unat_minus_le) simp
  then show ?thesis by (simp add: word_le_nat_alt)
qed

lemma retire_own_table:
  assumes "hm_get om (o_id x) = None" and "o_id y \<noteq> o_id x"
  shows "retire y q (own_table x r om) = own_table x r (retire y q om)"
  using assms by (simp add: retire_def own_table_def hm_remove_insert_other)

section \<open>One fill and one level\<close>

lemma retire_partly:
  assumes "hm_get om (o_id x) = None" and "q \<le> r" and "r \<noteq> 0"
  shows "retire (partly x r) q (own_table x r om) = own_table x (r - q) om"
  using assms by (simp add: retire_def own_table_def is_filled_def fills_remaining hm_remove_insert_fresh)

lemma own_level_fills:
  assumes "q \<le> r" and "r \<le> o_remaining x"
  shows "(if is_filled (snd (fills (partly x r) q)) then [] else [snd (fills (partly x r) q)]) = own_level x (r - q)"
  using assms fills_partly [OF assms]
  by (auto simp: own_level_def is_filled_def fills_remaining)

lemma match_front_fill_front:
  assumes r: "r \<noteq> 0" "r \<le> o_remaining x" and id: "o_id y \<noteq> o_id x" and fresh: "hm_get om (o_id x) = None"
  shows "o_side x = Buy \<Longrightarrow> match_front Buy (o_price x) (o_price y) (partly x r) [] y ys (own_table x r om) g c =
      map_sum id (\<lambda>(r', ys', om', t, g', c'). (own_level x r', ys', own_table x r' om', t, g', c'))
        (fill_front x r y ys om g c)"
    and "o_side x = Sell \<Longrightarrow> match_front Sell (o_price y) (o_price x) y ys (partly x r) [] (own_table x r om) g c =
      map_sum id (\<lambda>(r', ys', om', t, g', c'). (ys', own_level x r', own_table x r' om', t, g', c'))
        (fill_front x r y ys om g c)"
proof -
  obtain q where q: "min r (o_remaining y) = q" "min (o_remaining y) r = q" "q \<le> r"
    by (metis min.cobounded1 min.commute)
  have filled: "is_filled (snd (fills (partly x q) q))" "is_filled (partly x s) \<longleftrightarrow> s = 0" for s
    by (simp_all add: is_filled_def fills_remaining)
  have rest: "r \<noteq> q \<Longrightarrow> snd (fills (partly x r) q) = partly x (r - q)" "r \<noteq> q \<Longrightarrow> r - q \<noteq> 0"
    using q(3) r(2) by (auto intro: fills_partly)
  have table: "own_table x r om = hm_insert (o_id x) x om" using r(1) by (simp add: own_table_def)
  have tables: "hm_remove (o_id y) (hm_insert (o_id x) x om) = hm_insert (o_id x) x (hm_remove (o_id y) om)"
    "hm_remove (o_id x) (hm_insert (o_id x) x om) = om"
    "hm_remove (o_id x) (hm_insert (o_id x) x (hm_remove (o_id y) om)) = hm_remove (o_id y) om"
    using fresh id by (simp_all add: hm_remove_insert_other hm_remove_insert_fresh)
  show "o_side x = Buy \<Longrightarrow> match_front Buy (o_price x) (o_price y) (partly x r) [] y ys (own_table x r om) g c =
      map_sum id (\<lambda>(r', ys', om', t, g', c'). (own_level x r', ys', own_table x r' om', t, g', c'))
        (fill_front x r y ys om g c)"
    unfolding match_front_def fill_front_def Let_def partly_simps q(1,2) table
    by (cases "r = q"; cases "is_filled (snd (fills y q))")
      (simp_all add: filled rest tables own_level_def own_table_def and_then_def split: sum.splits)
  show "o_side x = Sell \<Longrightarrow> match_front Sell (o_price y) (o_price x) y ys (partly x r) [] (own_table x r om) g c =
      map_sum id (\<lambda>(r', ys', om', t, g', c'). (ys', own_level x r', own_table x r' om', t, g', c'))
        (fill_front x r y ys om g c)"
    unfolding match_front_def fill_front_def Let_def partly_simps q(1,2) table
    by (cases "r = q"; cases "is_filled (snd (fills y q))")
      (simp_all add: filled rest tables own_level_def own_table_def and_then_def split: sum.splits)
qed

text \<open>\<open>lift_level\<close>: the result of \<open>fill_level\<close> with the arriving order back in its place.\<close>

definition lift_level where
  "lift_level x res = map_sum id (\<lambda>(f, r, ys, om, ts, g, c).
     (f, case o_side x of Buy \<Rightarrow> (own_level x r, ys) | Sell \<Rightarrow> (ys, own_level x r), own_table x r om, ts, g, c)) res"

definition match_own where
  "match_own x q n k r ys om ts g c = map_sum id (\<lambda>(f, bids, asks, rest). (f, (bids, asks), rest))
     (case o_side x of
        Buy \<Rightarrow> match_level Buy (o_price x) q 1 n k 0 (own_level x r) ys (own_table x r om) ts g c
      | Sell \<Rightarrow> match_level Sell q (o_price x) n 1 k 0 ys (own_level x r) (own_table x r om) ts g c)"

lemma own_level_nonzero: "r \<noteq> 0 \<Longrightarrow> own_level x r = [partly x r]"
  by (simp add: own_level_def)

lemma match_own_done: "r = 0 \<or> ys = [] \<Longrightarrow>
    match_own x q n k r ys om ts g c =
      Inr (False, case o_side x of Buy \<Rightarrow> (own_level x r, ys) | Sell \<Rightarrow> (ys, own_level x r), own_table x r om, ts, g, c)"
  by (cases "o_side x") (auto simp: match_own_def own_level_def)

lemma match_own_self:
  assumes "r \<noteq> 0" and "o_user y = o_user x"
  shows "match_own x q n k r (y # ys) om ts g c =
    (if n \<le> Suc k then
       Inr (True, case o_side x of Buy \<Rightarrow> (own_level x r, ys @ [y]) | Sell \<Rightarrow> (ys @ [y], own_level x r),
         own_table x r om, ts, g, c)
     else match_own x q n (Suc k) r (ys @ [y]) om ts g c)"
  using assms
  by (cases "o_side x")
    (simp_all add: match_own_def own_level_nonzero match_level_self opposite_len_def same_len_def
      rot_bids_def rot_asks_def)

lemma match_own_other:
  assumes "r \<noteq> 0" and "o_user y \<noteq> o_user x" and "r \<le> o_remaining x" and "o_price y = q"
    and "o_id y \<noteq> o_id x" and "hm_get om (o_id x) = None"
  shows "match_own x q n k r (y # ys) om ts g c =
    and_then (fill_front x r y ys om g c)
      (\<lambda>(r, ys, om, t, g, c). match_own x q n k r ys om (ts @ [t]) g c)"
proof (cases "o_side x")
  case Buy
  with assms match_front_fill_front(1) [OF assms(1,3,5,6) Buy, of ys g c] show ?thesis
    by (auto simp: match_own_def own_level_nonzero match_level_other and_then_def split: sum.splits)
next
  case Sell
  with assms match_front_fill_front(2) [OF assms(1,3,5,6) Sell, of ys g c] show ?thesis
    by (auto simp: match_own_def own_level_nonzero match_level_other and_then_def split: sum.splits)
qed

lemma match_own_fill_level:
  assumes "r \<le> o_remaining x" and "\<forall>y \<in> set ys. o_price y = q \<and> o_id y \<noteq> o_id x"
    and "hm_get om (o_id x) = None"
  shows "match_own x q n k r ys om ts g c = lift_level x (fill_level x n k r ys om ts g c)"
  using assms
proof (induction k r ys om ts g c rule: fill_level_induct [where x = x and n = n])
  case (Done k r ys om ts g c)
  then show ?case by (auto simp: match_own_done lift_level_def)
next
  case (AllSelf k r y ys om ts g c)
  then show ?case by (simp add: match_own_self fill_level_self lift_level_def)
next
  case (Skip k r y ys om ts g c)
  then show ?case by (simp add: match_own_self fill_level_self)
next
  case (Fault k r y ys om ts g c e)
  then show ?case by (simp add: match_own_other fill_level_other lift_level_def)
next
  case (Fill k r y ys om ts g c r1 ys1 om1 t g1 c1)
  note parts = fill_front_Inr [OF Fill.hyps(3)]
  have "r1 \<le> r" by (simp add: parts(1) minus_min_le)
  with Fill.prems(1) have "r1 \<le> o_remaining x" by simp
  moreover have "\<forall>y \<in> set ys1. o_price y = q \<and> o_id y \<noteq> o_id x" using Fill.prems(2) by (auto simp: parts(2))
  moreover have "hm_get om1 (o_id x) = None" using Fill.prems(3) by (simp add: parts(3) retire_get_None)
  ultimately have "match_own x q n k r1 ys1 om1 (ts @ [t]) g1 c1 =
      lift_level x (fill_level x n k r1 ys1 om1 (ts @ [t]) g1 c1)" by (rule Fill.IH)
  with Fill show ?case by (simp add: match_own_other fill_level_other)
qed

lemma fill_level_remaining_le:
  "fill_level x n k r ys om ts g c = Inr (f, r', ys', om', ts', g', c') \<Longrightarrow> r' \<le> r"
proof (induction k r ys om ts g c rule: fill_level_induct [where x = x and n = n])
  case (Fill k r y ys om ts g c r1 ys1 om1 t g1 c1)
  have "r1 \<le> r" using fill_front_Inr(1) [OF Fill.hyps(3)] by (simp add: minus_min_le)
  with Fill show ?case by (force simp: fill_level_other)
qed (auto simp: fill_level_self fill_level_other split: if_splits)

lemma fill_level_ids:
  "fill_level x n k r ys om ts g c = Inr (f, r', ys', om', ts', g', c') \<Longrightarrow>
     o_id ` set ys' \<subseteq> o_id ` set ys"
proof (induction k r ys om ts g c rule: fill_level_induct [where x = x and n = n])
  case (Fill k r y ys om ts g c r1 ys1 om1 t g1 c1)
  have "o_id ` set ys1 \<subseteq> insert (o_id y) (o_id ` set ys)"
    using fill_front_Inr(2) [OF Fill.hyps(3)] by (auto split: if_splits)
  with Fill show ?case by (force simp: fill_level_other)
qed (auto simp: fill_level_self fill_level_other split: if_splits)

section \<open>The loops\<close>

text \<open>What the book must be for the order to meet only the opposite side.\<close>

definition meets :: "order \<Rightarrow> order_book \<Rightarrow> bool" where
  "meets x bk \<longleftrightarrow> book_levels_ok bk \<and> matching_stops bk \<and>
     hm_get (orders_map bk) (o_id x) = None \<and>
     (\<forall>y \<in># orders_of (opposite_map (o_side x) bk). o_id y \<noteq> o_id x)"

definition own_map :: "side \<Rightarrow> order_book \<Rightarrow> book_side" where
  "own_map sd = opposite_map (other_side sd)"

lemma stops_sides:
  assumes "book_levels_ok bk"
  shows "matching_stops bk \<longleftrightarrow>
    (\<forall>p \<in> fst ` set (own_map sd bk). \<forall>q \<in> fst ` set (opposite_map sd bk). \<not> crosses sd p q)"
  unfolding matching_stops_iff [OF assms]
  by (cases sd) (auto simp: own_map_def opposite_map_def crosses_def not_le)

lemma joined_sides:
  "own_map (o_side x) (joined x r bk) =
     (if r = 0 then own_map (o_side x) bk else push_level (partly x r) (own_map (o_side x) bk))"
  "opposite_map (o_side x) (joined x r bk) = opposite_map (o_side x) bk"
  "orders_map (joined x r bk) = own_table x r (orders_map bk)"
  by (cases "o_side x"; simp add: joined_def own_map_def opposite_map_def own_table_def)+

lemma book_eq_sides:
  "bk = bk' \<longleftrightarrow> own_map sd bk = own_map sd bk' \<and> opposite_map sd bk = opposite_map sd bk' \<and>
     orders_map bk = orders_map bk'"
  by (cases sd) (auto simp: own_map_def opposite_map_def)

lemma levels_ok_own: "book_levels_ok bk \<Longrightarrow> levels_ok sd (own_map sd bk)"
  by (cases sd) (simp_all add: book_levels_ok_def own_map_def opposite_map_def)

lemma joined_levels_ok:
  assumes "book_levels_ok bk"
  shows "book_levels_ok (joined x r bk)"
  using assms levels_ok_push [of "o_side x" "own_map (o_side x) bk" "partly x r"]
  by (simp add: book_levels_ok_iff [of _ "o_side x"] joined_sides flip: own_map_def)

lemma keys_push: "fst ` set (push_level x m) = insert (o_price x) (fst ` set m)"
  by (auto simp: push_level_def keys_image_insert dest: bm_get_in split: option.splits)

text \<open>Where the fill loop stops the matching loop stops too.\<close>

lemma fill_stops_matching_stops:
  assumes "meets x bk" and "fill_stops x r bk"
  shows "matching_stops (joined x r bk)"
proof (cases "r = 0")
  case True
  with assms(1) show ?thesis by (simp add: meets_def)
next
  case False
  let ?sd = "o_side x"
  have lv: "book_levels_ok bk" and stops: "matching_stops bk" using assms(1) by (simp_all add: meets_def)
  have "\<not> can_match bk ?sd (o_price x)"
    using assms(2) False by (auto simp: can_match_best fill_stops_def split: option.splits)
  then show ?thesis
    using stops False unfolding stops_sides [OF lv, where sd = ?sd]
      stops_sides [OF joined_levels_ok [OF lv], where sd = ?sd] can_match_iff [OF lv] by (auto simp: joined_sides keys_push)
qed

text \<open>Where the fill loop takes a level, the order is alone at the best price of its side.\<close>

lemma own_price_fresh:
  assumes "meets x bk" and "best_opposite (o_side x) bk = Some (q, ys)" and "crosses (o_side x) (o_price x) q"
  shows "o_price x \<notin> fst ` set (own_map (o_side x) bk)"
proof
  have lv: "book_levels_ok bk" and stops: "matching_stops bk" using assms(1) by (simp_all add: meets_def)
  assume "o_price x \<in> fst ` set (own_map (o_side x) bk)"
  with stops best_opposite_in [OF assms(2)] assms(3) show False
    unfolding stops_sides [OF lv, where sd = "o_side x"] by blast
qed

lemma bm_last_insert_max:
  assumes "\<forall>k \<in> fst ` set m. k < p"
  shows "bm_last (bm_insert p v m) = Some (p, v)"
proof -
  have "bm_insert p v m = m @ [(p, v)]" using assms by (induction m) auto
  then show ?thesis by (simp add: bm_last_Some)
qed

lemma bm_first_insert_min:
  assumes "\<forall>k \<in> fst ` set m. p < k"
  shows "bm_first (bm_insert p v m) = Some (p, v)"
  using assms by (cases m) (auto simp: bm_first_Some)

lemma push_fresh: "o_price x \<notin> fst ` set m \<Longrightarrow> push_level x m = bm_insert (o_price x) [x] m"
  by (simp add: push_level_def bm_get_None [THEN iffD2] split: option.splits)

lemma best_own:
  assumes m: "meets x bk" and r: "r \<noteq> 0" and best: "best_opposite (o_side x) bk = Some (q, ys)"
    and cr: "crosses (o_side x) (o_price x) q"
  shows "o_side x = Buy \<Longrightarrow> bm_last (bids_map (joined x r bk)) = Some (o_price x, [partly x r])"
    and "o_side x = Sell \<Longrightarrow> bm_first (asks_map (joined x r bk)) = Some (o_price x, [partly x r])"
proof -
  note fresh = own_price_fresh [OF m best cr]
  have lv: "book_levels_ok bk" and stops: "matching_stops bk" using m by (simp_all add: meets_def)
  have far: "\<not> crosses (o_side x) p q" if "p \<in> fst ` set (own_map (o_side x) bk)" for p
    using stops best_opposite_in [OF best] that unfolding stops_sides [OF lv, of "o_side x"] by blast
  show "bm_last (bids_map (joined x r bk)) = Some (o_price x, [partly x r])" if sd: "o_side x = Buy"
  proof -
    have "\<forall>k \<in> fst ` set (bids_map bk). k < o_price x"
      using far cr sd by (fastforce simp: own_map_def opposite_map_def crosses_def not_le)
    from bm_last_insert_max [OF this] show ?thesis
      using fresh r sd by (simp add: joined_def own_map_def opposite_map_def push_fresh)
  qed
  show "bm_first (asks_map (joined x r bk)) = Some (o_price x, [partly x r])" if sd: "o_side x = Sell"
  proof -
    have "\<forall>k \<in> fst ` set (asks_map bk). o_price x < k"
      using far cr sd by (fastforce simp: own_map_def opposite_map_def crosses_def not_le)
    from bm_first_insert_min [OF this] show ?thesis
      using fresh r sd by (simp add: joined_def own_map_def opposite_map_def push_fresh)
  qed
qed

lemma bm_insert_fresh_again:
  assumes "p \<notin> fst ` set m"
  shows "bm_set p v (bm_insert p w m) = bm_insert p v m" and "bm_remove p (bm_insert p w m) = m"
proof -
  show "bm_set p v (bm_insert p w m) = bm_insert p v m"
    using assms bm_set_absent [of p _ v] by (induction m) (auto simp: bm_set_def image_iff)
  show "bm_remove p (bm_insert p w m) = m"
    using assms by (induction m) (simp_all add: bm_remove_def filter_id_conv, force)
qed

lemma after_level_joined:
  assumes "o_price x \<notin> fst ` set (own_map (o_side x) bk)" and "r \<noteq> 0" and "f \<longrightarrow> r' \<noteq> 0"
  shows "o_side x = Buy \<Longrightarrow>
      after_level Buy (o_price x) q (joined x r bk) sl f (own_level x r') ys (own_table x r' om) =
        (let (bk', sl') = after_fill Buy q bk sl f ys om in (joined x r' bk', sl'))"
    and "o_side x = Sell \<Longrightarrow>
      after_level Sell q (o_price x) (joined x r bk) sl f ys (own_level x r') (own_table x r' om) =
        (let (bk', sl') = after_fill Sell q bk sl f ys om in (joined x r' bk', sl'))"
  using assms
  by (cases bk; cases "r' = 0"; force simp: after_level_def after_fill_def Let_def joined_def own_map_def opposite_map_def
      with_opposite_def own_level_def own_table_def push_fresh bm_insert_fresh_again)+

lemma match_loop_joined_level:
  assumes m: "meets x bk" and r: "r \<noteq> 0" "r \<le> o_remaining x"
    and best: "best_opposite (o_side x) bk = Some (q, ys)" and cr: "crosses (o_side x) (o_price x) q"
  shows "match_loop (o_side x) (joined x r bk) sl ts g c =
    and_then (fill_level x (length ys) 0 r ys (orders_map bk) ts g c)
      (\<lambda>(f, r', ys', om', ts', g', c').
         let (bk', sl') = after_fill (o_side x) q bk sl f ys' om' in
         match_loop (o_side x) (joined x r' bk') sl' ts' g' c')"
proof -
  have lv: "book_levels_ok bk" and fresh: "hm_get (orders_map bk) (o_id x) = None"
    and ids: "\<forall>y \<in># orders_of (opposite_map (o_side x) bk). o_id y \<noteq> o_id x"
    using m by (simp_all add: meets_def)
  note get = best_opposite_get [OF lv best]
  have "priced q (other_side (o_side x)) ys" using levels_ok_get [OF opposite_levels_ok [OF lv] get] by simp
  then have ys: "\<forall>y \<in> set ys. o_price y = q \<and> o_id y \<noteq> o_id x"
    using ids orders_of_get [OF get] by (auto simp: priced_def)
  note level = match_own_fill_level [OF r(2) ys fresh, of "length ys" 0 ts g c]
  note price = own_price_fresh [OF m best cr]
  have all_self: "f \<longrightarrow> r' \<noteq> 0" if "fill_level x (length ys) 0 r ys (orders_map bk) ts g c =
      Inr (f, r', ys', om', ts', g', c')" for f r' ys' om' ts' g' c'
    using that by (auto dest: fill_level_all_self)
  show ?thesis
  proof (cases "o_side x")
    case Buy
    have asks: "bm_first (asks_map (joined x r bk)) = Some (q, ys)" "q \<le> o_price x"
      using best cr Buy by (auto simp: best_opposite_def joined_def crosses_def)
    have table: "orders_map (joined x r bk) = own_table x r (orders_map bk)"
      by (simp add: joined_sides)
    note unfold = match_loop_level [OF best_own(1) [OF m r(1) best cr Buy] asks, of Buy sl ts g c]
    have lvl: "match_level Buy (o_price x) q (length [partly x r]) (length ys) 0 0 [partly x r] ys (own_table x r (orders_map bk)) ts g c =
        map_sum id (\<lambda>(f, r, ys, om, rest). (f, own_level x r, ys, own_table x r om, rest))
          (fill_level x (length ys) 0 r ys (orders_map bk) ts g c)"
      using level Buy r(1)
      by (auto simp: match_own_def lift_level_def own_level_nonzero map_sum_def split: sum.splits)
    show ?thesis
      unfolding Buy unfold table lvl
      using all_self after_level_joined(1) [OF price r(1) _ Buy]
      by (cases "fill_level x (length ys) 0 r ys (orders_map bk) ts g c") (auto simp: Let_def split: prod.splits)
  next
    case Sell
    have bids: "bm_last (bids_map (joined x r bk)) = Some (q, ys)" "o_price x \<le> q"
      using best cr Sell by (auto simp: best_opposite_def joined_def crosses_def)
    have table: "orders_map (joined x r bk) = own_table x r (orders_map bk)"
      by (simp add: joined_sides)
    note unfold = match_loop_level [OF bids(1) best_own(2) [OF m r(1) best cr Sell] bids(2), of Sell sl ts g c]
    have lvl: "match_level Sell q (o_price x) (length ys) (length [partly x r]) 0 0 ys [partly x r] (own_table x r (orders_map bk)) ts g c =
        map_sum id (\<lambda>(f, r, ys, om, rest). (f, ys, own_level x r, own_table x r om, rest))
          (fill_level x (length ys) 0 r ys (orders_map bk) ts g c)"
      using level Sell r(1)
      by (auto simp: match_own_def lift_level_def own_level_nonzero map_sum_def split: sum.splits)
    show ?thesis
      unfolding Sell unfold table lvl
      using all_self after_level_joined(2) [OF price r(1) _ Sell]
      by (cases "fill_level x (length ys) 0 r ys (orders_map bk) ts g c") (auto simp: Let_def split: prod.splits)
  qed
qed

lemma after_fill_any_aside:
  "after_fill sd p bk sl f ys om = (bk', sl') \<Longrightarrow> \<exists>sl0. after_fill sd p bk [] f ys om = (bk', sl0)"
  by (auto simp: after_fill_def Let_def split: if_splits)

lemma meets_after_fill:
  assumes m: "meets x bk" and best: "best_opposite (o_side x) bk = Some (q, ys)"
    and cr: "crosses (o_side x) (o_price x) q"
    and lv: "fill_level x (length ys) 0 r ys (orders_map bk) ts g c = Inr (f, r', ys', om', ts', g', c')"
    and after: "after_fill (o_side x) q bk sl f ys' om' = (bk', sl')"
  shows "meets x bk'"
proof -
  let ?sd = "o_side x"
  have blv: "book_levels_ok bk" and stops: "matching_stops bk" and fresh: "hm_get (orders_map bk) (o_id x) = None"
    and ids: "\<forall>y \<in># orders_of (opposite_map ?sd bk). o_id y \<noteq> o_id x"
    using m by (simp_all add: meets_def)
  note get = best_opposite_get [OF blv best]
  have "priced q (other_side ?sd) ys" using levels_ok_get [OF opposite_levels_ok [OF blv] get] by simp
  from fill_level_crossings [OF lv this cr fresh] have
    priced: "priced q (other_side ?sd) ys'" and fresh': "hm_get om' (o_id x) = None" by blast+
  have ne: "f \<Longrightarrow> ys' \<noteq> []" using lv by (auto dest: fill_level_all_self)
  obtain sl0 where after0: "after_fill ?sd q bk [] f ys' om' = (bk', sl0)"
    using after_fill_any_aside [OF after] by blast
  note ok = after_fill_ok [OF blv aside_ok_Nil best after0 priced ne]
  have keys: "fst ` set (opposite_map ?sd bk') \<subseteq> fst ` set (opposite_map ?sd bk)"
    using after0 by (auto simp: after_fill_def Let_def bm_set_def split: if_splits) (force split: if_splits)+
  note all = stops [unfolded stops_sides [OF blv, where sd = ?sd]]
  have own: "own_map ?sd bk' = own_map ?sd bk" by (simp add: own_map_def ok(3))
  have blv': "book_levels_ok bk'" using ok(1) by simp
  have "matching_stops bk'"
    unfolding stops_sides [OF blv', where sd = ?sd] own
    by (intro ballI) (rule all [THEN bspec, THEN bspec, OF _ subsetD [OF keys]], simp_all only:)
  moreover have "o_id y \<noteq> o_id x" if "y \<in># orders_of (opposite_map ?sd bk')" for y
  proof -
    from ok(2) obtain Y where Y: "orders_of (opposite_map ?sd bk) = mset ys + Y"
      "orders_of sl0 + orders_of (opposite_map ?sd bk') = mset ys' + Y" by auto
    have "y \<in># mset ys' + Y" unfolding Y(2) [symmetric] using that by simp
    moreover have "\<forall>z \<in># mset ys + Y. o_id z \<noteq> o_id x" using ids by (simp add: Y(1))
    moreover have "o_id ` set ys' \<subseteq> o_id ` set ys" by (rule fill_level_ids [OF lv])
    ultimately show ?thesis by fastforce
  qed
  ultimately show ?thesis using ok(1) fresh' by (simp add: meets_def ok(4))
qed

definition lift_run where
  "lift_run x res = map_sum id (\<lambda>(r', bk', rest). (joined x r' bk', rest)) res"

lemma lift_run_simps [simp]:
  "lift_run x (Inl e) = Inl e"
  "lift_run x (Inr (r, bk, rest)) = Inr (joined x r bk, rest)"
  by (simp_all add: lift_run_def)

lemma match_loop_joined:
  "meets x bk \<Longrightarrow> r \<le> o_remaining x \<Longrightarrow>
     match_loop (o_side x) (joined x r bk) sl ts g c =
     lift_run x (fill_loop x r bk sl ts g c)"
proof (induction r bk sl ts g c rule: fill_loop_induct [where x = x])
  case (Stop r bk sl ts g c)
  with fill_stops_matching_stops [OF Stop(2,1)] show ?case
    by (simp add: match_loop_stop fill_loop_stop)
next
  case (Fault r bk sl ts g c p ys e)
  with match_loop_joined_level [OF Fault(6,1,7,2,3)] show ?case by simp
next
  case (Level r bk sl ts g c p ys f r1 ys1 om1 ts1 g1 c1 bk1 sl1)
  note m = Level.prems(1) and best = Level.hyps(2) and lv = Level.hyps(4) and after = Level.hyps(5)
  note m1 = meets_after_fill [OF m best Level.hyps(3) lv after]
  have "r1 \<le> o_remaining x" using fill_level_remaining_le [OF lv] Level.prems(2) by simp
  from Level.IH [OF m1 this] have
    "match_loop (o_side x) (joined x r bk) sl ts g c =
      lift_run x (fill_loop x r1 bk1 sl1 ts1 g1 c1)"
    using match_loop_joined_level [OF m Level.hyps(1) Level.prems(2) best Level.hyps(3)] lv after by simp
  with Level.hyps(6) show ?case by simp
qed

lemma reinsert_joined: "reinsert_levels (o_side x) sl (joined x r bk) = joined x r (reinsert_levels (o_side x) sl bk)"
  by (cases "o_side x") (simp_all add: reinsert_levels_eq joined_def with_opposite_def)

section \<open>The equivalence and what follows from it\<close>

lemma meets_start:
  assumes "book_ok bk" and "matching_stops bk" and "hm_get (orders_map bk) (o_id x) = None"
  shows "meets x bk"
proof -
  have lv: "book_levels_ok bk" and ix: "indexed (book_orders bk) (orders_map bk)"
    using assms(1) by (simp_all add: book_ok_def)
  have "o_id y \<noteq> o_id x" if "y \<in># orders_of (opposite_map (o_side x) bk)" for y
    using indexed_get [OF ix, of y] that assms(3) by (auto simp: book_orders_opposite [of bk "o_side x"])
  with lv assms(2,3) show ?thesis by (simp add: meets_def)
qed

lemma resting_order_equiv:
  assumes "book_ok bk" and "matching_stops bk" and "\<not> has_order bk (o_id x)"
    and "\<not> immediate (o_type x)" and "0 < o_remaining x"
  shows "add_order bk x g c =
    (case match_against_opposite bk x False g c of
       Inl e \<Rightarrow> Inl e
     | Inr (r, bk', g', c') \<Rightarrow>
         Inr (r, joined x (sweep_left (o_remaining x) (eligible x bk)) bk', g', c'))"
proof -
  have lv: "book_levels_ok bk" using assms(1) by (simp add: book_ok_def)
  have fresh: "hm_get (orders_map bk) (o_id x) = None"
    using assms(3) by (simp add: has_order_def hm_contains_def)
  have x: "o_remaining x \<noteq> 0" using assms(5) by auto
  have "add_order bk x g c =
      and_then (match_order (placed bk x) (o_side x) g c) (\<lambda>(ts, bk, g, c). Inr (Some ts, bk, g, c))"
    using assms(3,4) by (simp add: add_order_def placed_def has_order_def immediate_def Let_def)
  also have "match_order (placed bk x) (o_side x) g c =
      and_then (fill_loop x (o_remaining x) bk [] [] g c) (\<lambda>(r, bk', sl, ts, g', c').
        Inr (ts, joined x r (reinsert_levels (o_side x) sl bk'), g', c'))"
    using match_loop_joined [OF meets_start [OF assms(1,2) fresh] order.refl, of "[]" "[]" g c]
    by (cases "fill_loop x (o_remaining x) bk [] [] g c")
      (auto simp: match_order_def joined_placed [OF x] reinsert_joined)
  finally show ?thesis
  proof (cases "fill_loop x (o_remaining x) bk [] [] g c")
    case (Inr q)
    obtain r bk1 sl ts g' c' where q: "q = (r, bk1, sl, ts, g', c')" by (cases q)
    with Inr have run: "fill_loop x (o_remaining x) bk [] [] g c = Inr (r, bk1, sl, ts, g', c')" by simp
    from fill_loop_sweep [OF run lv _ fresh] have "r = sweep_left (o_remaining x) (eligible x bk)"
      by (simp add: queue_eligible(1) [OF lv])
    then show ?thesis if "add_order bk x g c =
      and_then (and_then (fill_loop x (o_remaining x) bk [] [] g c) (\<lambda>(r, bk', sl, ts, g', c').
        Inr (ts, joined x r (reinsert_levels (o_side x) sl bk'), g', c'))) (\<lambda>(ts, bk, g, c). Inr (Some ts, bk, g, c))"
      using that by (simp add: match_against_opposite_def run)
  qed (simp add: match_against_opposite_def)
qed

text \<open>
  C20. On a book that is not crossed, a resting order is matched exactly as a FillAndKill order of
  the same terms - the same trades with the same identifiers, the same faults - and what it leaves
  unfilled then stands at the back of the level of its limit price.
\<close>

theorem resting_order_is_fill_and_kill_then_rest:
  assumes "book_ok bk" and "matching_stops bk" and "\<not> has_order bk (o_id x)"
    and "\<not> immediate (o_type x)" and "0 < o_remaining x"
  shows "add_order bk x g c =
    (case match_against_opposite bk x False g c of
       Inl e \<Rightarrow> Inl e
     | Inr (r, bk', g', c') \<Rightarrow>
         Inr (r, joined x (sweep_left (o_remaining x) (eligible x bk)) bk', g', c'))"
  by (rule resting_order_equiv [OF assms])

theorem resting_order_is_fill_and_kill_then_rest_witness:
  "add_order sample_book (sample_order 9 GoodTillCancel Buy 101 7 2) sample_generator sample_clock =
    (case match_against_opposite sample_book (sample_order 9 GoodTillCancel Buy 101 7 2) False
        sample_generator sample_clock of
       Inl e \<Rightarrow> Inl e
     | Inr (r, bk', g', c') \<Rightarrow> Inr (r, joined (sample_order 9 GoodTillCancel Buy 101 7 2) 2 bk', g', c'))"
proof -
  let ?x = "sample_order 9 GoodTillCancel Buy 101 7 2"
  have "matching_stops sample_book" "\<not> has_order sample_book (o_id ?x)" "\<not> immediate (o_type ?x)"
    "0 < o_remaining ?x" by code_simp+
  note equiv = resting_order_is_fill_and_kill_then_rest [OF sample_book_ok this, of sample_generator sample_clock]
  have "sweep_left (o_remaining ?x) (eligible ?x sample_book) = 2" by code_simp
  then show ?thesis unfolding equiv by (simp only:)
qed

text \<open>
  C2. The leftover of a resting order keeps time priority: on a book that is not crossed a resting
  order sweeps the orders within its limit in price-time priority, and its remainder, if any, goes
  behind every order already resting at its price; no other level of its own side changes.
\<close>

theorem resting_order_sweeps_then_queues:
  assumes "book_ok bk" and "matching_stops bk" and "\<not> immediate (o_type x)" and "0 < o_remaining x"
    and "add_order bk x g c = Inr (Some ts, bk', g', c')"
  shows "let left = sweep_left (o_remaining x) (eligible x bk) in
    map (resting_leg (o_side x)) ts = sweep (o_remaining x) (eligible x bk) \<and>
    (\<forall>t \<in> set ts. mirrored x t) \<and>
    walk_others x bk' = sweep_rest (o_remaining x) (eligible x bk) @ beyond x bk \<and>
    (\<forall>p. level (o_side x) p bk' =
       level (o_side x) p bk @ (if p = o_price x \<and> left \<noteq> 0 then [partly x left] else []))"
proof -
  let ?left = "sweep_left (o_remaining x) (eligible x bk)"
  have lv: "book_levels_ok bk" using assms(1) by (simp add: book_ok_def)
  have id: "\<not> has_order bk (o_id x)" using assms(5) by (auto simp: add_order_def has_order_def split: if_splits)
  then have fresh: "hm_get (orders_map bk) (o_id x) = None" by (simp add: has_order_def hm_contains_def)
  from resting_order_equiv [OF assms(1,2) id assms(3,4), of g c] assms(5)
  obtain bk1 where run: "match_against_opposite bk x False g c = Inr (Some ts, bk1, g', c')"
    and bk': "bk' = joined x ?left bk1" by (auto split: sum.splits prod.splits)
  note sweep = match_against_opposite_sweep [OF run lv fresh]
  have own: "own_map (o_side x) bk1 = own_map (o_side x) bk"
    unfolding own_map_def by (rule match_against_opposite_own_side [OF run])
  have lvl: "level (o_side x) p b = (case bm_get (own_map (o_side x) b) p of None \<Rightarrow> [] | Some ys \<Rightarrow> ys)" for p b
    by (cases "o_side x") (simp_all add: level_def own_map_def opposite_map_def)
  have "walk_others x bk' = walk_others x bk1"
    by (cases "o_side x") (simp_all add: bk' joined_def walk_others_def opposite_levels_def)
  moreover have "level (o_side x) p bk' =
      level (o_side x) p bk @ (if p = o_price x \<and> ?left \<noteq> 0 then [partly x ?left] else [])" for p
    by (auto simp: lvl bk' joined_sides own push_level_def bm_get_None bm_get_in split: option.splits)
  ultimately show ?thesis using sweep by (simp add: Let_def)
qed

theorem resting_order_sweeps_then_queues_witness:
  "\<exists>ts bk' g' c'. add_order sample_book (sample_order 9 GoodTillCancel Sell 98 9 2)
       sample_generator sample_clock = Inr (Some ts, bk', g', c') \<and>
     level Sell (Price 98) bk' = [partly (sample_order 9 GoodTillCancel Sell 98 9 2) 2]"
proof -
  let ?x = "sample_order 9 GoodTillCancel Sell 98 9 2"
  have start: "matching_stops sample_book" "\<not> immediate (o_type ?x)" "0 < o_remaining ?x" by code_simp+
  have "case add_order sample_book ?x sample_generator sample_clock of
      Inr (Some ts, _) \<Rightarrow> True | _ \<Rightarrow> False" by code_simp
  then obtain ts bk' g' c' where
    run: "add_order sample_book ?x sample_generator sample_clock = Inr (Some ts, bk', g', c')"
    by (auto split: sum.splits option.splits)
  have "sweep_left (o_remaining ?x) (eligible ?x sample_book) = 2" "level Sell (Price 98) sample_book = []"
    "o_side ?x = Sell" "o_price ?x = Price 98" by code_simp+
  with resting_order_sweeps_then_queues [OF sample_book_ok start run] run show ?thesis
    by (simp add: Let_def)
qed

end
