(* ===== verification/Placement.thy ===== *)
theory Placement
  imports Resting
begin

text \<open>
  The remaining promises of the order book: when a placement is refused, that FillAndKill and
  FillOrKill orders never rest, the identifiers of the trades, the faults, and the depth snapshot.
\<close>

section \<open>Refusals and faults\<close>

definition refused :: "order_book \<Rightarrow> order \<Rightarrow> bool" where
  "refused bk x \<longleftrightarrow> has_order bk (o_id x) \<or>
     o_type x = FillAndKill \<and> \<not> (\<exists>q \<in> fst ` set (opposite_map (o_side x) bk). crosses (o_side x) (o_price x) q) \<or>
     o_type x = FillOrKill \<and> offered (eligible x bk) < unat (o_remaining x)"

lemma add_order_outcome:
  assumes "book_ok bk" and "book_size bk \<le> 2 ^ 32" and "0 < o_remaining x"
  shows "case add_order bk x g c of
      Inl e \<Rightarrow> \<not> refused bk x \<and> stamps_fail g c e
    | Inr (r, bk', g', c') \<Rightarrow>
        (if refused bk x then r = None \<and> bk' = bk \<and> g' = g \<and> c' = c else r \<noteq> None)"
proof -
  have lv: "book_levels_ok bk" using assms(1) by (simp add: book_ok_def)
  consider (dup) "has_order bk (o_id x)"
    | (fak) "\<not> has_order bk (o_id x)" "o_type x = FillAndKill"
    | (fok) "\<not> has_order bk (o_id x)" "o_type x = FillOrKill"
    | (rest) "\<not> has_order bk (o_id x)" "\<not> immediate (o_type x)"
    by (auto simp: immediate_def)
  then show ?thesis
  proof cases
    case dup
    then show ?thesis by (simp add: add_order_def has_order_def refused_def)
  next
    case fak
    have run: "match_against_opposite bk x False g c = and_then (fill_loop x (o_remaining x) bk [] [] g c)
      (\<lambda>(r, bk, sl, ts, g, c). Inr (Some ts, reinsert_levels (o_side x) sl bk, g, c))"
      by (simp add: match_against_opposite_def Let_def)
    have ref: "refused bk x \<longleftrightarrow> \<not> can_match bk (o_side x) (o_price x)"
      using fak by (simp add: refused_def can_match_iff [OF lv])
    have add: "add_order bk x g c = (if \<not> can_match bk (o_side x) (o_price x) then Inr (None, bk, g, c)
        else match_against_opposite bk x False g c)"
      using fak by (simp add: add_order_def has_order_def)
    show ?thesis
    proof (cases "fill_loop x (o_remaining x) bk [] [] g c")
      case (Inl e)
      with fill_loop_issues(2) [OF Inl] show ?thesis by (simp add: add ref run)
    next
      case (Inr q)
      then show ?thesis by (cases q) (simp add: add ref run)
    qed
  next
    case fok
    have "refused bk x \<longleftrightarrow> offered (eligible x bk) < unat (o_remaining x)"
      using fok by (simp add: refused_def)
    with fill_or_kill_all_or_nothing' [OF assms(1,2) fok(2,1) assms(3), of g c] show ?thesis
      by (auto split: sum.splits if_splits)
  next
    case rest
    then have add: "add_order bk x g c =
      and_then (match_order (placed bk x) (o_side x) g c) (\<lambda>(ts, bk, g, c). Inr (Some ts, bk, g, c))"
      by (simp add: add_order_def placed_def has_order_def immediate_def Let_def)
    have "\<not> refused bk x" using rest by (auto simp: refused_def immediate_def)
    then show ?thesis
      by (cases "match_order (placed bk x) (o_side x) g c") (auto simp: add dest: match_order_issues(2))
  qed
qed

text \<open>
  C32. A placement is refused, without any change, exactly when the identifier is already resting,
  when a FillAndKill order finds no price within its limit, or when the other users offer a
  FillOrKill order less than its quantity; otherwise it returns its trades, and the only fault a
  placement can end with is the generator failing to issue an identifier.
\<close>

theorem add_order_refusals:
  assumes "book_ok bk" and "book_size bk \<le> 2 ^ 32" and "0 < o_remaining x"
  shows "case add_order bk x g c of
      Inl e \<Rightarrow> \<not> refused bk x \<and> stamps_fail g c e
    | Inr (r, bk', g', c') \<Rightarrow>
        (if refused bk x then r = None \<and> bk' = bk \<and> g' = g \<and> c' = c else r \<noteq> None)"
  by (rule add_order_outcome [OF assms])

theorem add_order_refusals_witness:
  "add_order sample_book (sample_order 9 FillAndKill Buy 99 6 2) sample_generator sample_clock =
     Inr (None, sample_book, sample_generator, sample_clock)"
proof -
  let ?x = "sample_order 9 FillAndKill Buy 99 6 2"
  have size: "book_size sample_book \<le> 2 ^ 32" by (simp add: book_size_def eval_samples)
  have r: "0 < o_remaining ?x" "refused sample_book ?x" by code_simp+
  have "case add_order sample_book ?x sample_generator sample_clock of Inl _ \<Rightarrow> False | Inr _ \<Rightarrow> True"
    by code_simp
  with r add_order_refusals [OF sample_book_ok size r(1), of sample_generator sample_clock] show ?thesis
    by (auto split: sum.splits)
qed

section \<open>Orders that never rest\<close>

lemma shrinks_union: "shrinks A A' \<Longrightarrow> shrinks B B' \<Longrightarrow> shrinks (A + B) (A' + B')"
  unfolding shrinks_def by (metis union_iff)

text \<open>
  FillAndKill and FillOrKill orders never rest: whatever is left of them, the side of the book
  they came from is unchanged, and every order in the book afterwards was there before, with the
  same terms and no more quantity.
\<close>

lemma immediate_orders_never_rest:
  assumes "book_ok bk" and "immediate (o_type x)" and "add_order bk x g c = Inr (r, bk', g', c')"
  shows "opposite_map (other_side (o_side x)) bk' = opposite_map (other_side (o_side x)) bk \<and>
    shrinks (book_orders bk') (book_orders bk)"
  using assms(3)
proof (cases rule: add_order_cases)
  case (immediate ts)
  from immediate_run(3) [OF assms(1) immediate(1,4)] obtain r st where
    run: "crossings (o_side x) (immediate_view x (o_remaining x) (o_status x) bk) ts (immediate_view x r st bk')"
    by blast
  have own: "side_orders (o_side x) bk' = side_orders (o_side x) bk"
    by (rule immediate_run(2) [OF assms(1) immediate(1,4)])
  have "shrinks (side_orders (other_side (o_side x)) bk') (side_orders (other_side (o_side x)) bk)"
    using crossings_shrinks [OF run] by (cases "o_side x") (simp_all add: immediate_view_sides)
  then have "shrinks (book_orders bk') (book_orders bk)"
    using own by (cases "o_side x") (simp_all add: book_orders_sides shrinks_union)
  with match_against_opposite_own_side [OF immediate(4)] show ?thesis by simp
qed (use assms(2) in simp_all)

lemma immediate_orders_never_rest_witness:
  "\<exists>r bk' g' c'. add_order sample_book (sample_order 9 FillAndKill Buy 101 7 2)
     sample_generator sample_clock = Inr (r, bk', g', c') \<and> bids_map bk' = bids_map sample_book"
proof -
  let ?x = "sample_order 9 FillAndKill Buy 101 7 2"
  have "case add_order sample_book ?x sample_generator sample_clock of Inl _ \<Rightarrow> False | Inr _ \<Rightarrow> True"
    by code_simp
  then obtain r bk' g' c' where
    run: "add_order sample_book ?x sample_generator sample_clock = Inr (r, bk', g', c')"
    by (auto split: sum.splits)
  have x: "immediate (o_type ?x)" "o_side ?x = Buy" by code_simp+
  from immediate_orders_never_rest [OF sample_book_ok x(1) run] run show ?thesis
    by (simp add: opposite_map_def x(2))
qed

section \<open>Identifiers of the trades\<close>

lemma add_order_issues:
  assumes "add_order bk x g c = Inr (Some ts, bk', g', c')"
  shows "issues g c ts g' c'"
  using assms by (cases rule: add_order_cases)
    (auto dest: match_order_issues match_against_opposite_issues)

text \<open>
  The trades of a placement carry strictly increasing identifiers, every one of them above all
  identifiers the generator issued before and below all it will issue after, so no two trades of
  the engine, within a call or across calls, share an identifier.
\<close>

lemma add_order_trade_ids_fresh:
  assumes "add_order bk x g c = Inr (Some ts, bk', g', c')" and "gen_ok g" and "clock_ok c"
  shows "sorted_wrt (<) (map t_id ts) \<and> gen_ok g' \<and> clock_ok c' \<and> id_floor g \<le> id_floor g' \<and>
    (\<forall>t \<in> set ts. id_floor g \<le> unat (t_id t) \<and> unat (t_id t) < id_floor g')"
proof -
  have "draw stamp (length ts) g c = Inr (map stamp_of ts, g', c')"
    using add_order_issues [OF assms(1)] by (simp add: issues_def)
  from stamps.draw_spec [OF this] assms(2,3) show ?thesis
    by (auto simp: stamp_of_def sorted_wrt_map word_less_nat_alt)
qed

lemma add_order_trade_ids_fresh_witness:
  "\<exists>ts bk' g' c'. add_order sample_book (sample_order 9 GoodTillCancel Buy 103 11 2)
     sample_generator sample_clock = Inr (Some ts, bk', g', c') \<and> length ts = 2 \<and>
     sorted_wrt (<) (map t_id ts)"
proof -
  let ?x = "sample_order 9 GoodTillCancel Buy 103 11 2"
  have "case add_order sample_book ?x sample_generator sample_clock of
      Inr (Some ts, _) \<Rightarrow> length ts = 2 | _ \<Rightarrow> False" by code_simp
  then obtain ts bk' g' c' where
    run: "add_order sample_book ?x sample_generator sample_clock = Inr (Some ts, bk', g', c')" "length ts = 2"
    by (auto split: sum.splits option.splits)
  have "clock_ok sample_clock"
    by (auto simp: sample_clock_def clock_ok_def in_era_def millis_def EPOCH_def upt_rec)
  moreover have "gen_ok sample_generator" by (simp add: gen_ok_def sample_generator_def)
  ultimately show ?thesis using add_order_trade_ids_fresh [OF run(1)] run by blast
qed

section \<open>Depth snapshot\<close>

lemma fold_levels:
  "fold (\<lambda>(p, ys) info. f p ys # info) m acc = rev (map (\<lambda>(p, ys). f p ys) m) @ acc"
  "fold (\<lambda>(p, ys) info. info @ [f p ys]) m acc = acc @ map (\<lambda>(p, ys). f p ys) m"
  by (induction m arbitrary: acc) auto

lemma get_order_info_levels:
  "ob_bids (get_order_info bk) =
     rev (map (\<lambda>(p, ys). level_info_new p (level_quantity (level_total ys))) (bids_map bk))"
  "ob_asks (get_order_info bk) =
     map (\<lambda>(p, ys). level_info_new p (level_quantity (level_total ys))) (asks_map bk)"
  by (simp_all add: get_order_info_def order_book_level_info_new_def fold_levels Let_def)

lemma unat_level_quantity: "unat (level_quantity n) = min (unat n) (2 ^ 32 - 1)"
proof (cases "u32_try_from n")
  case None
  then have "2 ^ 32 \<le> unat n" by (simp add: rust_int)
  with None show ?thesis by (simp add: level_quantity_def)
next
  case (Some q)
  then have "unat q = unat n" by (simp add: rust_int)
  with Some show ?thesis using unat_u32_le [of q] by (simp add: level_quantity_def del: unat_u32_le)
qed

lemma level_length: "book_ok bk \<Longrightarrow> length (level sd p bk) \<le> book_size bk"
proof -
  assume ok: "book_ok bk"
  have "mset ys \<subseteq># orders_of m" if "bm_get m p = Some ys" for m and ys
  proof -
    from bm_split [OF that] obtain us vs where "m = us @ (p, ys) # vs" by blast
    then show ?thesis by simp
  qed
  then have "mset (level sd p bk) \<subseteq># side_orders sd bk"
    by (cases sd) (auto simp: level_def side_orders_def split: option.splits)
  also have "side_orders sd bk \<subseteq># book_orders bk" by (cases sd) (simp_all add: book_orders_sides)
  finally have "size (mset (level sd p bk)) \<le> size (book_orders bk)" by (rule size_mset_mono)
  also have "\<dots> = book_size bk" using ok by (simp add: book_ok_def book_size_def indexed_size)
  finally show ?thesis by simp
qed

lemma unat_level_total:
  "length ys \<le> 2 ^ 32 \<Longrightarrow> unat (level_total ys) = offered ys"
proof -
  assume len: "length ys \<le> 2 ^ 32"
  have "offered ys \<le> length ys * 4294967295" unfolding offered_def by (rule sum_list_u32_bound)
  also have "\<dots> \<le> 2 ^ 32 * 4294967295" using len by simp
  finally have "offered ys < 2 ^ 64" by simp
  then show ?thesis by (simp add: level_total_def unat_sum_list_u64 offered_def)
qed

text \<open>The entries of one side of the snapshot, against the level at a price.\<close>

lemma snapshot_entry:
  assumes ok: "levels_ok sd m" and ys: "ys = (case bm_get m p of None \<Rightarrow> [] | Some ys \<Rightarrow> ys)"
    and len: "length ys \<le> 2 ^ 32"
  shows "\<lparr>l_price = p, l_quantity = q\<rparr> \<in> set (map (\<lambda>(p, ys). level_info_new p (level_quantity (level_total ys))) m) \<longleftrightarrow>
    ys \<noteq> [] \<and> unat q = min (offered ys) (2 ^ 32 - 1)"
proof (cases "bm_get m p")
  case None
  then have "ys = []" using ys by simp
  moreover have "p \<notin> fst ` set m" using None by (simp add: bm_get_None)
  ultimately show ?thesis by (force simp: level_info_new_def)
next
  case (Some zs)
  have bm: "bm_ok m" and ne: "\<forall>(p, ys) \<in> set m. ys \<noteq> []" using ok by (auto simp: levels_ok_def)
  have at_p: "(p, ws) \<in> set m \<longleftrightarrow> ws = zs" for ws using Some bm_get_iff [OF bm, of p ws] by auto
  then have "zs \<noteq> []" using ne by blast
  have "\<lparr>l_price = p, l_quantity = q\<rparr> \<in> set (map (\<lambda>(p, ys). level_info_new p (level_quantity (level_total ys))) m) \<longleftrightarrow>
      (\<exists>ws. (p, ws) \<in> set m \<and> q = level_quantity (level_total ws))"
    by (force simp: level_info_new_def)
  also have "\<dots> \<longleftrightarrow> unat q = min (offered ys) (2 ^ 32 - 1)"
    using len by (simp add: at_p ys Some word_unat_eq_iff unat_level_quantity unat_level_total)
  finally show ?thesis using \<open>zs \<noteq> []\<close> ys Some by simp
qed

text \<open>
  C33. The depth snapshot is exact and best first: bids strictly descend and asks strictly ascend,
  a price is listed exactly when orders rest there, and its quantity is the sum of what these
  orders have left, saturated at the largest 32-bit value and never wrapped.
\<close>

theorem get_order_info_exact:
  assumes "book_ok bk" and "book_size bk \<le> 2 ^ 32"
  shows "sorted_wrt (>) (map l_price (ob_bids (get_order_info bk))) \<and>
    sorted_wrt (<) (map l_price (ob_asks (get_order_info bk))) \<and>
    (\<forall>sd p q. \<lparr>l_price = p, l_quantity = q\<rparr> \<in>
        set (case sd of Buy \<Rightarrow> ob_bids (get_order_info bk) | Sell \<Rightarrow> ob_asks (get_order_info bk)) \<longleftrightarrow>
      level sd p bk \<noteq> [] \<and> unat q = min (offered (level sd p bk)) (2 ^ 32 - 1))"
proof -
  have lv: "levels_ok Buy (bids_map bk)" "levels_ok Sell (asks_map bk)"
    using assms(1) by (simp_all add: book_ok_def book_levels_ok_def)
  have sorted: "sorted_wrt (<) (map fst (bids_map bk))" "sorted_wrt (<) (map fst (asks_map bk))"
    using lv by (simp_all add: levels_ok_def bm_ok_def)
  have prices: "map l_price (ob_bids (get_order_info bk)) = rev (map fst (bids_map bk))"
    "map l_price (ob_asks (get_order_info bk)) = map fst (asks_map bk)"
    by (simp_all add: get_order_info_levels rev_map [symmetric] level_info_new_def case_prod_unfold comp_def)
  have len: "length (level sd p bk) \<le> 2 ^ 32" for sd p
    using level_length [OF assms(1), of sd p] assms(2) by simp
  have "\<lparr>l_price = p, l_quantity = q\<rparr> \<in>
        set (case sd of Buy \<Rightarrow> ob_bids (get_order_info bk) | Sell \<Rightarrow> ob_asks (get_order_info bk)) \<longleftrightarrow>
      level sd p bk \<noteq> [] \<and> unat q = min (offered (level sd p bk)) (2 ^ 32 - 1)" for sd p q
    using snapshot_entry [OF lv(1) _ len [of Buy p, unfolded level_def], of p q]
      snapshot_entry [OF lv(2) _ len [of Sell p, unfolded level_def], of p q]
    by (cases sd) (simp_all add: get_order_info_levels level_def)
  with sorted show ?thesis by (simp add: prices sorted_wrt_rev)
qed

theorem get_order_info_exact_witness:
  "\<lparr>l_price = Price 100, l_quantity = 9\<rparr> \<in> set (ob_asks (get_order_info sample_book))"
proof -
  have size: "book_size sample_book \<le> 2 ^ 32" by (simp add: book_size_def eval_samples)
  have "offered (level Sell (Price 100) sample_book) = 9" "level Sell (Price 100) sample_book \<noteq> []" by code_simp+
  moreover have "\<lparr>l_price = Price 100, l_quantity = 9\<rparr> \<in> set (ob_asks (get_order_info sample_book)) \<longleftrightarrow>
      level Sell (Price 100) sample_book \<noteq> [] \<and> unat (9 :: quantity) = min (offered (level Sell (Price 100) sample_book)) (2 ^ 32 - 1)"
    using get_order_info_exact [OF sample_book_ok size] by (metis side.simps(4))
  ultimately show ?thesis by simp
qed

section \<open>Reachable books\<close>

text \<open>
  The books the engine can build: it starts with an empty book and applies the operations, placing
  only orders with a quantity.
\<close>

inductive book_reachable :: "order_book \<Rightarrow> bool" where
  start: "book_reachable order_book_new"
| place: "book_reachable bk \<Longrightarrow> 0 < o_remaining x \<Longrightarrow>
    add_order bk x g c = Inr (r, bk', g', c') \<Longrightarrow> book_reachable bk'"
| cancel: "book_reachable bk \<Longrightarrow> cancel_order bk i = (r, bk') \<Longrightarrow> book_reachable bk'"
| cancel_user: "book_reachable bk \<Longrightarrow> cancel_orders_for_user bk u = (ids, bk') \<Longrightarrow> book_reachable bk'"

lemma order_book_new_ok: "book_ok order_book_new"
  by (simp add: order_book_new_def book_ok_def book_levels_ok_def book_orders_def indexed_but_def)

lemma cancel_order_ok:
  assumes "book_ok bk" and "cancel_order bk i = (r, bk')"
  shows "book_ok bk'"
proof (cases "hm_get (orders_map bk) i")
  case None
  with assms show ?thesis by (simp add: cancel_order_def)
next
  case (Some x)
  have "same_terms x y \<Longrightarrow> (o_id x \<noteq> i) = (o_id y \<noteq> i)" for x y by (simp add: same_terms_def)
  from pruned_ok(1) [OF assms(1) this] show ?thesis
    using cancel_order_pruned [OF assms(1) Some] assms(2) by simp
qed

lemma cancel_orders_for_user_ok:
  assumes "book_ok bk" and "cancel_orders_for_user bk u = (ids, bk')"
  shows "book_ok bk'"
proof -
  have "same_terms x y \<Longrightarrow> (o_user x \<noteq> u) = (o_user y \<noteq> u)" for x y by (simp add: same_terms_def)
  from pruned_ok(1) [OF assms(1) this] show ?thesis
    using cancel_orders_for_user_pruned [OF assms(1), of u] assms(2) by simp
qed

text \<open>
  C8. Every book the engine can build is well formed: prices strictly sorted on both sides, no empty
  level, every order on its own side and price and not exhausted, and the lookup table listing
  exactly the resting orders, each once, under its own identifier.
\<close>

theorem reachable_book_ok:
  assumes "book_reachable bk"
  shows "book_ok bk"
  using assms
proof induction
  case start
  show ?case by (rule order_book_new_ok)
qed (blast intro: add_order_keeps_book_ok cancel_order_ok cancel_orders_for_user_ok)+

theorem reachable_book_ok_witness:
  "\<exists>bk g c. add_order order_book_new (sample_order 7 GoodTillCancel Sell 100 5 1) sample_generator sample_clock = Inr (Some [], bk, g, c) \<and>
     book_size bk = 1 \<and> book_ok bk \<and> book_ok (snd (cancel_order (snd (cancel_orders_for_user bk 3)) 7))"
proof -
  let ?x = "sample_order 7 GoodTillCancel Sell 100 5 1"
  have "case add_order order_book_new ?x sample_generator sample_clock of
      Inr (r, bk, _) \<Rightarrow> r = Some [] \<and> book_size bk = 1 | Inl _ \<Rightarrow> False" by code_simp
  then obtain bk g c where run: "add_order order_book_new ?x sample_generator sample_clock = Inr (Some [], bk, g, c)"
    and one: "book_size bk = 1" by (auto split: sum.splits)
  have "0 < o_remaining ?x" by code_simp
  from book_reachable.place [OF book_reachable.start this run] have reach: "book_reachable bk" .
  from book_reachable.cancel [OF book_reachable.cancel_user [OF reach prod.collapse [symmetric]] prod.collapse [symmetric]]
  have "book_reachable (snd (cancel_order (snd (cancel_orders_for_user bk 3)) 7))" .
  from reachable_book_ok [OF this] reachable_book_ok [OF reach] run one show ?thesis by blast
qed

end
