(* ===== verification/Users.thy ===== *)
theory Users
  imports Maps Types
begin

text \<open>
  User accounts (\<open>user/mod.rs\<close>): balances per asset and the funds locked per order. A method that
  takes \<open>&mut self\<close> returns its result together with the account after the call, which matters on
  the error paths. The invariant is solvency: the locks of an asset never exceed its balance.
\<close>

section \<open>State and operations\<close>

record lock_entry =
  le_asset :: asset
  le_amount :: quantity

record user =
  u_id :: user_id
  u_locked :: "(order_id, lock_entry) hmap"
  u_balances :: "(asset, quantity) hmap"

text \<open>\<open>fresh\<close> is the value \<open>Uuid::new_v4\<close> draws.\<close>

definition user_new :: "user_id option \<Rightarrow> user_id \<Rightarrow> user" where
  "user_new i fresh =
     \<lparr>u_id = (case i of Some i \<Rightarrow> i | None \<Rightarrow> fresh), u_locked = [], u_balances = []\<rparr>"

definition get_balance :: "user \<Rightarrow> asset \<Rightarrow> quantity" where
  "get_balance u a = (case hm_get (u_balances u) a of Some q \<Rightarrow> q | None \<Rightarrow> 0)"

definition add_balance :: "user \<Rightarrow> asset \<Rightarrow> quantity \<Rightarrow> (string + unit) \<times> user" where
  "add_balance u a amount =
     (let current = (case hm_get (u_balances u) a of Some q \<Rightarrow> q | None \<Rightarrow> 0) in
      case checked_add current amount of
        None \<Rightarrow> (Inl ''Balance overflow'', u)
      | Some new \<Rightarrow> (Inr (), u\<lparr>u_balances := hm_insert a new (u_balances u)\<rparr>))"

text \<open>The sum over the lock entries of an asset, in 64 bits.\<close>

definition locked_sum :: "user \<Rightarrow> asset \<Rightarrow> u64" where
  "locked_sum u a =
     (\<Sum>e\<leftarrow>filter (\<lambda>e. le_asset e = a) (hm_values (u_locked u)). as_u64 (le_amount e))"

definition get_locked_balance :: "user \<Rightarrow> asset \<Rightarrow> quantity" where
  "get_locked_balance u a =
     (case u32_try_from (locked_sum u a) of Some q \<Rightarrow> q | None \<Rightarrow> u32_max)"

definition get_available_balance :: "user \<Rightarrow> asset \<Rightarrow> quantity" where
  "get_available_balance u a =
     (let total = (case hm_get (u_balances u) a of Some q \<Rightarrow> q | None \<Rightarrow> 0);
          locked = (case u32_try_from (locked_sum u a) of Some q \<Rightarrow> q | None \<Rightarrow> u32_max)
      in saturating_sub total locked)"

definition lock :: "user \<Rightarrow> order_id \<Rightarrow> asset \<Rightarrow> quantity \<Rightarrow> (string + unit) \<times> user" where
  "lock u i a amount =
     (if get_available_balance u a < amount then (Inl ''Insufficient balance'', u)
      else (Inr (), u\<lparr>u_locked := hm_insert i \<lparr>le_asset = a, le_amount = amount\<rparr> (u_locked u)\<rparr>))"

definition unlock_order :: "user \<Rightarrow> order_id \<Rightarrow> (string + unit) \<times> user" where
  "unlock_order u i =
     (case hm_get (u_locked u) i of
        None \<Rightarrow> (Inl ''Order not Locked'', u)
      | Some _ \<Rightarrow> (Inr (), u\<lparr>u_locked := hm_remove i (u_locked u)\<rparr>))"

text \<open>
  The lock is reduced, and dropped at zero, before the credit is computed: an overflow of the
  credit is reported with the lock already reduced. The balance of the debited asset is not touched.
\<close>

definition apply_fill ::
  "user \<Rightarrow> order_id \<Rightarrow> asset \<Rightarrow> quantity \<Rightarrow> asset \<Rightarrow> quantity \<Rightarrow> (string + unit) \<times> user" where
  "apply_fill u i debit_asset debit_amount credit_asset credit_amount =
     (case hm_get (u_locked u) i of
        None \<Rightarrow> (Inl ''Order not found in locked orders'', u)
      | Some entry \<Rightarrow>
          if le_asset entry \<noteq> debit_asset then (Inl ''Locked asset mismatch'', u)
          else if le_amount entry < debit_amount then
            (Inl ''Locked amount insufficient for fill'', u)
          else
            (let entry = entry\<lparr>le_amount := le_amount entry - debit_amount\<rparr>;
                 u = u\<lparr>u_locked := (if le_amount entry = 0 then hm_remove i (u_locked u)
                                   else hm_insert i entry (u_locked u))\<rparr>;
                 credit = (case hm_get (u_balances u) credit_asset of Some q \<Rightarrow> q | None \<Rightarrow> 0)
             in case checked_add credit credit_amount of
                  None \<Rightarrow> (Inl ''Balance overflow on fill credit'', u)
                | Some new_credit \<Rightarrow>
                    (Inr (), u\<lparr>u_balances := hm_insert credit_asset new_credit (u_balances u)\<rparr>)))"

text \<open>
  \<open>entry(asset).or_insert(0)\<close> leaves a zero balance behind before the checked subtraction.
\<close>

definition substract_balance :: "user \<Rightarrow> asset \<Rightarrow> quantity \<Rightarrow> (string + unit) \<times> user" where
  "substract_balance u a amount =
     (if get_available_balance u a < amount then (Inl ''Insufficient Balance'', u)
      else
        (let entry = (case hm_get (u_balances u) a of Some q \<Rightarrow> q | None \<Rightarrow> 0);
             u = u\<lparr>u_balances := hm_insert a entry (u_balances u)\<rparr>
         in case checked_sub entry amount of
              None \<Rightarrow> (Inl ''Balance Underflow'', u)
            | Some new \<Rightarrow> (Inr (), u\<lparr>u_balances := hm_insert a new (u_balances u)\<rparr>)))"

definition get_all_balances :: "user \<Rightarrow> (asset, quantity) hmap" where
  "get_all_balances u = u_balances u"

definition get_all_locked_balances :: "user \<Rightarrow> (order_id, lock_entry) hmap" where
  "get_all_locked_balances u = u_locked u"

section \<open>Solvency\<close>

definition held_of :: "asset \<Rightarrow> lock_entry \<Rightarrow> nat" where
  "held_of a e = (if le_asset e = a then unat (le_amount e) else 0)"

definition held :: "user \<Rightarrow> asset \<Rightarrow> nat" where
  "held u a = (\<Sum>e\<leftarrow>u_locked u. held_of a (snd e))"

definition user_ok :: "user \<Rightarrow> bool" where
  "user_ok u \<longleftrightarrow> hm_ok (u_locked u) \<and> hm_ok (u_balances u) \<and>
     (\<forall>a. held u a \<le> unat (get_balance u a))"

lemma held_sum: "held u a =
    (\<Sum>e\<leftarrow>filter (\<lambda>e. le_asset e = a) (hm_values (u_locked u)). unat (le_amount e))"
proof -
  have "(\<Sum>e\<leftarrow>m. held_of a (snd e)) =
      (\<Sum>e\<leftarrow>filter (\<lambda>e. le_asset e = a) (hm_values m). unat (le_amount e))"
    for m :: "(order_id, lock_entry) hmap"
    by (induction m) (simp_all add: held_of_def hm_values_def)
  then show ?thesis by (simp add: held_def)
qed

lemma held_lt: "user_ok u \<Longrightarrow> held u a < 2 ^ 32"
proof -
  assume "user_ok u"
  then have "held u a \<le> unat (get_balance u a)" by (simp add: user_ok_def)
  then show "held u a < 2 ^ 32" using unat_u32_lt [of "get_balance u a"] by (simp del: unat_u32_lt)
qed

lemma unat_locked_sum: "user_ok u \<Longrightarrow> unat (locked_sum u a) = held u a"
proof -
  assume ok: "user_ok u"
  then have "held u a < 2 ^ 64" using held_lt [of u a] by simp
  then show ?thesis unfolding locked_sum_def held_sum
    by (subst unat_sum_list_u64) simp_all
qed

lemma unat_get_locked_balance: "user_ok u \<Longrightarrow> unat (get_locked_balance u a) = held u a"
proof -
  assume ok: "user_ok u"
  then have "u32_try_from (locked_sum u a) \<noteq> None"
    using held_lt [OF ok, of a] by (simp add: rust_int unat_locked_sum)
  then obtain q where q: "u32_try_from (locked_sum u a) = Some q" by blast
  then have "unat q = held u a" using unat_locked_sum [OF ok, of a] by (simp add: rust_int)
  with q show ?thesis by (simp add: get_locked_balance_def)
qed

lemma available_saturating:
  "get_available_balance u a = saturating_sub (get_balance u a) (get_locked_balance u a)"
  by (simp add: get_available_balance_def get_balance_def get_locked_balance_def Let_def)

lemma unat_available: "user_ok u \<Longrightarrow> unat (get_available_balance u a) = unat (get_balance u a) - held u a"
  by (simp add: available_saturating unat_saturating_sub unat_get_locked_balance)

text \<open>What each map update does to the sums.\<close>

lemma held_insert:
  "hm_ok (u_locked u) \<Longrightarrow>
     held (u\<lparr>u_locked := hm_insert i e (u_locked u)\<rparr>) a =
     held_of a e + held (u\<lparr>u_locked := hm_remove i (u_locked u)\<rparr>) a"
  unfolding held_def by (simp add: sum_hm_insert [of _ "held_of a"])

lemma held_remove:
  "hm_ok (u_locked u) \<Longrightarrow> hm_get (u_locked u) i = Some e \<Longrightarrow>
     held u a = held_of a e + held (u\<lparr>u_locked := hm_remove i (u_locked u)\<rparr>) a"
  unfolding held_def by (simp add: sum_hm_remove [of _ _ _ "held_of a"])

lemma held_remove_le: "hm_ok (u_locked u) \<Longrightarrow> held (u\<lparr>u_locked := hm_remove i (u_locked u)\<rparr>) a \<le> held u a"
proof (cases "hm_get (u_locked u) i")
  case (Some e)
  assume "hm_ok (u_locked u)"
  from held_remove [OF this Some, of a] show ?thesis by simp
qed (simp add: hm_remove_absent)

lemma held_balances [simp]: "held (u\<lparr>u_balances := b\<rparr>) a = held u a"
  by (simp add: held_def)

lemma get_balance_insert [simp]:
  "get_balance (u\<lparr>u_balances := hm_insert b q m\<rparr>) a = (if a = b then q else get_balance (u\<lparr>u_balances := m\<rparr>) a)"
  "get_balance (u\<lparr>u_locked := l\<rparr>) a = get_balance u a"
  by (simp_all add: get_balance_def)

section \<open>Every operation keeps accounts solvent\<close>

lemma user_new_ok: "user_ok (user_new i fresh)"
  by (simp add: user_ok_def user_new_def held_def)

lemma add_balance_cases:
  "add_balance u a n =
     (if unat (get_balance u a) + unat n < 2 ^ 32
      then (Inr (), u\<lparr>u_balances := hm_insert a (get_balance u a + n) (u_balances u)\<rparr>)
      else (Inl ''Balance overflow'', u))"
  by (simp add: add_balance_def checked_add_def get_balance_def Let_def)

lemma credit_ok:
  assumes "user_ok u" and "unat (get_balance u a) + unat n < 2 ^ 32"
  shows "user_ok (u\<lparr>u_balances := hm_insert a (get_balance u a + n) (u_balances u)\<rparr>)"
proof -
  have "unat (get_balance u a + n) = unat (get_balance u a) + unat n"
    using assms(2) by (simp add: unat_add_no_wrap)
  with assms(1) show ?thesis by (auto simp: user_ok_def intro: trans_le_add1)
qed

lemma add_balance_ok: "user_ok u \<Longrightarrow> user_ok (snd (add_balance u a n))"
  by (simp add: add_balance_cases credit_ok)

lemma lock_ok: "user_ok u \<Longrightarrow> user_ok (snd (lock u i a n))"
proof -
  assume ok: "user_ok u"
  then have hm: "hm_ok (u_locked u)" by (simp add: user_ok_def)
  have "held (u\<lparr>u_locked := hm_insert i \<lparr>le_asset = a, le_amount = n\<rparr> (u_locked u)\<rparr>) b \<le> unat (get_balance u b)"
    if "\<not> get_available_balance u a < n" for b
  proof -
    have "unat n \<le> unat (get_balance u a) - held u a"
      using that ok by (simp add: unat_available [symmetric] word_le_nat_alt not_less)
    moreover have "held u b \<le> unat (get_balance u b)" "held u a \<le> unat (get_balance u a)"
      using ok by (simp_all add: user_ok_def)
    ultimately show ?thesis
      using held_remove_le [OF hm, of i b] by (auto simp: held_insert [OF hm] held_of_def)
  qed
  with ok show "user_ok (snd (lock u i a n))" by (auto simp: lock_def user_ok_def)
qed

lemma unlock_order_ok: "user_ok u \<Longrightarrow> user_ok (snd (unlock_order u i))"
  using held_remove_le [of u i]
  by (auto simp: unlock_order_def user_ok_def split: option.splits intro: order.trans)

lemma substract_balance_cases:
  assumes "user_ok u"
  shows "substract_balance u a n =
     (if unat n \<le> unat (get_balance u a) - held u a
      then (Inr (), u\<lparr>u_balances := hm_insert a (get_balance u a - n) (hm_insert a (get_balance u a) (u_balances u))\<rparr>)
      else (Inl ''Insufficient Balance'', u))"
proof -
  have "get_available_balance u a < n \<longleftrightarrow> \<not> unat n \<le> unat (get_balance u a) - held u a"
    by (simp add: word_less_nat_alt unat_available [OF assms] not_le)
  moreover have "unat n \<le> unat (get_balance u a) - held u a \<Longrightarrow> n \<le> get_balance u a"
    by (simp add: word_le_nat_alt)
  ultimately show ?thesis
    by (simp add: substract_balance_def checked_sub_def get_balance_def Let_def)
qed

lemma substract_balance_ok: "user_ok u \<Longrightarrow> user_ok (snd (substract_balance u a n))"
proof -
  assume ok: "user_ok u"
  then have le: "held u a \<le> unat (get_balance u a)" by (simp add: user_ok_def)
  have "held u a \<le> unat (get_balance u a - n)" if "unat n \<le> unat (get_balance u a) - held u a"
  proof -
    have "n \<le> get_balance u a" using that by (simp add: word_le_nat_alt)
    then show ?thesis using that le by (simp add: unat_minus_le)
  qed
  with ok show ?thesis by (auto simp: substract_balance_cases [OF ok] user_ok_def)
qed

text \<open>The account after the lock of a fill has been reduced.\<close>

definition lock_reduced :: "user \<Rightarrow> order_id \<Rightarrow> lock_entry \<Rightarrow> quantity \<Rightarrow> user" where
  "lock_reduced u i e n =
     u\<lparr>u_locked := (if le_amount e = n then hm_remove i (u_locked u)
                   else hm_insert i (e\<lparr>le_amount := le_amount e - n\<rparr>) (u_locked u))\<rparr>"

lemma apply_fill_cases:
  "apply_fill u i da dn ca cn =
     (case hm_get (u_locked u) i of
        None \<Rightarrow> (Inl ''Order not found in locked orders'', u)
      | Some e \<Rightarrow>
          if le_asset e \<noteq> da then (Inl ''Locked asset mismatch'', u)
          else if le_amount e < dn then (Inl ''Locked amount insufficient for fill'', u)
          else if unat (get_balance u ca) + unat cn < 2 ^ 32 then
            (Inr (), (lock_reduced u i e dn)\<lparr>u_balances := hm_insert ca (get_balance u ca + cn) (u_balances u)\<rparr>)
          else (Inl ''Balance overflow on fill credit'', lock_reduced u i e dn))"
  by (auto simp: apply_fill_def lock_reduced_def checked_add_def get_balance_def Let_def split: option.splits)

lemma held_lock_reduced:
  assumes "hm_ok (u_locked u)" and "hm_get (u_locked u) i = Some e" and "n \<le> le_amount e"
  shows "held (lock_reduced u i e n) a + (if le_asset e = a then unat n else 0) = held u a"
proof -
  have "unat n \<le> unat (le_amount e)" using assms(3) by (simp add: word_le_nat_alt)
  then show ?thesis
    using held_remove [OF assms(1,2), of a] assms(3)
    by (auto simp: lock_reduced_def held_insert [OF assms(1)] held_of_def unat_minus_le)
qed

lemma lock_reduced_frame [simp]:
  "u_balances (lock_reduced u i e n) = u_balances u" "u_id (lock_reduced u i e n) = u_id u"
  "get_balance (lock_reduced u i e n) a = get_balance u a"
  by (simp_all add: lock_reduced_def get_balance_def)

lemma lock_reduced_ok:
  assumes "user_ok u" and "hm_get (u_locked u) i = Some e" and "n \<le> le_amount e"
  shows "user_ok (lock_reduced u i e n)"
proof -
  have hm: "hm_ok (u_locked u)" using assms(1) by (simp add: user_ok_def)
  then have "hm_ok (u_locked (lock_reduced u i e n))" by (auto simp: lock_reduced_def)
  moreover have "held (lock_reduced u i e n) a \<le> unat (get_balance u a)" for a
    using held_lock_reduced [OF hm assms(2,3), of a] assms(1)
    by (simp add: user_ok_def) (metis le_add1 order.trans)
  ultimately show ?thesis using assms(1) by (simp add: user_ok_def)
qed

lemma apply_fill_ok: "user_ok u \<Longrightarrow> user_ok (snd (apply_fill u i da dn ca cn))"
proof (cases "hm_get (u_locked u) i")
  case (Some e)
  assume ok: "user_ok u"
  have "user_ok ((lock_reduced u i e dn)\<lparr>u_balances := hm_insert ca (get_balance u ca + cn) (u_balances u)\<rparr>)"
    if "dn \<le> le_amount e" "unat (get_balance u ca) + unat cn < 2 ^ 32"
  proof -
    have "user_ok (lock_reduced u i e dn)" using ok Some that(1) by (rule lock_reduced_ok)
    from credit_ok [OF this, of ca cn] that(2) show ?thesis by simp
  qed
  with ok lock_reduced_ok [OF ok Some] Some show ?thesis
    by (auto simp: apply_fill_cases not_less)
qed (simp add: apply_fill_cases)

lemmas user_ops_ok = add_balance_ok lock_ok unlock_order_ok substract_balance_ok apply_fill_ok

section \<open>Histories of an account\<close>

inductive account_step :: "user \<Rightarrow> user \<Rightarrow> bool" where
  deposited: "add_balance u a n = (r, u') \<Longrightarrow> account_step u u'"
| withdrawn: "substract_balance u a n = (r, u') \<Longrightarrow> account_step u u'"
| locked: "lock u i a n = (r, u') \<Longrightarrow> account_step u u'"
| unlocked: "unlock_order u i = (r, u') \<Longrightarrow> account_step u u'"
| filled: "apply_fill u i da dn ca cn = (r, u') \<Longrightarrow> account_step u u'"

inductive account_reachable :: "user \<Rightarrow> bool" where
  opened: "account_reachable (user_new i fresh)"
| stepped: "account_reachable u \<Longrightarrow> account_step u u' \<Longrightarrow> account_reachable u'"

inductive_cases account_stepE: "account_step u u'"

lemma account_step_ok: "account_step u u' \<Longrightarrow> user_ok u \<Longrightarrow> user_ok u'"
  by (erule account_stepE) (metis user_ops_ok snd_conv)+

text \<open>
  C21. Accounts stay solvent: whatever sequence of deposits, withdrawals, locks, releases and fills an
  account goes through, errors included, the funds locked in an asset never exceed its balance.
\<close>

theorem accounts_stay_solvent:
  assumes "account_reachable u"
  shows "user_ok u"
  using assms by induction (auto intro: user_new_ok account_step_ok)

theorem accounts_stay_solvent_witness:
  "user_ok (snd (lock (snd (add_balance (user_new (Some 1) 0) USDC 10000)) 7 USDC 4000))"
proof (rule accounts_stay_solvent)
  have "account_reachable (snd (add_balance (user_new (Some 1) 0) USDC 10000))"
    by (rule account_reachable.stepped [OF account_reachable.opened account_step.deposited])
      (rule prod.collapse [symmetric])
  then show "account_reachable (snd (lock (snd (add_balance (user_new (Some 1) 0) USDC 10000)) 7 USDC 4000))"
    by (rule account_reachable.stepped [OF _ account_step.locked]) (rule prod.collapse [symmetric])
qed

section \<open>Available, locked and total\<close>

definition sample_user :: user where
  "sample_user = \<lparr>u_id = 1, u_locked = [(7, \<lparr>le_asset = USDC, le_amount = 400\<rparr>),
     (8, \<lparr>le_asset = ETH, le_amount = 5\<rparr>)], u_balances = [(USDC, 1000), (ETH, 5)]\<rparr>"

lemma sample_user_values:
  "get_balance sample_user USDC = 1000" "get_balance sample_user ETH = 5"
  "held sample_user USDC = 400" "held sample_user ETH = 5"
  "hm_get (u_locked sample_user) 7 = Some \<lparr>le_asset = USDC, le_amount = 400\<rparr>"
  "hm_get (u_locked sample_user) 9 = None"
  by (simp_all add: sample_user_def get_balance_def hm_get_def held_def held_of_def)

lemma sample_user_ok: "user_ok sample_user"
proof -
  have "held sample_user a \<le> unat (get_balance sample_user a)" for a
    by (cases a) (simp_all add: held_def sample_user_def held_of_def get_balance_def hm_get_def)
  then show ?thesis by (simp add: user_ok_def sample_user_def hm_ok_def)
qed

text \<open>
  C34. The documented balance equation holds without clamping: in a solvent account the available and
  the locked amount of an asset add up to its total, and the locked amount is the true sum over all
  orders, neither wrapped in 64 bits nor saturated in 32.
\<close>

theorem available_plus_locked_is_total:
  assumes "user_ok u"
  shows "unat (get_available_balance u a) + unat (get_locked_balance u a) = unat (get_balance u a) \<and>
    unat (get_locked_balance u a) = held u a"
  using assms by (simp add: unat_available unat_get_locked_balance user_ok_def)

theorem available_plus_locked_is_total_witness:
  "unat (get_available_balance sample_user USDC) + unat (get_locked_balance sample_user USDC) = 1000"
proof -
  from available_plus_locked_is_total [OF sample_user_ok, of USDC] show ?thesis
    by (simp add: sample_user_values)
qed

text \<open>
  Locking succeeds exactly when the available balance covers the amount, and releasing the lock
  of an order that held none before restores the account to what it was.
\<close>

lemma lock_then_unlock:
  assumes "user_ok u" and "hm_get (u_locked u) i = None"
  shows "if n \<le> get_available_balance u a
    then fst (lock u i a n) = Inr () \<and>
      unat (get_available_balance (snd (lock u i a n)) a) = unat (get_available_balance u a) - unat n \<and>
      unlock_order (snd (lock u i a n)) i = (Inr (), u)
    else lock u i a n = (Inl ''Insufficient balance'', u)"
proof (cases "n \<le> get_available_balance u a")
  case True
  let ?e = "\<lparr>le_asset = a, le_amount = n\<rparr>"
  have hm: "hm_ok (u_locked u)" using assms(1) by (simp add: user_ok_def)
  have l: "lock u i a n = (Inr (), u\<lparr>u_locked := hm_insert i ?e (u_locked u)\<rparr>)"
    using True by (simp add: lock_def)
  have "unlock_order (snd (lock u i a n)) i = (Inr (), u)"
    by (simp add: l unlock_order_def hm_remove_insert_fresh [OF assms(2)])
  moreover have "user_ok (snd (lock u i a n))" using assms(1) by (rule lock_ok)
  then have "unat (get_available_balance (snd (lock u i a n)) a) = unat (get_available_balance u a) - unat n"
    using hm_remove_absent [OF assms(2)] assms(1)
    by (simp add: unat_available l held_insert [OF hm] held_of_def)
  ultimately show ?thesis using True by (simp add: l)
qed (simp add: lock_def)

lemma lock_then_unlock_witness:
  "unlock_order (snd (lock sample_user 9 USDC 600)) 9 = (Inr (), sample_user)"
proof -
  have "600 \<le> get_available_balance sample_user USDC"
    by (simp add: word_le_nat_alt unat_available [OF sample_user_ok] sample_user_values)
  with lock_then_unlock [OF sample_user_ok sample_user_values(6), of 600 USDC] show ?thesis by simp
qed

text \<open>
  Withdrawals take exactly what they report and never locked funds: they succeed exactly when the
  available balance covers the amount, then lower total and available by it, and change nothing
  otherwise; the underflow error behind the check is unreachable.
\<close>

lemma withdrawal_exact:
  assumes "user_ok u"
  shows "if n \<le> get_available_balance u a
    then fst (substract_balance u a n) = Inr () \<and>
      unat (get_balance (snd (substract_balance u a n)) a) = unat (get_balance u a) - unat n \<and>
      unat (get_available_balance (snd (substract_balance u a n)) a) = unat (get_available_balance u a) - unat n \<and>
      (\<forall>b. held (snd (substract_balance u a n)) b = held u b \<and>
        (b \<noteq> a \<longrightarrow> get_balance (snd (substract_balance u a n)) b = get_balance u b))
    else substract_balance u a n = (Inl ''Insufficient Balance'', u)"
proof -
  have le: "n \<le> get_available_balance u a \<longleftrightarrow> unat n \<le> unat (get_balance u a) - held u a"
    by (simp add: word_le_nat_alt unat_available [OF assms])
  have "unat (get_balance u a - n) = unat (get_balance u a) - unat n"
    if "unat n \<le> unat (get_balance u a) - held u a"
    using that by (intro unat_minus_le) (simp add: word_le_nat_alt)
  then show ?thesis
    using substract_balance_ok [OF assms, of a n]
    by (auto simp: substract_balance_cases [OF assms] le unat_available assms)
qed

lemma withdrawal_exact_witness:
  "unat (get_balance (snd (substract_balance sample_user USDC 600)) USDC) = 400"
proof -
  have "600 \<le> get_available_balance sample_user USDC"
    by (simp add: word_le_nat_alt unat_available [OF sample_user_ok] sample_user_values)
  with withdrawal_exact [OF sample_user_ok, of 600 USDC] show ?thesis by (simp add: sample_user_values)
qed

text \<open>
  C26. What a fill does to an account: the spent amount leaves the lock and the received amount joins
  the balance, but the balance of the spent asset is not lowered, so what was spent is available to
  the account again.
\<close>

theorem apply_fill_releases_what_it_spends:
  assumes "user_ok u" and "hm_get (u_locked u) i = Some e" and "le_asset e = da" and "dn \<le> le_amount e"
    and "unat (get_balance u ca) + unat cn < 2 ^ 32" and "ca \<noteq> da"
  shows "fst (apply_fill u i da dn ca cn) = Inr () \<and> get_balance (snd (apply_fill u i da dn ca cn)) da = get_balance u da \<and>
      unat (get_balance (snd (apply_fill u i da dn ca cn)) ca) = unat (get_balance u ca) + unat cn \<and>
      held (snd (apply_fill u i da dn ca cn)) da + unat dn = held u da \<and>
      unat (get_available_balance (snd (apply_fill u i da dn ca cn)) da) =
        unat (get_available_balance u da) + unat dn"
proof -
  have r: "apply_fill u i da dn ca cn =
      (Inr (), (lock_reduced u i e dn)\<lparr>u_balances := hm_insert ca (get_balance u ca + cn) (u_balances u)\<rparr>)"
    using assms(2-5) by (simp add: apply_fill_cases not_less)
  have hm: "hm_ok (u_locked u)" using assms(1) by (simp add: user_ok_def)
  have da: "get_balance (snd (apply_fill u i da dn ca cn)) da = get_balance u da"
    using assms(6) by (simp add: r) (simp add: get_balance_def)
  have h: "held (snd (apply_fill u i da dn ca cn)) da + unat dn = held u da"
    using held_lock_reduced [OF hm assms(2,4), of da] assms(3) by (simp add: r)
  have "held u da \<le> unat (get_balance u da)" using assms(1) by (simp add: user_ok_def)
  moreover have "user_ok (snd (apply_fill u i da dn ca cn))" using assms(1) by (rule apply_fill_ok)
  ultimately have "unat (get_available_balance (snd (apply_fill u i da dn ca cn)) da) =
      unat (get_available_balance u da) + unat dn"
    using h by (simp add: unat_available da assms(1))
  with da h show ?thesis
    using assms(5) by (simp add: r unat_add_no_wrap)
qed

theorem apply_fill_releases_what_it_spends_witness:
  "get_balance (snd (apply_fill sample_user 7 USDC 300 ETH 3)) USDC = 1000 \<and>
   unat (get_available_balance (snd (apply_fill sample_user 7 USDC 300 ETH 3)) USDC) = 900"
proof -
  have avail: "unat (get_available_balance sample_user USDC) = 600"
    by (simp add: unat_available [OF sample_user_ok] sample_user_values)
  have amount: "300 \<le> le_amount \<lparr>le_asset = USDC, le_amount = 400\<rparr>" by simp
  from apply_fill_releases_what_it_spends [OF sample_user_ok sample_user_values(5) _ amount, of USDC ETH 3] avail
  show ?thesis by (simp add: sample_user_values)
qed

end
