(* ===== verification/CoreEngine.thy ===== *)
theory CoreEngine
  imports Placement Users
begin

text \<open>
  The in-memory engine (\<open>engine/mod.rs\<close>, \<open>CoreEngine\<close>): the order books by trading pair, the accounts
  by user, and the identifier generator, with every operation of the two engine traits. A method
  returns its result and the engine after the call; a panic ends the run with a fault.
\<close>

section \<open>State\<close>

record core_engine =
  orderbooks :: "(trading_pair, order_book) hmap"
  users :: "(user_id, user) hmap"
  ids :: generator

definition core_new :: "u64 \<Rightarrow> u64 \<Rightarrow> fault + core_engine" where
  "core_new m d =
     and_then (generator_new m d) (\<lambda>g. Inr \<lparr>orderbooks = [], users = [], ids = g\<rparr>)"

definition core_next_id :: "core_engine \<Rightarrow> clock \<Rightarrow> fault + order_id \<times> core_engine \<times> clock" where
  "core_next_id e c = and_then (next_id (ids e) c) (\<lambda>(i, g, c). Inr (i, e\<lparr>ids := g\<rparr>, c))"

section \<open>Validation\<close>

definition notional :: "price \<Rightarrow> quantity \<Rightarrow> quantity option" where
  "notional p q =
     (case checked_mul (price_as_u64 p) (as_u64 q) of None \<Rightarrow> None | Some n \<Rightarrow> u32_try_from n)"

definition validate_order :: "price \<Rightarrow> quantity \<Rightarrow> order_error + unit" where
  "validate_order p q =
     (if price_int p \<le> 0 \<or> q = 0 then Inl InvalidOrder
      else ok_or (map_option (\<lambda>_. ()) (notional p q)) InvalidOrder)"

definition lock_amount_for ::
  "trading_pair \<Rightarrow> side \<Rightarrow> price \<Rightarrow> quantity \<Rightarrow> order_error + asset \<times> quantity" where
  "lock_amount_for pair sd p q =
     (case sd of
        Buy \<Rightarrow> and_then (ok_or (notional p q) InvalidOrder) (\<lambda>n. Inr (quote pair, n))
      | Sell \<Rightarrow> Inr (base pair, q))"

section \<open>Settlement\<close>

type_synonym user_table = "(user_id, user) hmap"

definition settle_trade :: "user_table \<Rightarrow> trading_pair \<Rightarrow> trade \<Rightarrow> fault + user_table" where
  "settle_trade us pair t =
     (let bid = t_bid t; ask = t_ask t; exec_price = ti_price bid; q = ti_quantity bid in
      case notional exec_price q of
        None \<Rightarrow> Inl (Panic SettleNotionalOverflow)
      | Some n \<Rightarrow>
        (case hm_get us (ti_user bid) of
           None \<Rightarrow> Inl (Panic (SettleBuyerMissing (ti_user bid)))
         | Some buyer \<Rightarrow>
           (case apply_fill buyer (ti_order_id bid) (quote pair) n (base pair) q of
              (Inl msg, _) \<Rightarrow> Inl (Panic (SettleBuyerFailed (ti_order_id bid) msg))
            | (Inr _, buyer) \<Rightarrow>
              (let us = hm_insert (ti_user bid) buyer us in
               case hm_get us (ti_user ask) of
                 None \<Rightarrow> Inl (Panic (SettleSellerMissing (ti_user ask)))
               | Some seller \<Rightarrow>
                 (case apply_fill seller (ti_order_id ask) (base pair) q (quote pair) n of
                    (Inl msg, _) \<Rightarrow> Inl (Panic (SettleSellerFailed (ti_order_id ask) msg))
                  | (Inr _, seller) \<Rightarrow> Inr (hm_insert (ti_user ask) seller us))))))"

fun settle_trades :: "user_table \<Rightarrow> trading_pair \<Rightarrow> trade list \<Rightarrow> fault + user_table" where
  "settle_trades us pair [] = Inr us"
| "settle_trades us pair (t # ts) =
     and_then (settle_trade us pair t) (\<lambda>us. settle_trades us pair ts)"

section \<open>Pairs and orders\<close>

text \<open>\<open>users.get_mut(..)\<close> followed by a call whose result is dropped.\<close>

definition release :: "user_table \<Rightarrow> user_id \<Rightarrow> order_id \<Rightarrow> user_table" where
  "release us u i =
     (case hm_get us u of None \<Rightarrow> us | Some a \<Rightarrow> hm_insert u (snd (unlock_order a i)) us)"

definition core_add_trading_pair :: "core_engine \<Rightarrow> trading_pair \<Rightarrow> core_engine" where
  "core_add_trading_pair e pair =
     (if hm_contains (orderbooks e) pair then e
      else e\<lparr>orderbooks := hm_insert pair order_book_new (orderbooks e)\<rparr>)"

definition core_remove_trading_pair ::
  "core_engine \<Rightarrow> trading_pair \<Rightarrow> order_book option \<times> core_engine" where
  "core_remove_trading_pair e pair =
     (case hm_get (orderbooks e) pair of
        None \<Rightarrow> (None, e)
      | Some book \<Rightarrow>
          (Some book,
           e\<lparr>orderbooks := hm_remove pair (orderbooks e),
             users := fold (\<lambda>x us. release us (o_user x) (o_id x)) (get_all_orders book) (users e)\<rparr>))"

text \<open>
  The common end of \<open>add_order\<close> and \<open>modify_order\<close>: the book takes the order, its trades are settled,
  and what a FillAndKill order or a refused order still has locked is released.
\<close>

definition core_place ::
  "core_engine \<Rightarrow> trading_pair \<Rightarrow> order_book \<Rightarrow> order \<Rightarrow> clock
     \<Rightarrow> fault + (order_error + trade list option) \<times> core_engine \<times> clock" where
  "core_place e pair book x c =
     and_then (add_order book x (ids e) c) (\<lambda>(trades, book, g, c).
       let e = e\<lparr>orderbooks := hm_insert pair book (orderbooks e), ids := g\<rparr> in
       case trades of
         Some ts \<Rightarrow>
           and_then (settle_trades (users e) pair ts) (\<lambda>us.
             Inr (Inr (Some ts),
               e\<lparr>users := (if o_type x = FillAndKill then release us (o_user x) (o_id x) else us)\<rparr>, c))
       | None \<Rightarrow> Inr (Inr None, e\<lparr>users := release (users e) (o_user x) (o_id x)\<rparr>, c))"

definition core_add_order ::
  "core_engine \<Rightarrow> trading_pair \<Rightarrow> order \<Rightarrow> clock
     \<Rightarrow> fault + (order_error + trade list option) \<times> core_engine \<times> clock" where
  "core_add_order e pair x c =
     (case validate_order (o_price x) (o_initial x) of
        Inl err \<Rightarrow> Inr (Inl err, e, c)
      | Inr _ \<Rightarrow>
        (case hm_get (orderbooks e) pair of
           None \<Rightarrow> Inr (Inl NoSuchPair, e, c)
         | Some book \<Rightarrow>
           if has_order book (o_id x) then Inr (Inl InvalidOrder, e, c)
           else
             (case lock_amount_for pair (o_side x) (o_price x) (o_initial x) of
                Inl err \<Rightarrow> Inr (Inl err, e, c)
              | Inr (lock_asset, lock_amount) \<Rightarrow>
                (case hm_get (users e) (o_user x) of
                   None \<Rightarrow> Inr (Inl NoSuchUser, e, c)
                 | Some u \<Rightarrow>
                   (case lock u (o_id x) lock_asset lock_amount of
                      (Inl _, u) \<Rightarrow>
                        Inr (Inl InsufficientBalance, e\<lparr>users := hm_insert (o_user x) u (users e)\<rparr>, c)
                    | (Inr _, u) \<Rightarrow>
                        core_place (e\<lparr>users := hm_insert (o_user x) u (users e)\<rparr>) pair book x c)))))"

definition core_cancel_order :: "core_engine \<Rightarrow> trading_pair \<Rightarrow> order_id \<Rightarrow> bool \<times> core_engine" where
  "core_cancel_order e pair i =
     (case hm_get (orderbooks e) pair of
        None \<Rightarrow> (False, e)
      | Some book \<Rightarrow>
        (case cancel_order book i of
           (None, book) \<Rightarrow> (False, e\<lparr>orderbooks := hm_insert pair book (orderbooks e)\<rparr>)
         | (Some x, book) \<Rightarrow>
             (True, e\<lparr>orderbooks := hm_insert pair book (orderbooks e),
                     users := release (users e) (o_user x) i\<rparr>)))"

text \<open>
  \<open>modify_order\<close>: the checks, the pre-check of the balance with the old lock counted in, then the old
  order leaves the book and the lock is exchanged before the replacement is placed.
\<close>

definition core_modify_order ::
  "core_engine \<Rightarrow> trading_pair \<Rightarrow> order_modify \<Rightarrow> clock
     \<Rightarrow> fault + (order_error + trade list option) \<times> core_engine \<times> clock" where
  "core_modify_order e pair m c =
     (case validate_order (m_price m) (m_quantity m) of
        Inl err \<Rightarrow> Inr (Inl err, e, c)
      | Inr _ \<Rightarrow>
        (case hm_get (orderbooks e) pair of
           None \<Rightarrow> Inr (Inl NoSuchPair, e, c)
         | Some book \<Rightarrow>
           (case get_order book (m_id m) of
              None \<Rightarrow> Inr (Inl InvalidOrder, e, c)
            | Some old \<Rightarrow>
              if m_user m \<noteq> o_user old \<or> m_side m \<noteq> o_side old then Inr (Inl InvalidOrder, e, c)
              else
                (case lock_amount_for pair (m_side m) (m_price m) (m_quantity m) of
                   Inl err \<Rightarrow> Inr (Inl err, e, c)
                 | Inr (new_asset, new_amount) \<Rightarrow>
                   (case hm_get (users e) (o_user old) of
                      None \<Rightarrow> Inr (Inl NoSuchUser, e, c)
                    | Some u \<Rightarrow>
                      (let old_locked = (case hm_get (get_all_locked_balances u) (m_id m) of
                                           Some l \<Rightarrow> le_amount l | None \<Rightarrow> 0);
                           available_after_unlock =
                             as_u64 (get_available_balance u new_asset) + as_u64 old_locked
                       in if available_after_unlock < as_u64 new_amount then
                            Inr (Inl InsufficientBalance, e, c)
                          else
                            (let book = snd (cancel_order book (m_id m));
                                 u = snd (unlock_order u (m_id m));
                                 e = e\<lparr>orderbooks := hm_insert pair book (orderbooks e)\<rparr>
                             in case lock u (m_id m) new_asset new_amount of
                                  (Inl _, u) \<Rightarrow>
                                    Inr (Inl InsufficientBalance,
                                      e\<lparr>users := hm_insert (o_user old) u (users e)\<rparr>, c)
                                | (Inr _, u) \<Rightarrow>
                                    and_then
                                      (order_new (m_id m) (o_type old) (m_side m) (m_status m)
                                         (m_price m) (m_quantity m) (m_user m) c)
                                      (\<lambda>(x, c). core_place
                                         (e\<lparr>users := hm_insert (o_user old) u (users e)\<rparr>)
                                         pair book x c))))))))"

definition core_get_order_info :: "core_engine \<Rightarrow> trading_pair \<Rightarrow> order_book_level_info option" where
  "core_get_order_info e pair = map_option get_order_info (hm_get (orderbooks e) pair)"

definition core_size :: "core_engine \<Rightarrow> trading_pair \<Rightarrow> nat option" where
  "core_size e pair = map_option book_size (hm_get (orderbooks e) pair)"

section \<open>Users\<close>

definition core_add_user :: "core_engine \<Rightarrow> user_id \<Rightarrow> core_engine" where
  "core_add_user e u =
     (if hm_contains (users e) u then e
      else e\<lparr>users := hm_insert u (user_new (Some u) 0) (users e)\<rparr>)"

fun cancel_in_books ::
  "user_id \<Rightarrow> (trading_pair, order_book) hmap \<Rightarrow> user_table
     \<Rightarrow> (trading_pair, order_book) hmap \<times> user_table" where
  "cancel_in_books u [] us = ([], us)"
| "cancel_in_books u ((pair, book) # books) us =
     (let (cancelled_ids, book) = cancel_orders_for_user book u;
          us = (case hm_get us u of
                  None \<Rightarrow> us
                | Some a \<Rightarrow> hm_insert u (fold (\<lambda>i a. snd (unlock_order a i)) cancelled_ids a) us);
          (books, us) = cancel_in_books u books us
      in ((pair, book) # books, us))"

definition core_remove_user ::
  "core_engine \<Rightarrow> user_id \<Rightarrow> (user_error + (asset, quantity) hmap) \<times> core_engine" where
  "core_remove_user e u =
     (let (books, us) = cancel_in_books u (orderbooks e) (users e);
          e = e\<lparr>orderbooks := books, users := hm_remove u us\<rparr>
      in case hm_get us u of
           None \<Rightarrow> (Inl UserNoSuchUser, e)
         | Some a \<Rightarrow> (Inr (get_all_balances a), e))"

definition core_deposit_balance ::
  "core_engine \<Rightarrow> user_id \<Rightarrow> asset \<Rightarrow> quantity \<Rightarrow> (user_error + unit) \<times> core_engine" where
  "core_deposit_balance e u a n =
     (case hm_get (users e) u of
        None \<Rightarrow> (Inl UserNoSuchUser, e)
      | Some acc \<Rightarrow>
        (case add_balance acc a n of
           (Inl _, acc) \<Rightarrow> (Inl UserBalanceOverflow, e\<lparr>users := hm_insert u acc (users e)\<rparr>)
         | (Inr _, acc) \<Rightarrow> (Inr (), e\<lparr>users := hm_insert u acc (users e)\<rparr>)))"

definition core_withdraw_balance ::
  "core_engine \<Rightarrow> user_id \<Rightarrow> asset \<Rightarrow> quantity \<Rightarrow> (user_error + unit) \<times> core_engine" where
  "core_withdraw_balance e u a n =
     (case hm_get (users e) u of
        None \<Rightarrow> (Inl UserNoSuchUser, e)
      | Some acc \<Rightarrow>
        (case substract_balance acc a n of
           (Inl _, acc) \<Rightarrow> (Inl UserInsufficientBalance, e\<lparr>users := hm_insert u acc (users e)\<rparr>)
         | (Inr _, acc) \<Rightarrow> (Inr (), e\<lparr>users := hm_insert u acc (users e)\<rparr>)))"

definition core_get_balance :: "core_engine \<Rightarrow> user_id \<Rightarrow> asset \<Rightarrow> user_error + quantity" where
  "core_get_balance e u a =
     (case hm_get (users e) u of
        None \<Rightarrow> Inl UserNoSuchUser | Some acc \<Rightarrow> Inr (get_available_balance acc a))"

definition core_get_total_balance :: "core_engine \<Rightarrow> user_id \<Rightarrow> asset \<Rightarrow> user_error + quantity" where
  "core_get_total_balance e u a =
     (case hm_get (users e) u of
        None \<Rightarrow> Inl UserNoSuchUser | Some acc \<Rightarrow> Inr (get_balance acc a))"

end
