(* ===== verification/Settlement.thy ===== *)
theory Settlement
  imports CoreEngine
begin

text \<open>
  Settlement of trades against the accounts (\<open>CoreEngine::settle_trades\<close>). Every order that matching
  touches is secured by a lock of its owner; a crossing of two secured orders settles, unless a
  credit overflows, and leaves what remains of them secured.
\<close>

section \<open>Locks and balances of the user table\<close>

definition lock_at :: "user_table \<Rightarrow> user_id \<Rightarrow> order_id \<Rightarrow> lock_entry option" where
  "lock_at us u i = (case hm_get us u of None \<Rightarrow> None | Some a \<Rightarrow> hm_get (u_locked a) i)"

definition wealth :: "user_table \<Rightarrow> user_id \<Rightarrow> asset \<Rightarrow> nat" where
  "wealth us u a = (case hm_get us u of None \<Rightarrow> 0 | Some acc \<Rightarrow> unat (get_balance acc a))"

definition table_ok :: "user_table \<Rightarrow> bool" where
  "table_ok us \<longleftrightarrow> hm_ok us \<and> (\<forall>u a. hm_get us u = Some a \<longrightarrow> user_ok a \<and> u_id a = u)"

lemma table_ok_get: "table_ok us \<Longrightarrow> hm_get us u = Some a \<Longrightarrow> user_ok a \<and> u_id a = u"
  by (simp add: table_ok_def)

lemma table_ok_Nil [simp]: "table_ok []"
  by (simp add: table_ok_def)

lemma table_ok_insert: "table_ok us \<Longrightarrow> user_ok a \<Longrightarrow> u_id a = u \<Longrightarrow> table_ok (hm_insert u a us)"
  by (auto simp: table_ok_def)

lemma table_ok_remove: "table_ok us \<Longrightarrow> table_ok (hm_remove u us)"
  by (auto simp: table_ok_def)

lemma lock_at_insert [simp]:
  "lock_at (hm_insert u a us) v i = (if v = u then hm_get (u_locked a) i else lock_at us v i)"
  by (simp add: lock_at_def)

lemma wealth_insert [simp]:
  "wealth (hm_insert u acc us) v a = (if v = u then unat (get_balance acc a) else wealth us v a)"
  by (simp add: wealth_def)

lemma lock_at_SomeE:
  assumes "lock_at us u i = Some e"
  obtains a where "hm_get us u = Some a" and "hm_get (u_locked a) i = Some e"
  using assms by (auto simp: lock_at_def split: option.splits)

section \<open>Notionals\<close>

lemma notional_Some:
  assumes "0 \<le> price_int p"
  shows "notional p q = Some n \<longleftrightarrow> nat (price_int p) * unat q = unat n"
proof -
  have p: "unat (price_as_u64 p) = nat (price_int p)"
    using price_as_u64_nonneg [OF assms] by simp
  have "nat (price_int p) * unat q < 2 ^ 64"
  proof -
    have "nat (price_int p) \<le> 2 ^ 31" using price_int_bound [of p] by simp
    moreover have "unat q \<le> 2 ^ 32" using unat_u32_le [of q] by (simp del: unat_u32_le)
    ultimately have "nat (price_int p) * unat q \<le> 2 ^ 31 * 2 ^ 32" by (rule mult_le_mono)
    then show ?thesis by simp
  qed
  then have "checked_mul (price_as_u64 p) (as_u64 q) = Some (price_as_u64 p * as_u64 q)"
    "unat (price_as_u64 p * as_u64 q) = nat (price_int p) * unat q"
    by (simp_all add: checked_mul_def p unat_word_ariths)
  then show ?thesis by (auto simp: notional_def rust_int)
qed

lemma notional_fits:
  assumes "0 \<le> price_int p" and "nat (price_int p) * unat q < 2 ^ 32"
  obtains n where "notional p q = Some n" and "unat n = nat (price_int p) * unat q"
proof
  let ?n = "of_nat (nat (price_int p) * unat q) :: u32"
  show "unat ?n = nat (price_int p) * unat q"
    using assms(2) by (simp only: unsigned_of_nat) (simp add: take_bit_nat_eq_self)
  then show "notional p q = Some ?n" by (simp add: notional_Some [OF assms(1)])
qed

section \<open>Settling one trade\<close>

definition reduced :: "lock_entry \<Rightarrow> quantity \<Rightarrow> lock_entry option" where
  "reduced e n = (if le_amount e = n then None else Some (e\<lparr>le_amount := le_amount e - n\<rparr>))"

definition credit_overflow :: "fault \<Rightarrow> bool" where
  "credit_overflow f \<longleftrightarrow>
     (\<exists>i. f = Panic (SettleBuyerFailed i ''Balance overflow on fill credit'') \<or>
          f = Panic (SettleSellerFailed i ''Balance overflow on fill credit''))"

lemma lock_reduced_get [simp]:
  "hm_get (u_locked (lock_reduced u i e n)) j = (if j = i then reduced e n else hm_get (u_locked u) j)"
  by (simp add: lock_reduced_def reduced_def)

text \<open>Both legs of a settled trade, on locks and on balances.\<close>

definition settled :: "trading_pair \<Rightarrow> trade \<Rightarrow> user_table \<Rightarrow> user_table \<Rightarrow> bool" where
  "settled pair t us us' \<longleftrightarrow>
     (\<exists>n. notional (ti_price (t_bid t)) (ti_quantity (t_bid t)) = Some n \<and>
       (\<forall>u i. lock_at us' u i =
          (if u = ti_user (t_bid t) \<and> i = ti_order_id (t_bid t)
           then Option.bind (lock_at us u i) (\<lambda>e. reduced e n)
           else if u = ti_user (t_ask t) \<and> i = ti_order_id (t_ask t)
           then Option.bind (lock_at us u i) (\<lambda>e. reduced e (ti_quantity (t_bid t)))
           else lock_at us u i)) \<and>
       (\<forall>u a. wealth us' u a = wealth us u a +
          (if u = ti_user (t_bid t) \<and> a = base pair then unat (ti_quantity (t_bid t)) else 0) +
          (if u = ti_user (t_ask t) \<and> a = quote pair then unat n else 0)))"

lemma settle_trade_effect:
  assumes us: "table_ok us" and n: "notional (ti_price (t_bid t)) (ti_quantity (t_bid t)) = Some n"
    and ne: "ti_user (t_bid t) \<noteq> ti_user (t_ask t)"
    and eb: "lock_at us (ti_user (t_bid t)) (ti_order_id (t_bid t)) = Some eb"
      "le_asset eb = quote pair" "n \<le> le_amount eb"
    and ea: "lock_at us (ti_user (t_ask t)) (ti_order_id (t_ask t)) = Some ea"
      "le_asset ea = base pair" "ti_quantity (t_bid t) \<le> le_amount ea"
  shows "case settle_trade us pair t of Inl f \<Rightarrow> credit_overflow f
    | Inr us' \<Rightarrow> table_ok us' \<and> settled pair t us us'"
proof -
  define q where "q = ti_quantity (t_bid t)"
  obtain buyer where b: "hm_get us (ti_user (t_bid t)) = Some buyer"
    "hm_get (u_locked buyer) (ti_order_id (t_bid t)) = Some eb" using eb(1) by (rule lock_at_SomeE)
  obtain seller where s: "hm_get us (ti_user (t_ask t)) = Some seller"
    "hm_get (u_locked seller) (ti_order_id (t_ask t)) = Some ea" using ea(1) by (rule lock_at_SomeE)
  let ?b = "(lock_reduced buyer (ti_order_id (t_bid t)) eb n)
    \<lparr>u_balances := hm_insert (base pair) (get_balance buyer (base pair) + q) (u_balances buyer)\<rparr>"
  let ?s = "(lock_reduced seller (ti_order_id (t_ask t)) ea q)
    \<lparr>u_balances := hm_insert (quote pair) (get_balance seller (quote pair) + n) (u_balances seller)\<rparr>"
  have buyer: "apply_fill buyer (ti_order_id (t_bid t)) (quote pair) n (base pair) q =
      (if unat (get_balance buyer (base pair)) + unat q < 2 ^ 32 then (Inr (), ?b)
       else (Inl ''Balance overflow on fill credit'', lock_reduced buyer (ti_order_id (t_bid t)) eb n))"
    using b(2) eb(2,3) by (simp add: apply_fill_cases not_less)
  have seller: "apply_fill seller (ti_order_id (t_ask t)) (base pair) q (quote pair) n =
      (if unat (get_balance seller (quote pair)) + unat n < 2 ^ 32 then (Inr (), ?s)
       else (Inl ''Balance overflow on fill credit'', lock_reduced seller (ti_order_id (t_ask t)) ea q))"
    using s(2) ea(2,3) by (simp add: apply_fill_cases not_less q_def)
  have run: "settle_trade us pair t =
      (if \<not> unat (get_balance buyer (base pair)) + unat q < 2 ^ 32 then
         Inl (Panic (SettleBuyerFailed (ti_order_id (t_bid t)) ''Balance overflow on fill credit''))
       else if \<not> unat (get_balance seller (quote pair)) + unat n < 2 ^ 32 then
         Inl (Panic (SettleSellerFailed (ti_order_id (t_ask t)) ''Balance overflow on fill credit''))
       else Inr (hm_insert (ti_user (t_ask t)) ?s (hm_insert (ti_user (t_bid t)) ?b us)))"
    using n b(1) s(1) ne buyer seller by (simp add: settle_trade_def Let_def q_def)
  show ?thesis
  proof (cases "unat (get_balance buyer (base pair)) + unat q < 2 ^ 32 \<and>
      unat (get_balance seller (quote pair)) + unat n < 2 ^ 32")
    case True
    have acc: "user_ok buyer" "u_id buyer = ti_user (t_bid t)" "user_ok seller" "u_id seller = ti_user (t_ask t)"
      using table_ok_get [OF us b(1)] table_ok_get [OF us s(1)] by simp_all
    have "user_ok ?b" "user_ok ?s"
      using apply_fill_ok [OF acc(1)] buyer apply_fill_ok [OF acc(3)] seller True by (metis snd_conv)+
    then have ok: "table_ok (hm_insert (ti_user (t_ask t)) ?s (hm_insert (ti_user (t_bid t)) ?b us))"
      using us acc by (auto intro!: table_ok_insert)
    have wb: "unat (get_balance buyer (base pair) + q) = unat (get_balance buyer (base pair)) + unat q"
      "unat (get_balance seller (quote pair) + n) = unat (get_balance seller (quote pair)) + unat n"
      using True by (simp_all add: unat_add_no_wrap)
    have bal: "wealth us (ti_user (t_bid t)) a = unat (get_balance buyer a)"
      "wealth us (ti_user (t_ask t)) a = unat (get_balance seller a)" for a
      using b(1) s(1) by (simp_all add: wealth_def)
    have gb: "get_balance ?b a = (if a = base pair then get_balance buyer a + q else get_balance buyer a)"
      "get_balance ?s a = (if a = quote pair then get_balance seller a + n else get_balance seller a)" for a
      by (simp_all add: get_balance_def)
    have lb: "lock_at us (ti_user (t_bid t)) i = hm_get (u_locked buyer) i"
      "lock_at us (ti_user (t_ask t)) i = hm_get (u_locked seller) i" for i
      using b(1) s(1) by (simp_all add: lock_at_def)
    have "settled pair t us (hm_insert (ti_user (t_ask t)) ?s (hm_insert (ti_user (t_bid t)) ?b us))"
      unfolding settled_def q_def [symmetric]
    proof (intro exI [of _ n] conjI allI)
      show "notional (ti_price (t_bid t)) q = Some n" using n by (simp add: q_def)
    next
      fix u i
      show "lock_at (hm_insert (ti_user (t_ask t)) ?s (hm_insert (ti_user (t_bid t)) ?b us)) u i =
        (if u = ti_user (t_bid t) \<and> i = ti_order_id (t_bid t) then Option.bind (lock_at us u i) (\<lambda>e. reduced e n)
         else if u = ti_user (t_ask t) \<and> i = ti_order_id (t_ask t) then Option.bind (lock_at us u i) (\<lambda>e. reduced e q)
         else lock_at us u i)"
        using ne b(2) s(2) by (auto simp: lb)
    next
      fix u a
      show "wealth (hm_insert (ti_user (t_ask t)) ?s (hm_insert (ti_user (t_bid t)) ?b us)) u a = wealth us u a +
        (if u = ti_user (t_bid t) \<and> a = base pair then unat q else 0) +
        (if u = ti_user (t_ask t) \<and> a = quote pair then unat n else 0)"
        using ne by (auto simp: bal gb wb simp del: get_balance_insert)
    qed
    with True ok show ?thesis by (simp add: run)
  next
    case False
    then show ?thesis by (auto simp: run credit_overflow_def)
  qed
qed

section \<open>Orders secured by locks\<close>

definition lock_asset :: "trading_pair \<Rightarrow> side \<Rightarrow> asset" where
  "lock_asset pair sd = (case sd of Buy \<Rightarrow> quote pair | Sell \<Rightarrow> base pair)"

definition need :: "order \<Rightarrow> nat" where
  "need x = (case o_side x of
     Buy \<Rightarrow> nat (price_int (o_price x)) * unat (o_remaining x) | Sell \<Rightarrow> unat (o_remaining x))"

definition secured :: "trading_pair \<Rightarrow> user_table \<Rightarrow> order \<Rightarrow> bool" where
  "secured pair us x \<longleftrightarrow> 0 < price_int (o_price x) \<and>
     (\<exists>e. lock_at us (o_user x) (o_id x) = Some e \<and> le_asset e = lock_asset pair (o_side x) \<and>
       need x \<le> unat (le_amount e))"

lemma securedE:
  assumes "secured pair us x"
  obtains e where "lock_at us (o_user x) (o_id x) = Some e" and "le_asset e = lock_asset pair (o_side x)"
    and "need x \<le> unat (le_amount e)" and "0 < price_int (o_price x)"
  using assms by (auto simp: secured_def)

lemma secured_cong: "lock_at us' (o_user x) (o_id x) = lock_at us (o_user x) (o_id x) \<Longrightarrow>
    secured pair us' x = secured pair us x"
  by (simp add: secured_def)

text \<open>The lock left after a fill still secures what is left of the order.\<close>

lemma secured_leftover:
  assumes sec: "secured pair us x" and y: "y \<in># leftover x q" and q: "q \<le> o_remaining x"
    and e: "lock_at us (o_user x) (o_id x) = Some e"
    and n: "case o_side x of Buy \<Rightarrow> unat n \<le> nat (price_int (o_price x)) * unat q | Sell \<Rightarrow> n = q"
    and us': "lock_at us' (o_user x) (o_id x) = reduced e n"
  shows "secured pair us' y"
proof -
  from leftover_elim [OF y q] have t: "same_terms y x"
    and rem: "o_remaining y = o_remaining x - q" "o_remaining y \<noteq> 0" by blast+
  note xy = same_termsD [OF t]
  have pos: "0 < nat (price_int (o_price x))" and enough: "need x \<le> unat (le_amount e)"
    and asset: "le_asset e = lock_asset pair (o_side x)"
    using sec e by (auto elim!: securedE)
  have r: "unat (o_remaining y) = unat (o_remaining x) - unat q" "unat q \<le> unat (o_remaining x)"
    using q by (simp_all add: rem(1) unat_minus_le word_le_nat_alt)
  have "0 < unat (o_remaining y)" using rem(2) by (simp add: unat_gt_0)
  then have "0 < need y" using pos by (simp add: need_def xy split: side.split)
  moreover have fit: "need y + unat n \<le> unat (le_amount e)"
    using n enough r
    by (auto simp: need_def xy diff_mult_distrib2 split: side.splits)
  ultimately have ne: "le_amount e \<noteq> n" and "n \<le> le_amount e" by (auto simp: word_le_nat_alt)
  then have "need y \<le> unat (le_amount e - n)" using fit by (simp add: unat_minus_le)
  with ne us' pos show ?thesis by (auto simp: secured_def reduced_def xy asset)
qed

section \<open>Settling the trades of a run\<close>

definition distinct_ids :: "order multiset \<Rightarrow> bool" where
  "distinct_ids M \<longleftrightarrow> (\<forall>i. count (image_mset o_id M) i \<le> 1)"

lemma distinct_ids_add:
  "distinct_ids (add_mset x M) \<longleftrightarrow> (\<forall>y \<in># M. o_id y \<noteq> o_id x) \<and> distinct_ids M"
proof -
  have zero: "(\<forall>y \<in># M. o_id y \<noteq> o_id x) \<longleftrightarrow> count (image_mset o_id M) (o_id x) = 0"
    unfolding count_eq_zero_iff by (metis (mono_tags, lifting) imageE image_eqI set_image_mset)
  have "count (image_mset o_id (add_mset x M)) i = (if i = o_id x then 1 else 0) + count (image_mset o_id M) i" for i
    by simp
  then show ?thesis unfolding distinct_ids_def zero by (auto split: if_splits)
qed

lemma distinct_ids_sub: "distinct_ids M \<Longrightarrow> image_mset o_id M' \<subseteq># image_mset o_id M \<Longrightarrow> distinct_ids M'"
  unfolding distinct_ids_def by (meson mset_subset_eq_count order_trans)

lemma leftover_ids: "image_mset o_id (leftover x q) \<subseteq># {#o_id x#}"
  by (simp add: leftover_def)

definition in_play :: "abstract_book \<Rightarrow> order multiset" where
  "in_play s = bids_in s + asks_in s"

definition backed :: "trading_pair \<Rightarrow> user_table \<Rightarrow> abstract_book \<Rightarrow> bool" where
  "backed pair us s \<longleftrightarrow> table_ok us \<and> distinct_ids (in_play s) \<and>
     (\<forall>x \<in># bids_in s. o_side x = Buy) \<and> (\<forall>x \<in># asks_in s. o_side x = Sell) \<and>
     (\<forall>x \<in># in_play s. secured pair us x)"

text \<open>What the trades of a run credit to an account.\<close>

definition credit_of :: "trading_pair \<Rightarrow> user_id \<Rightarrow> asset \<Rightarrow> trade \<Rightarrow> nat" where
  "credit_of pair u a t =
     (if u = ti_user (t_bid t) \<and> a = base pair then unat (ti_quantity (t_bid t)) else 0) +
     (if u = ti_user (t_ask t) \<and> a = quote pair
      then unat (the (notional (ti_price (t_bid t)) (ti_quantity (t_bid t)))) else 0)"

definition credits :: "trading_pair \<Rightarrow> trade list \<Rightarrow> user_id \<Rightarrow> asset \<Rightarrow> nat" where
  "credits pair ts u a = (\<Sum>t\<leftarrow>ts. credit_of pair u a t)"

lemma settled_wealth: "settled pair t us us' \<Longrightarrow> wealth us' u a = wealth us u a + credit_of pair u a t"
  unfolding settled_def credit_of_def by auto

definition untouched :: "order multiset \<Rightarrow> user_table \<Rightarrow> user_table \<Rightarrow> bool" where
  "untouched M us us' \<longleftrightarrow> (\<forall>u i. i \<notin># image_mset o_id M \<longrightarrow> lock_at us' u i = lock_at us u i)"

text \<open>A crossing of secured orders settles, or ends in the overflow of a credit.\<close>

lemma crossing_settles:
  assumes "crossing sd s t s'" and bk: "backed pair us s"
  shows "case settle_trade us pair t of Inl f \<Rightarrow> credit_overflow f
    | Inr us' \<Rightarrow> settled pair t us us' \<and> backed pair us' s' \<and> untouched (in_play s) us us' \<and>
        image_mset o_id (in_play s') \<subseteq># image_mset o_id (in_play s)"
  using assms(1)
proof cases
  case (cross b a q B A om)
  have play: "in_play s = add_mset b (add_mset a (B + A))" by (simp add: in_play_def cross(1))
  have play': "in_play s' = leftover b q + leftover a q + (B + A)" by (simp add: in_play_def cross(2))
  have sides: "o_side b = Buy" "o_side a = Sell" and us: "table_ok us"
    and sec: "secured pair us b" "secured pair us a"
    and fresh: "o_id a \<noteq> o_id b" "\<forall>y \<in># B + A. o_id y \<noteq> o_id b \<and> o_id y \<noteq> o_id a"
    using bk unfolding backed_def play by (auto simp: cross(1) distinct_ids_add)
  have q: "q \<le> o_remaining b" "q \<le> o_remaining a" using cross(5) by (auto simp: min_def)
  obtain eb where eb: "lock_at us (o_user b) (o_id b) = Some eb" "le_asset eb = quote pair"
    "need b \<le> unat (le_amount eb)" and pb: "0 < price_int (o_price b)"
    using sec(1) sides by (auto simp: lock_asset_def elim!: securedE)
  obtain ea where ea: "lock_at us (o_user a) (o_id a) = Some ea" "le_asset ea = base pair"
    "need a \<le> unat (le_amount ea)" and pa: "0 < price_int (o_price a)"
    using sec(2) sides by (auto simp: lock_asset_def elim!: securedE)
  define p where "p = (case sd of Buy \<Rightarrow> o_price a | Sell \<Rightarrow> o_price b)"
  note t = trade_ofD [OF cross(6), folded p_def]
  have p: "0 < price_int p" "nat (price_int p) \<le> nat (price_int (o_price b))"
    using pa pb cross(4) by (cases sd; simp add: p_def less_eq_price_def)+
  then have cost: "nat (price_int p) * unat q \<le> nat (price_int (o_price b)) * unat q" by simp
  also have le: "\<dots> \<le> need b" using q(1) by (simp add: need_def sides word_le_nat_alt)
  also have "\<dots> \<le> unat (le_amount eb)" by (rule eb(3))
  finally have "nat (price_int p) * unat q < 2 ^ 32"
    using unat_u32_lt [of "le_amount eb"] by (simp del: unat_u32_lt)
  then obtain n where n: "notional p q = Some n" "unat n = nat (price_int p) * unat q"
    using p(1) by (metis less_imp_le notional_fits)
  have "unat n \<le> unat (le_amount eb)" using order.trans [OF order.trans [OF cost le] eb(3)] by (simp add: n(2))
  then have "n \<le> le_amount eb" by (simp add: word_le_nat_alt)
  moreover have "q \<le> le_amount ea" using ea(3) q(2) by (simp add: word_le_nat_alt need_def sides)
  ultimately have eff: "case settle_trade us pair t of Inl f \<Rightarrow> credit_overflow f
      | Inr us' \<Rightarrow> table_ok us' \<and> settled pair t us us'"
    using n(1) cross(3) eb(1,2) ea(1,2) by (intro settle_trade_effect [OF us, where n = n and eb = eb and ea = ea]) (simp_all add: t)
  show ?thesis
  proof (cases "settle_trade us pair t")
    case (Inr us')
    with eff have us': "table_ok us'" and st: "settled pair t us us'" by simp_all
    from st n(1) have lk: "lock_at us' u i =
       (if u = o_user b \<and> i = o_id b then Option.bind (lock_at us u i) (\<lambda>e. reduced e n)
        else if u = o_user a \<and> i = o_id a then Option.bind (lock_at us u i) (\<lambda>e. reduced e q)
        else lock_at us u i)" for u i
      unfolding settled_def by (simp add: t)
    have "secured pair us' y" if "y \<in># leftover b q" for y
      using that q(1) eb(1) by (rule secured_leftover [OF sec(1), where n = n])
        (use cost in \<open>simp_all add: sides lk eb(1) n(2)\<close>)
    moreover have "secured pair us' y" if "y \<in># leftover a q" for y
      using that q(2) ea(1) by (rule secured_leftover [OF sec(2), where n = q])
        (use cross(3) in \<open>simp_all add: sides lk ea(1)\<close>)
    moreover have "secured pair us' y" if "y \<in># B + A" for y
    proof -
      have "o_id y \<noteq> o_id b" "o_id y \<noteq> o_id a" using fresh(2) that by blast+
      then have "lock_at us' (o_user y) (o_id y) = lock_at us (o_user y) (o_id y)" by (simp add: lk)
      moreover have "y \<in># in_play s" using that by (simp add: play)
      then have "secured pair us y" using bk by (simp add: backed_def)
      ultimately show ?thesis using secured_cong [of us' y us pair] by blast
    qed
    ultimately have all: "\<forall>y \<in># in_play s'. secured pair us' y" unfolding play' by auto
    have "image_mset o_id (leftover b q) + image_mset o_id (leftover a q) + image_mset o_id (B + A) \<subseteq>#
        {#o_id b#} + {#o_id a#} + image_mset o_id (B + A)"
      by (intro subset_mset.add_mono leftover_ids subset_mset.order_refl)
    then have ids: "image_mset o_id (in_play s') \<subseteq># image_mset o_id (in_play s)"
      by (simp add: play play' add_mset_commute)
    moreover have "distinct_ids (in_play s')"
      using bk ids by (auto simp: backed_def intro: distinct_ids_sub)
    moreover have "o_side y = o_side x" if "y \<in># leftover x q" for x y
      using that by (auto simp: leftover_def split: if_splits)
    ultimately have "backed pair us' s'"
      using us' all bk sides by (auto simp: backed_def cross(1,2))
    moreover have "untouched (in_play s) us us'"
      by (auto simp: untouched_def lk play)
    ultimately show ?thesis using Inr st ids by simp
  qed (use eff in simp)
qed

lemma settle_trades_snoc:
  "settle_trades us pair (ts @ [t]) = and_then (settle_trades us pair ts) (\<lambda>us. settle_trade us pair t)"
proof (induction ts arbitrary: us)
  case Nil
  show ?case by (cases "settle_trade us pair t") simp_all
next
  case (Cons t' ts)
  then show ?case by (cases "settle_trade us pair t'") simp_all
qed

lemma untouched_refl [simp]: "untouched M us us"
  by (simp add: untouched_def)

lemma untouched_trans:
  "untouched M us us' \<Longrightarrow> untouched M' us' us'' \<Longrightarrow> image_mset o_id M' \<subseteq># image_mset o_id M \<Longrightarrow> untouched M us us''"
  unfolding untouched_def by (metis mset_subset_eqD)

lemma crossings_settle:
  "crossings sd s ts s' \<Longrightarrow> backed pair us s \<Longrightarrow>
   (case settle_trades us pair ts of Inl f \<Rightarrow> credit_overflow f
    | Inr us' \<Rightarrow> backed pair us' s' \<and> untouched (in_play s) us us' \<and>
        image_mset o_id (in_play s') \<subseteq># image_mset o_id (in_play s) \<and>
        (\<forall>u a. wealth us' u a = wealth us u a + credits pair ts u a))"
proof (induction rule: crossings.induct)
  case (more s ts s' t s'')
  show ?case
  proof (cases "settle_trades us pair ts")
    case (Inr us1)
    with more have us1: "backed pair us1 s'" "untouched (in_play s) us us1"
      "image_mset o_id (in_play s') \<subseteq># image_mset o_id (in_play s)"
      "\<And>u a. wealth us1 u a = wealth us u a + credits pair ts u a" by simp_all
    from crossing_settles [OF more.hyps(2) us1(1)] show ?thesis
    proof (cases "settle_trade us1 pair t")
      case (Inr us2)
      with crossing_settles [OF more.hyps(2) us1(1)] have us2: "settled pair t us1 us2" "backed pair us2 s''"
        "untouched (in_play s') us1 us2" "image_mset o_id (in_play s'') \<subseteq># image_mset o_id (in_play s')"
        by simp_all
      have "untouched (in_play s) us us2" using us1(2) us2(3) us1(3) by (rule untouched_trans)
      moreover have "image_mset o_id (in_play s'') \<subseteq># image_mset o_id (in_play s)"
        using us2(4) us1(3) by (rule subset_mset.trans)
      ultimately show ?thesis
        using us2(2) \<open>settle_trades us pair ts = Inr us1\<close> Inr
        by (simp add: settle_trades_snoc settled_wealth [OF us2(1)] us1(4) credits_def)
    qed (use Inr in \<open>simp add: settle_trades_snoc\<close>)
  qed (use more in \<open>simp add: settle_trades_snoc\<close>)
qed (simp add: credits_def)

end
