(* ===== verification/CoreInvariant.thy ===== *)
theory CoreInvariant
  imports Settlement
begin

text \<open>
  The invariant of the in-memory engine: every book well formed, every account solvent, every resting
  order secured by a lock of its owner, and no identifier resting in two books. Every operation
  keeps it, and under it settlement cannot fail except by the overflow of a credit.
\<close>

section \<open>The invariant\<close>

definition resting :: "core_engine \<Rightarrow> trading_pair \<Rightarrow> order \<Rightarrow> bool" where
  "resting e pair x \<longleftrightarrow> (\<exists>bk. hm_get (orderbooks e) pair = Some bk \<and> x \<in># book_orders bk)"

definition books_ok :: "core_engine \<Rightarrow> bool" where
  "books_ok e \<longleftrightarrow> hm_ok (orderbooks e) \<and> (\<forall>pair bk. hm_get (orderbooks e) pair = Some bk \<longrightarrow> book_ok bk)"

definition engine_ok :: "core_engine \<Rightarrow> bool" where
  "engine_ok e \<longleftrightarrow> books_ok e \<and> table_ok (users e) \<and>
     (\<forall>pair x. resting e pair x \<longrightarrow> secured pair (users e) x) \<and>
     (\<forall>p q x y. resting e p x \<longrightarrow> resting e q y \<longrightarrow> o_id x = o_id y \<longrightarrow> p = q)"

definition fresh_in :: "core_engine \<Rightarrow> order_id \<Rightarrow> bool" where
  "fresh_in e i \<longleftrightarrow> (\<forall>pair x. resting e pair x \<longrightarrow> o_id x \<noteq> i)"

lemma engine_ok_shrink:
  assumes "engine_ok e" and "books_ok e'" and "table_ok (users e')"
    and "\<And>p x. resting e' p x \<Longrightarrow>
      resting e p x \<and> lock_at (users e') (o_user x) (o_id x) = lock_at (users e) (o_user x) (o_id x)"
  shows "engine_ok e'"
  unfolding engine_ok_def
proof (intro conjI allI impI)
  fix pair x
  assume "resting e' pair x"
  from assms(4) [OF this] assms(1) secured_cong show "secured pair (users e') x"
    unfolding engine_ok_def by blast
next
  fix p q x y
  assume "resting e' p x" "resting e' q y" "o_id x = o_id y"
  with assms(1,4) show "p = q" unfolding engine_ok_def by blast
qed (use assms in auto)

lemma resting_users [simp]: "resting (e\<lparr>users := us\<rparr>) = resting e"
  by (intro ext) (simp add: resting_def)

lemma resting_ids [simp]: "resting (e\<lparr>ids := g\<rparr>) = resting e"
  by (intro ext) (simp add: resting_def)

lemma books_ok_frame [simp]: "books_ok (e\<lparr>users := us\<rparr>) = books_ok e" "books_ok (e\<lparr>ids := g\<rparr>) = books_ok e"
  by (simp_all add: books_ok_def)

lemma resting_insert:
  "resting (e\<lparr>orderbooks := hm_insert pair bk (orderbooks e)\<rparr>) p x \<longleftrightarrow>
     (if p = pair then x \<in># book_orders bk else resting e p x)"
  by (simp add: resting_def)

lemma books_ok_insert:
  "books_ok e \<Longrightarrow> book_ok bk \<Longrightarrow> books_ok (e\<lparr>orderbooks := hm_insert pair bk (orderbooks e)\<rparr>)"
  by (auto simp: books_ok_def)

lemma books_ok_get: "books_ok e \<Longrightarrow> hm_get (orderbooks e) pair = Some bk \<Longrightarrow> book_ok bk"
  by (simp add: books_ok_def)

section \<open>Effect of the account operations on locks\<close>

lemma release_lock [simp]:
  "lock_at (release us u i) v j = (if v = u \<and> j = i then None else lock_at us v j)"
  by (auto simp: release_def lock_at_def unlock_order_def split: option.splits)

lemma release_ok: "table_ok us \<Longrightarrow> table_ok (release us u i)"
proof -
  assume us: "table_ok us"
  show ?thesis
  proof (cases "hm_get us u")
    case (Some a)
    then have "user_ok a" "u_id a = u" using table_ok_get [OF us] by simp_all
    moreover have "u_id (snd (unlock_order a i)) = u_id a" by (simp add: unlock_order_def split: option.split)
    ultimately show ?thesis using us Some by (simp add: release_def table_ok_insert unlock_order_ok)
  qed (use us in \<open>simp add: release_def\<close>)
qed

lemma release_wealth [simp]: "wealth (release us u i) v a = wealth us v a"
  by (simp add: release_def wealth_def unlock_order_def get_balance_def split: option.split)

section \<open>Placing an order\<close>

lemma book_distinct_ids: "book_ok bk \<Longrightarrow> distinct_ids (book_orders bk)"
  using keys_distinct [of "orders_map bk"] by (simp add: book_ok_def indexed_but_def distinct_ids_def)

lemma book_sides:
  "book_ok bk \<Longrightarrow> x \<in># side_orders sd bk \<Longrightarrow> o_side x = sd"
  by (cases sd) (auto simp: book_ok_def book_levels_ok_def levels_ok_def priced_def side_orders_def orders_of_def)

text \<open>The crossings behind the trades of a placement.\<close>

lemma placement_run:
  assumes ok: "book_ok bk" and x: "o_remaining x \<noteq> 0" and "add_order bk x g c = Inr (Some ts, bk', g', c')"
  obtains s s' where "crossings (o_side x) s ts s'" and "in_play s = add_mset x (book_orders bk)"
    and "\<forall>y \<in># bids_in s. o_side y = Buy" and "\<forall>y \<in># asks_in s. o_side y = Sell"
    and "book_orders bk' \<subseteq># in_play s'" and "book_ok bk'"
    and "o_type x = FillAndKill \<longrightarrow> (\<forall>y \<in># book_orders bk'. o_id y \<noteq> o_id x)"
  using assms(3)
proof (cases rule: add_order_cases)
  case (immediate us)
  from immediate_run(3) [OF ok immediate(1,4)] immediate(2) obtain r st where
    run: "crossings (o_side x) (immediate_view x (o_remaining x) (o_status x) bk) ts (immediate_view x r st bk')"
    by auto
  have bk': "book_ok bk'" by (rule immediate_run(1) [OF ok immediate(1,4)])
  have play: "in_play (immediate_view x r st b) = aggressor_bag x r st + book_orders b" for r st b
    by (cases "o_side x") (simp_all add: in_play_def immediate_view_sides book_orders_sides ac_simps)
  have fresh: "\<forall>y \<in># book_orders bk'. o_id y \<noteq> o_id x"
  proof -
    have "shrinks (book_orders bk') (book_orders bk)"
    proof -
      have "shrinks (side_orders (other_side (o_side x)) bk') (side_orders (other_side (o_side x)) bk)"
        using crossings_shrinks [OF run] by (cases "o_side x") (simp_all add: immediate_view_sides)
      then show ?thesis
        using immediate_run(2) [OF ok immediate(1,4)]
        by (cases "o_side x") (simp_all add: book_orders_sides shrinks_union)
    qed
    moreover have "\<forall>y \<in># book_orders bk. o_id y \<noteq> o_id x"
      using ok immediate(1) indexed_get by (fastforce simp: book_ok_def)
    ultimately show ?thesis using shrinks_ids by blast
  qed
  show thesis
  proof (rule that [OF run])
    show "in_play (immediate_view x (o_remaining x) (o_status x) bk) = add_mset x (book_orders bk)"
      using x by (simp add: play aggressor_bag_self)
    show "\<forall>y \<in># bids_in (immediate_view x (o_remaining x) (o_status x) bk). o_side y = Buy"
      "\<forall>y \<in># asks_in (immediate_view x (o_remaining x) (o_status x) bk). o_side y = Sell"
      using book_sides [OF ok] x by (auto simp: immediate_view_sides aggressor_bag_self split: if_splits)
    show "book_orders bk' \<subseteq># in_play (immediate_view x r st bk')" by (simp add: play)
  qed (use fresh bk' in auto)
next
  case (resting us)
  note run = resting_run [OF ok resting(1) x resting(4)]
  note placed = placed_ok [OF ok resting(1) x]
  have play: "in_play (view b) = book_orders b" for b by (simp add: in_play_def book_orders_view)
  show thesis
  proof (rule that)
    show "crossings (o_side x) (view (placed bk x)) ts (view bk')" using run(1) resting(2) by simp
    show "in_play (view (placed bk x)) = add_mset x (book_orders bk)"
      by (cases "o_side x") (simp_all add: play book_orders_sides placed(2) contenders_def)
    show "\<forall>y \<in># bids_in (view (placed bk x)). o_side y = Buy" "\<forall>y \<in># asks_in (view (placed bk x)). o_side y = Sell"
      using book_sides [OF ok] by (auto simp: side_orders_view placed(2) contenders_def split: if_splits)
    show "book_orders bk' \<subseteq># in_play (view bk')" by (simp add: play)
    show "book_ok bk'" by (rule run(2))
    show "o_type x = FillAndKill \<longrightarrow> (\<forall>y \<in># book_orders bk'. o_id y \<noteq> o_id x)"
      using resting(3) by (simp add: immediate_def)
  qed
qed simp

lemma add_order_faults:
  "book_ok bk \<Longrightarrow> book_size bk \<le> 2 ^ 32 \<Longrightarrow> 0 < o_remaining x \<Longrightarrow> add_order bk x g c = Inl f \<Longrightarrow> stamps_fail g c f"
  using add_order_outcome [of bk x g c] by simp

text \<open>What placing an order may do to an engine, accepted or refused.\<close>

definition placement_outcome ::
  "core_engine \<Rightarrow> trading_pair \<Rightarrow> order_id \<Rightarrow> clock
     \<Rightarrow> fault + (order_error + trade list option) \<times> core_engine \<times> clock \<Rightarrow> bool" where
  "placement_outcome e pair i c out =
     (case out of Inl f \<Rightarrow> stamps_fail (ids e) c f \<or> credit_overflow f
      | Inr (r, e', c') \<Rightarrow> engine_ok e' \<and>
        (\<forall>p y. resting e' p y \<longrightarrow> p = pair \<and> o_id y = i \<or> (\<exists>z. resting e p z \<and> o_id z = o_id y)) \<and>
        (case r of Inr (Some ts) \<Rightarrow> issues (ids e) c ts (ids e') c' \<and>
            (\<forall>u a. wealth (users e') u a = wealth (users e) u a + credits pair ts u a)
         | Inr None \<Rightarrow> ids e' = ids e \<and> c' = c \<and> (\<forall>u a. wealth (users e') u a = wealth (users e) u a)
         | Inl _ \<Rightarrow> e' = e \<and> c' = c))"

lemma placement_outcome_cong:
  assumes "placement_outcome e1 pair i c out" and "\<And>err e' c'. out \<noteq> Inr (Inl err, e', c')"
    and "resting e1 = resting e" and "ids e1 = ids e"
    and "\<And>u a. wealth (users e1) u a = wealth (users e) u a"
  shows "placement_outcome e pair i c out"
proof (cases out)
  case (Inr res)
  obtain r e' c' where res: "res = (r, e', c')" by (cases res) auto
  have "\<not> (\<exists>err. r = Inl err)" using assms(2) Inr res by auto
  with assms(1,3,4,5) Inr res show ?thesis
    unfolding placement_outcome_def by (cases r) (simp_all split: option.splits)
qed (use assms in \<open>simp add: placement_outcome_def\<close>)

lemma core_place_accepts: "core_place e pair bk x c \<noteq> Inr (Inl err, e', c')"
  by (auto simp: core_place_def and_then_Inr Let_def split: option.splits if_splits)

text \<open>What \<open>core_place\<close> needs of the engine: a secured order whose identifier rests nowhere.\<close>

lemma core_place_ok:
  assumes e: "engine_ok e" and pair: "hm_get (orderbooks e) pair = Some bk"
    and size: "book_size bk \<le> 2 ^ 32" and x: "0 < o_remaining x"
    and sec: "secured pair (users e) x" and fresh: "fresh_in e (o_id x)"
  shows "placement_outcome e pair (o_id x) c (core_place e pair bk x c)"
proof (cases "add_order bk x (ids e) c")
  case (Inl f)
  have "book_ok bk" using e pair by (auto simp: engine_ok_def intro: books_ok_get)
  from add_order_faults [OF this size x Inl] Inl show ?thesis by (simp add: core_place_def placement_outcome_def)
next
  case (Inr out)
  obtain r bk' g' c' where out: "add_order bk x (ids e) c = Inr (r, bk', g', c')"
    using Inr by (cases out) auto
  have books: "books_ok e" and us: "table_ok (users e)" and ok: "book_ok bk"
    using e pair by (auto simp: engine_ok_def intro: books_ok_get)
  have rest: "resting e pair y" if "y \<in># book_orders bk" for y using that pair by (auto simp: resting_def)
  let ?e = "e\<lparr>orderbooks := hm_insert pair bk' (orderbooks e), ids := g'\<rparr>"
  show ?thesis
  proof (cases r)
    case None
    from out have same: "bk' = bk" "g' = ids e" "c' = c" using None by (auto elim: add_order_cases)
    let ?e' = "?e\<lparr>users := release (users e) (o_user x) (o_id x)\<rparr>"
    have run: "core_place e pair bk x c = Inr (Inr None, ?e', c)"
      using out None same by (simp add: core_place_def Let_def)
    have r': "resting ?e' p y \<longleftrightarrow> resting e p y" for p y
      using pair same by (auto simp: resting_def)
    have "engine_ok ?e'"
    proof (rule engine_ok_shrink [OF e])
      show "books_ok ?e'" using books_ok_insert [OF books ok] by (simp add: same books_ok_def)
      fix p y
      assume "resting ?e' p y"
      then have y: "resting e p y" by (simp only: r')
      with fresh have "o_id y \<noteq> o_id x" by (simp add: fresh_in_def)
      with y show "resting e p y \<and> lock_at (users ?e') (o_user y) (o_id y) = lock_at (users e) (o_user y) (o_id y)"
        by simp
    qed (simp add: release_ok us)
    moreover have "\<forall>p y. resting ?e' p y \<longrightarrow> (\<exists>z. resting e p z \<and> o_id z = o_id y)"
      using r' by blast
    ultimately show ?thesis unfolding run placement_outcome_def by (simp add: same)
  next
    case (Some ts)
    have x0: "o_remaining x \<noteq> 0" using x by auto
    from placement_run [OF ok x0 out [unfolded Some]] obtain s s' where
      run: "crossings (o_side x) s ts s'" and play: "in_play s = add_mset x (book_orders bk)"
      and sides: "\<forall>y \<in># bids_in s. o_side y = Buy" "\<forall>y \<in># asks_in s. o_side y = Sell"
      and after: "book_orders bk' \<subseteq># in_play s'" and ok': "book_ok bk'"
      and fak: "o_type x = FillAndKill \<longrightarrow> (\<forall>y \<in># book_orders bk'. o_id y \<noteq> o_id x)" by blast
    have "distinct_ids (in_play s)"
      using book_distinct_ids [OF ok] fresh rest by (auto simp: play distinct_ids_add fresh_in_def)
    moreover have "\<forall>y \<in># in_play s. secured pair (users e) y"
      using sec e rest by (auto simp: play engine_ok_def)
    ultimately have "backed pair (users e) s" using us sides by (simp add: backed_def)
    note settle = crossings_settle [OF run this]
    show ?thesis
    proof (cases "settle_trades (users e) pair ts")
      case (Inl f)
      with settle out Some show ?thesis by (simp add: core_place_def Let_def placement_outcome_def)
    next
      case (Inr us')
      with settle have bk2: "backed pair us' s'" and unt: "untouched (in_play s) (users e) us'"
        and sub: "image_mset o_id (in_play s') \<subseteq># image_mset o_id (in_play s)"
        and wealth: "\<And>u a. wealth us' u a = wealth (users e) u a + credits pair ts u a" by simp_all
      define us'' where "us'' = (if o_type x = FillAndKill then release us' (o_user x) (o_id x) else us')"
      let ?e' = "?e\<lparr>users := us''\<rparr>"
      have run': "core_place e pair bk x c = Inr (Inr (Some ts), ?e', c')"
        using out Some Inr by (simp add: core_place_def Let_def us''_def)
      have us'': "table_ok us''" using bk2 by (simp add: us''_def backed_def release_ok)
      have r': "resting ?e' p y \<longleftrightarrow> (if p = pair then y \<in># book_orders bk' else resting e p y)" for p y
        by (simp add: resting_def)
      have ids': "o_id y = o_id x \<or> (\<exists>z \<in># book_orders bk. o_id z = o_id y)" if "y \<in># book_orders bk'" for y
      proof -
        have "o_id y \<in># image_mset o_id (in_play s')" using mset_subset_eqD [OF after that] by simp
        then have "o_id y \<in># image_mset o_id (in_play s)" by (rule mset_subset_eqD [OF sub])
        then show ?thesis by (auto simp: play)
      qed
      have other: "o_id y \<noteq> o_id x \<and> o_id y \<notin> o_id ` set_mset (book_orders bk)" if "resting e p y" "p \<noteq> pair" for p y
      proof
        show "o_id y \<noteq> o_id x" using that fresh by (simp add: fresh_in_def)
        have "o_id z \<noteq> o_id y" if "z \<in># book_orders bk" for z
          using e rest [OF that] \<open>resting e p y\<close> \<open>p \<noteq> pair\<close> unfolding engine_ok_def by metis
        then show "o_id y \<notin> o_id ` set_mset (book_orders bk)" by (metis imageE)
      qed
      have lock: "lock_at us'' v j = lock_at us' v j" if "o_type x = FillAndKill \<longrightarrow> j \<noteq> o_id x" for v j
        using that by (simp add: us''_def)
      have secured': "secured pair us'' y" if "y \<in># book_orders bk'" for y
      proof -
        have "secured pair us' y" using mset_subset_eqD [OF after that] bk2 by (simp add: backed_def)
        moreover have "lock_at us'' (o_user y) (o_id y) = lock_at us' (o_user y) (o_id y)"
          using fak that by (intro lock) auto
        ultimately show ?thesis using secured_cong by blast
      qed
      have secured'': "secured p us'' y" if y: "resting e p y" "p \<noteq> pair" for p y
      proof -
        have "o_id y \<notin># image_mset o_id (in_play s)" using other [OF y] by (simp add: play)
        then have "lock_at us'' (o_user y) (o_id y) = lock_at (users e) (o_user y) (o_id y)"
          using unt other [OF y] by (simp add: lock untouched_def)
        moreover have "secured p (users e) y" using e y(1) by (simp add: engine_ok_def)
        ultimately show ?thesis using secured_cong by blast
      qed
      have "engine_ok ?e'"
        unfolding engine_ok_def
      proof (intro conjI allI impI)
        show "books_ok ?e'" using books_ok_insert [OF books ok'] by (simp add: books_ok_def)
        show "table_ok (users ?e')" using us'' by simp
      next
        fix p y
        assume "resting ?e' p y"
        then show "secured p (users ?e') y" using secured' secured'' unfolding r' by (auto split: if_splits)
      next
        fix p q y z
        assume "resting ?e' p y" "resting ?e' q z" and same: "o_id y = o_id z"
        then show "p = q" using other ids' e unfolding engine_ok_def r'
          by (metis (full_types) image_eqI)
      qed
      moreover have "\<forall>p y. resting ?e' p y \<longrightarrow>
          p = pair \<and> o_id y = o_id x \<or> (\<exists>z. resting e p z \<and> o_id z = o_id y)"
        using ids' rest unfolding r' by metis
      moreover have "issues (ids e) c ts g' c'" using out Some by (intro add_order_issues) simp
      moreover have "\<forall>u a. wealth us'' u a = wealth (users e) u a + credits pair ts u a"
        by (simp add: us''_def wealth)
      ultimately show ?thesis unfolding run' placement_outcome_def by simp
    qed
  qed
qed

end
