(* ===== verification/CoreOrders.thy ===== *)
theory CoreOrders
  imports CoreInvariant
begin

text \<open>
  The order operations of the engine as their callers see them: which orders are rejected and that a
  rejection changes nothing, what an accepted order locks, that \<open>modify_order\<close> is a cancellation
  followed by a placement, and that all of them keep the invariant.
\<close>

section \<open>Map updates\<close>

lemma hm_insert_same: "hm_get m k = Some v \<Longrightarrow> hm_insert k v m = m"
  by (induction m) (auto simp: hm_get_def hm_insert_def split: if_splits)

lemma hm_insert_twice: "hm_insert k v (hm_insert k w m) = hm_insert k v m"
  by (induction m) (auto simp: hm_insert_def)

lemma with_same_users: "users e = us \<Longrightarrow> e\<lparr>users := us\<rparr> = (e :: core_engine)"
  by (cases e) simp

section \<open>Rejections\<close>

definition cost :: "side \<Rightarrow> price \<Rightarrow> quantity \<Rightarrow> nat" where
  "cost sd p q = (case sd of Buy \<Rightarrow> nat (price_int p) * unat q | Sell \<Rightarrow> unat q)"

definition invalid_terms :: "price \<Rightarrow> quantity \<Rightarrow> bool" where
  "invalid_terms p q \<longleftrightarrow> price_int p \<le> 0 \<or> q = 0 \<or> 2 ^ 32 \<le> nat (price_int p) * unat q"

lemma need_cost: "need x = cost (o_side x) (o_price x) (o_remaining x)"
  by (simp add: need_def cost_def)

lemma notional_None_iff: "0 \<le> price_int p \<Longrightarrow> notional p q = None \<longleftrightarrow> 2 ^ 32 \<le> nat (price_int p) * unat q"
proof -
  assume p: "0 \<le> price_int p"
  show ?thesis
  proof (cases "notional p q")
    case None
    have "\<not> nat (price_int p) * unat q < 2 ^ 32"
    proof
      assume "nat (price_int p) * unat q < 2 ^ 32"
      then obtain n where "notional p q = Some n" using notional_fits [OF p] by metis
      with None show False by simp
    qed
    with None show ?thesis by simp
  next
    case (Some n)
    with notional_Some [OF p, of q n] unat_u32_lt [of n] show ?thesis by (simp del: unat_u32_lt)
  qed
qed

lemma validate_order_iff:
  "validate_order p q = (if invalid_terms p q then Inl InvalidOrder else Inr ())"
proof (cases "price_int p \<le> 0 \<or> q = 0")
  case False
  then have p: "0 \<le> price_int p" by simp
  show ?thesis
    using False notional_None_iff [OF p, of q]
    by (cases "notional p q") (auto simp: validate_order_def invalid_terms_def)
qed (auto simp: validate_order_def invalid_terms_def)

lemma cost_fits: "\<not> invalid_terms p q \<Longrightarrow> cost sd p q < 2 ^ 32"
  using unat_u32_lt [of q] by (cases sd) (simp_all add: invalid_terms_def cost_def del: unat_u32_lt)

definition lock_quantity :: "side \<Rightarrow> price \<Rightarrow> quantity \<Rightarrow> quantity" where
  "lock_quantity sd p q = of_nat (cost sd p q)"

lemma unat_lock_quantity: "\<not> invalid_terms p q \<Longrightarrow> unat (lock_quantity sd p q) = cost sd p q"
  using cost_fits [of p q sd] by (simp only: lock_quantity_def unsigned_of_nat) (simp add: take_bit_nat_eq_self)

lemma lock_amount_for_valid:
  assumes "\<not> invalid_terms p q"
  shows "lock_amount_for pair sd p q = Inr (lock_asset pair sd, lock_quantity sd p q)"
proof (cases sd)
  case Buy
  have p: "0 \<le> price_int p" using assms by (simp add: invalid_terms_def)
  have "notional p q = Some (lock_quantity Buy p q)"
    using unat_lock_quantity [OF assms, of Buy] by (simp add: notional_Some [OF p] cost_def)
  with Buy show ?thesis by (simp add: lock_amount_for_def lock_asset_def)
next
  case Sell
  then show ?thesis by (simp add: lock_amount_for_def lock_asset_def lock_quantity_def cost_def)
qed

text \<open>The answer to an order that does not reach the book, in the order of the checks.\<close>

definition rejection :: "core_engine \<Rightarrow> trading_pair \<Rightarrow> order \<Rightarrow> order_error option" where
  "rejection e pair x =
     (if invalid_terms (o_price x) (o_initial x) then Some InvalidOrder
      else case hm_get (orderbooks e) pair of
        None \<Rightarrow> Some NoSuchPair
      | Some bk \<Rightarrow>
          if has_order bk (o_id x) then Some InvalidOrder
          else case hm_get (users e) (o_user x) of
            None \<Rightarrow> Some NoSuchUser
          | Some acc \<Rightarrow>
              if unat (get_available_balance acc (lock_asset pair (o_side x)))
                 < cost (o_side x) (o_price x) (o_initial x)
              then Some InsufficientBalance else None)"

definition secure :: "core_engine \<Rightarrow> trading_pair \<Rightarrow> order \<Rightarrow> core_engine" where
  "secure e pair x =
     (case hm_get (users e) (o_user x) of None \<Rightarrow> e
      | Some acc \<Rightarrow> e\<lparr>users := hm_insert (o_user x) (acc\<lparr>u_locked := hm_insert (o_id x)
          \<lparr>le_asset = lock_asset pair (o_side x),
           le_amount = lock_quantity (o_side x) (o_price x) (o_initial x)\<rparr> (u_locked acc)\<rparr>) (users e)\<rparr>)"

lemma core_add_order_split:
  "core_add_order e pair x c =
     (case rejection e pair x of
        Some err \<Rightarrow> Inr (Inl err, e, c)
      | None \<Rightarrow> core_place (secure e pair x) pair (the (hm_get (orderbooks e) pair)) x c)"
proof (cases "invalid_terms (o_price x) (o_initial x)")
  case False
  note lk = lock_amount_for_valid [OF False, of pair "o_side x"] unat_lock_quantity [OF False, of "o_side x"]
  show ?thesis
    using False lk(2)
    by (auto simp: core_add_order_def validate_order_iff rejection_def lk(1) lock_def secure_def
        word_less_nat_alt hm_insert_same with_same_users split: option.splits)
qed (simp add: core_add_order_def validate_order_iff rejection_def)

lemma rejection_None:
  assumes "rejection e pair x = None"
  obtains bk acc where "hm_get (orderbooks e) pair = Some bk" and "\<not> has_order bk (o_id x)"
    and "hm_get (users e) (o_user x) = Some acc" and "\<not> invalid_terms (o_price x) (o_initial x)"
    and "cost (o_side x) (o_price x) (o_initial x) \<le>
      unat (get_available_balance acc (lock_asset pair (o_side x)))"
  using assms by (auto simp: rejection_def not_less split: if_splits option.splits)

lemma cost_mono: "q \<le> r \<Longrightarrow> cost sd p q \<le> cost sd p r"
  by (cases sd) (simp_all add: cost_def word_le_nat_alt)

lemma secure_ok:
  assumes e: "engine_ok e" and none: "rejection e pair x = None" and fresh: "fresh_in e (o_id x)"
    and x: "o_remaining x \<le> o_initial x"
  shows "engine_ok (secure e pair x)" and "secured pair (users (secure e pair x)) x"
    and "orderbooks (secure e pair x) = orderbooks e" and "ids (secure e pair x) = ids e"
    and "wealth (users (secure e pair x)) u a = wealth (users e) u a"
    and "fresh_in (secure e pair x) (o_id x)" and "resting (secure e pair x) = resting e"
proof -
  from none obtain bk acc where acc: "hm_get (users e) (o_user x) = Some acc"
    and valid: "\<not> invalid_terms (o_price x) (o_initial x)"
    and afford: "cost (o_side x) (o_price x) (o_initial x) \<le>
      unat (get_available_balance acc (lock_asset pair (o_side x)))" by (rule rejection_None)
  let ?l = "\<lparr>le_asset = lock_asset pair (o_side x), le_amount = lock_quantity (o_side x) (o_price x) (o_initial x)\<rparr>"
  let ?acc = "acc\<lparr>u_locked := hm_insert (o_id x) ?l (u_locked acc)\<rparr>"
  have sec: "secure e pair x = e\<lparr>users := hm_insert (o_user x) ?acc (users e)\<rparr>"
    using acc by (simp add: secure_def)
  have us: "table_ok (users e)" using e by (simp add: engine_ok_def)
  have "lock acc (o_id x) (lock_asset pair (o_side x)) (lock_quantity (o_side x) (o_price x) (o_initial x)) = (Inr (), ?acc)"
    using afford by (simp add: lock_def word_less_nat_alt unat_lock_quantity [OF valid])
  then have "user_ok ?acc" using lock_ok [of acc] table_ok_get [OF us acc] by (metis snd_conv)
  then have us': "table_ok (users (secure e pair x))"
    using us table_ok_get [OF us acc] by (simp add: sec table_ok_insert)
  have lk: "lock_at (users (secure e pair x)) v j =
      (if v = o_user x \<and> j = o_id x then Some ?l else lock_at (users e) v j)" for v j
    using acc by (simp add: sec) (simp add: lock_at_def)
  show "orderbooks (secure e pair x) = orderbooks e" "ids (secure e pair x) = ids e" by (simp_all add: sec)
  show "wealth (users (secure e pair x)) u a = wealth (users e) u a"
    using acc by (simp add: sec) (simp add: wealth_def)
  show r: "resting (secure e pair x) = resting e" by (simp add: sec)
  show "fresh_in (secure e pair x) (o_id x)" using fresh by (simp add: fresh_in_def r)
  have "0 < price_int (o_price x)" using valid by (simp add: invalid_terms_def)
  moreover have "need x \<le> unat (le_amount ?l)"
    using cost_mono [OF x] by (simp add: need_cost unat_lock_quantity [OF valid])
  ultimately show "secured pair (users (secure e pair x)) x" by (simp add: secured_def lk)
  show "engine_ok (secure e pair x)"
  proof (rule engine_ok_shrink [OF e _ us'])
    show "books_ok (secure e pair x)" using e by (simp add: sec engine_ok_def)
    fix p y
    assume "resting (secure e pair x) p y"
    then have "resting e p y" "o_id y \<noteq> o_id x" using fresh by (simp_all add: r fresh_in_def)
    then show "resting e p y \<and> lock_at (users (secure e pair x)) (o_user y) (o_id y) = lock_at (users e) (o_user y) (o_id y)"
      by (simp add: lk)
  qed
qed

definition books_small :: "core_engine \<Rightarrow> bool" where
  "books_small e \<longleftrightarrow> (\<forall>pair bk. hm_get (orderbooks e) pair = Some bk \<longrightarrow> book_size bk \<le> 2 ^ 32)"

lemma core_add_order_outcome:
  assumes e: "engine_ok e" and small: "books_small e" and fresh: "fresh_in e (o_id x)"
    and x: "o_remaining x = o_initial x"
  shows "placement_outcome e pair (o_id x) c (core_add_order e pair x c)"
proof (cases "rejection e pair x")
  case None
  then obtain bk where bk: "hm_get (orderbooks e) pair = Some bk" and "\<not> invalid_terms (o_price x) (o_initial x)"
    by (rule rejection_None)
  then have pos: "0 < o_remaining x" using x by (simp add: invalid_terms_def word_gt_0)
  have "o_remaining x \<le> o_initial x" using x by simp
  note sec = secure_ok [OF e None fresh this]
  have "hm_get (orderbooks (secure e pair x)) pair = Some bk" using bk sec(3) by simp
  from core_place_ok [OF sec(1) this _ pos sec(2,6), of c] small bk have
    "placement_outcome (secure e pair x) pair (o_id x) c (core_place (secure e pair x) pair bk x c)"
    by (simp add: books_small_def)
  from placement_outcome_cong [OF this core_place_accepts sec(7,4,5)] bk show ?thesis
    by (simp add: core_add_order_split None)
qed (use e in \<open>auto simp: placement_outcome_def core_add_order_split\<close>)

section \<open>Cancelling\<close>

lemma core_cancel_order_cases:
  assumes "books_ok e"
  shows "core_cancel_order e pair i =
    (case Option.bind (hm_get (orderbooks e) pair) (\<lambda>bk. get_order bk i) of
       None \<Rightarrow> (False, e)
     | Some x \<Rightarrow> (True, e\<lparr>
         orderbooks := hm_insert pair (pruned (\<lambda>y. o_id y \<noteq> i) (the (hm_get (orderbooks e) pair))) (orderbooks e),
         users := release (users e) (o_user x) i\<rparr>))"
proof (cases "hm_get (orderbooks e) pair")
  case (Some bk)
  have ok: "book_ok bk" using assms Some by (rule books_ok_get)
  show ?thesis
  proof (cases "get_order bk i")
    case None
    then have "cancel_order bk i = (None, bk)" by (simp add: get_order_def cancel_order_def)
    with Some None show ?thesis by (cases e) (simp add: core_cancel_order_def hm_insert_same)
  next
    case (Some x)
    then have "cancel_order bk i = (Some x, pruned (\<lambda>y. o_id y \<noteq> i) bk)"
      using cancel_order_pruned [OF ok] by (simp add: get_order_def)
    with Some \<open>hm_get (orderbooks e) pair = Some bk\<close> show ?thesis by (simp add: core_cancel_order_def)
  qed
qed (simp add: core_cancel_order_def)

lemma get_order_resting:
  assumes "books_ok e" and "hm_get (orderbooks e) pair = Some bk" and "get_order bk i = Some x"
  obtains y where "resting e pair y" and "o_id y = i" and "same_terms y x"
proof -
  have ix: "indexed (book_orders bk) (orders_map bk)"
    using books_ok_get [OF assms(1,2)] by (simp add: book_ok_def)
  have "(i, x) \<in> set (orders_map bk)" using assms(3) by (simp add: get_order_def hm_get_SomeD)
  from indexed_entry [OF ix this] obtain y where "y \<in># book_orders bk" "o_id y = i" "same_terms y x" .
  with assms(2) show ?thesis by (intro that [of y]) (auto simp: resting_def)
qed

lemma pruned_id_ok:
  assumes "book_ok bk"
  shows "book_ok (pruned (\<lambda>y. o_id y \<noteq> i) bk)"
    and "book_orders (pruned (\<lambda>y. o_id y \<noteq> i) bk) = {#y \<in># book_orders bk. o_id y \<noteq> i#}"
proof -
  have "same_terms x y \<Longrightarrow> (o_id x \<noteq> i) = (o_id y \<noteq> i)" for x y by (simp add: same_terms_def)
  from pruned_ok [OF assms this] show "book_ok (pruned (\<lambda>y. o_id y \<noteq> i) bk)"
    "book_orders (pruned (\<lambda>y. o_id y \<noteq> i) bk) = {#y \<in># book_orders bk. o_id y \<noteq> i#}" by simp_all
qed

lemma core_cancel_order_ok:
  assumes e: "engine_ok e"
  shows "engine_ok (snd (core_cancel_order e pair i))"
    and "resting (snd (core_cancel_order e pair i)) p y \<longleftrightarrow>
      resting e p y \<and> (fst (core_cancel_order e pair i) \<longrightarrow> o_id y \<noteq> i)"
    and "wealth (users (snd (core_cancel_order e pair i))) u a = wealth (users e) u a"
    and "ids (snd (core_cancel_order e pair i)) = ids e"
proof -
  have books: "books_ok e" and us: "table_ok (users e)" using e by (simp_all add: engine_ok_def)
  note split = core_cancel_order_cases [OF books, of pair i]
  show "wealth (users (snd (core_cancel_order e pair i))) u a = wealth (users e) u a"
    "ids (snd (core_cancel_order e pair i)) = ids e"
    by (simp_all add: split split: option.split)
  have "engine_ok (snd (core_cancel_order e pair i)) \<and> (\<forall>p y. resting (snd (core_cancel_order e pair i)) p y \<longleftrightarrow>
      resting e p y \<and> (fst (core_cancel_order e pair i) \<longrightarrow> o_id y \<noteq> i))"
  proof (cases "Option.bind (hm_get (orderbooks e) pair) (\<lambda>bk. get_order bk i)")
    case None
    with e show ?thesis by (simp add: split)
  next
    case (Some x)
    then obtain bk where bk: "hm_get (orderbooks e) pair = Some bk" and x: "get_order bk i = Some x"
      by (auto simp: bind_eq_Some_conv)
    let ?bk = "pruned (\<lambda>y. o_id y \<noteq> i) bk"
    let ?e = "e\<lparr>orderbooks := hm_insert pair ?bk (orderbooks e), users := release (users e) (o_user x) i\<rparr>"
    have run: "core_cancel_order e pair i = (True, ?e)" using Some bk by (simp add: split)
    note ok = books_ok_get [OF books bk]
    from get_order_resting [OF books bk x] obtain z where z: "resting e pair z" "o_id z = i" .
    have r: "resting ?e p y \<longleftrightarrow> resting e p y \<and> o_id y \<noteq> i" for p y
    proof (cases "p = pair")
      case True
      then show ?thesis using bk by (simp add: resting_def pruned_id_ok(2) [OF ok])
    next
      case False
      have "resting e p y \<Longrightarrow> o_id y \<noteq> i" using e z False unfolding engine_ok_def by metis
      with False show ?thesis by (auto simp: resting_def)
    qed
    have "engine_ok ?e"
    proof (rule engine_ok_shrink [OF e])
      show "books_ok ?e" using books_ok_insert [OF books pruned_id_ok(1) [OF ok]] by (simp add: books_ok_def)
      show "table_ok (users ?e)" using us by (simp add: release_ok)
      fix p y
      assume "resting ?e p y"
      then have "resting e p y" "o_id y \<noteq> i" unfolding r by simp_all
      then show "resting e p y \<and> lock_at (users ?e) (o_user y) (o_id y) = lock_at (users e) (o_user y) (o_id y)" by simp
    qed
    with r show ?thesis unfolding run by simp
  qed
  then show "engine_ok (snd (core_cancel_order e pair i))"
    "resting (snd (core_cancel_order e pair i)) p y \<longleftrightarrow>
      resting e p y \<and> (fst (core_cancel_order e pair i) \<longrightarrow> o_id y \<noteq> i)" by blast+
qed

section \<open>Modifying\<close>

text \<open>The replacement order, up to its time stamp.\<close>

definition replacement :: "order_modify \<Rightarrow> order_type \<Rightarrow> u64 \<Rightarrow> order" where
  "replacement m ty ts =
     \<lparr>o_id = m_id m, o_type = ty, o_side = m_side m, o_status = m_status m, o_price = m_price m,
      o_initial = m_quantity m, o_remaining = m_quantity m, o_timestamp = ts, o_user = m_user m\<rparr>"

lemma replacement_simps [simp]:
  "o_id (replacement m ty ts) = m_id m" "o_type (replacement m ty ts) = ty"
  "o_side (replacement m ty ts) = m_side m" "o_price (replacement m ty ts) = m_price m"
  "o_initial (replacement m ty ts) = m_quantity m" "o_remaining (replacement m ty ts) = m_quantity m"
  "o_user (replacement m ty ts) = m_user m"
  by (simp_all add: replacement_def)

lemma order_new_replacement:
  "order_new (m_id m) ty (m_side m) (m_status m) (m_price m) (m_quantity m) (m_user m) c =
     and_then (now_nanos c) (\<lambda>(ts, c). Inr (replacement m ty ts, c))"
  by (simp add: order_new_def replacement_def)

text \<open>The specification of \<open>modify_order\<close>: cancel, then place the replacement, or change nothing.\<close>

definition cancel_then_place ::
  "core_engine \<Rightarrow> trading_pair \<Rightarrow> order_modify \<Rightarrow> clock
     \<Rightarrow> fault + (order_error + trade list option) \<times> core_engine \<times> clock" where
  "cancel_then_place e pair m c =
     (case Option.bind (hm_get (orderbooks e) pair) (\<lambda>bk. get_order bk (m_id m)) of
        None \<Rightarrow> Inr (Inl (if invalid_terms (m_price m) (m_quantity m) \<or> hm_contains (orderbooks e) pair
                      then InvalidOrder else NoSuchPair), e, c)
      | Some old \<Rightarrow>
          if m_user m \<noteq> o_user old \<or> m_side m \<noteq> o_side old then Inr (Inl InvalidOrder, e, c)
          else
            (let e' = snd (core_cancel_order e pair (m_id m)) in
             case rejection e' pair (replacement m (o_type old) 0) of
               Some err \<Rightarrow> Inr (Inl err, e, c)
             | None \<Rightarrow> and_then (now_nanos c) (\<lambda>(ts, c).
                 core_add_order e' pair (replacement m (o_type old) ts) c)))"

lemma rejection_time: "rejection e pair (replacement m ty ts) = rejection e pair (replacement m ty 0)"
  by (simp add: rejection_def split: option.split)

lemma unlocked_available:
  assumes "user_ok acc" and "hm_get (u_locked acc) i = Some l"
  shows "unat (get_available_balance (acc\<lparr>u_locked := hm_remove i (u_locked acc)\<rparr>) (le_asset l)) =
    unat (get_available_balance acc (le_asset l)) + unat (le_amount l)"
proof -
  let ?acc = "acc\<lparr>u_locked := hm_remove i (u_locked acc)\<rparr>"
  have ok: "user_ok ?acc"
    using unlock_order_ok [OF assms(1), of i] assms(2) by (simp add: unlock_order_def)
  have "hm_ok (u_locked acc)" using assms(1) by (simp add: user_ok_def)
  from held_remove [OF this assms(2), of "le_asset l"]
  have "held acc (le_asset l) = unat (le_amount l) + held ?acc (le_asset l)" by (simp add: held_of_def)
  moreover have "held acc (le_asset l) \<le> unat (get_balance acc (le_asset l))"
    using assms(1) by (simp add: user_ok_def)
  ultimately show ?thesis by (simp add: unat_available ok assms(1))
qed

lemma core_modify_order_spec:
  assumes e: "engine_ok e"
  shows "core_modify_order e pair m c = cancel_then_place e pair m c"
proof (cases "invalid_terms (m_price m) (m_quantity m)")
  case True
  then have "core_modify_order e pair m c = Inr (Inl InvalidOrder, e, c)"
    by (simp add: core_modify_order_def validate_order_iff)
  moreover have "cancel_then_place e pair m c = Inr (Inl InvalidOrder, e, c)"
    using True by (auto simp: cancel_then_place_def rejection_def Let_def split: option.split)
  ultimately show ?thesis by simp
next
  case valid: False
  have books: "books_ok e" and us: "table_ok (users e)" using e by (simp_all add: engine_ok_def)
  show ?thesis
  proof (cases "Option.bind (hm_get (orderbooks e) pair) (\<lambda>bk. get_order bk (m_id m))")
    case None
    with valid show ?thesis
      by (auto simp: core_modify_order_def cancel_then_place_def validate_order_iff hm_contains_def
          split: option.splits)
  next
    case (Some old)
    then obtain bk where bk: "hm_get (orderbooks e) pair = Some bk" and old: "get_order bk (m_id m) = Some old"
      by (auto simp: bind_eq_Some_conv)
    show ?thesis
    proof (cases "m_user m \<noteq> o_user old \<or> m_side m \<noteq> o_side old")
      case True
      with valid bk old show ?thesis
        by (auto simp: core_modify_order_def cancel_then_place_def validate_order_iff)
    next
      case False
      then have mo: "m_user m = o_user old" "m_side m = o_side old" by simp_all
      let ?i = "m_id m" and ?sd = "m_side m" and ?a = "lock_asset pair (m_side m)"
      let ?n = "lock_quantity (m_side m) (m_price m) (m_quantity m)"
      from get_order_resting [OF books bk old] obtain y where
        y: "resting e pair y" "o_id y = ?i" "same_terms y old" .
      have "secured pair (users e) y" using e y(1) by (simp add: engine_ok_def)
      then obtain l where l: "lock_at (users e) (o_user old) ?i = Some l" "le_asset l = ?a"
        using y(2,3) mo by (auto simp: same_terms_def elim!: securedE)
      from l(1) obtain acc where acc: "hm_get (users e) (o_user old) = Some acc"
        and al: "hm_get (u_locked acc) ?i = Some l" by (rule lock_at_SomeE)
      have aok: "user_ok acc" using table_ok_get [OF us acc] by simp
      let ?acc = "acc\<lparr>u_locked := hm_remove ?i (u_locked acc)\<rparr>"
      let ?bk = "pruned (\<lambda>y. o_id y \<noteq> ?i) bk"
      let ?e = "e\<lparr>orderbooks := hm_insert pair ?bk (orderbooks e), users := hm_insert (o_user old) ?acc (users e)\<rparr>"
      have avail: "unat (get_available_balance ?acc ?a) = unat (get_available_balance acc ?a) + unat (le_amount l)"
        using unlocked_available [OF aok al] l(2) by simp
      have sum: "unat (as_u64 (get_available_balance acc ?a) + as_u64 (le_amount l)) =
          unat (get_available_balance acc ?a) + unat (le_amount l)"
        using unat_u32_lt [of "get_available_balance acc ?a"] unat_u32_lt [of "le_amount l"]
        by (subst unat_add_no_wrap) (simp_all del: unat_u32_lt)
      have short: "as_u64 (get_available_balance acc ?a) + as_u64 (le_amount l) < as_u64 ?n \<longleftrightarrow>
          get_available_balance ?acc ?a < ?n"
        by (simp add: word_less_nat_alt sum avail)
      have cancel: "cancel_order bk ?i = (Some old, ?bk)"
        using cancel_order_pruned [OF books_ok_get [OF books bk]] old by (simp add: get_order_def)
      have unlock: "unlock_order acc ?i = (Inr (), ?acc)" using al by (simp add: unlock_order_def)
      have e': "snd (core_cancel_order e pair ?i) = ?e"
        using bk cancel acc unlock by (simp add: core_cancel_order_def release_def)
      have gone: "\<not> has_order ?bk ?i"
        by (auto simp: has_order_def hm_contains_def hm_get_def pruned_def map_of_eq_None_iff
            dest: indexed_key [rotated])
          (metis books_ok_get [OF books bk] book_ok_def indexed_key)
      have rej: "rejection ?e pair (replacement m (o_type old) 0) =
          (if get_available_balance ?acc ?a < ?n then Some InsufficientBalance else None)"
        using valid gone mo
        by (simp add: rejection_def word_less_nat_alt unat_lock_quantity)
      show ?thesis
      proof (cases "get_available_balance ?acc ?a < ?n")
        case True
        with valid bk old mo acc al short show ?thesis
          by (simp add: core_modify_order_def cancel_then_place_def validate_order_iff Let_def
              lock_amount_for_valid get_all_locked_balances_def e' rej)
      next
        case False
        then have lock: "lock ?acc ?i ?a ?n =
            (Inr (), ?acc\<lparr>u_locked := hm_insert ?i \<lparr>le_asset = ?a, le_amount = ?n\<rparr> (u_locked ?acc)\<rparr>)"
          by (simp add: lock_def)
        let ?acc2 = "?acc\<lparr>u_locked := hm_insert ?i \<lparr>le_asset = ?a, le_amount = ?n\<rparr> (u_locked ?acc)\<rparr>"
        let ?e2 = "e\<lparr>orderbooks := hm_insert pair ?bk (orderbooks e), users := hm_insert (o_user old) ?acc2 (users e)\<rparr>"
        let ?x = "replacement m (o_type old)"
        have code: "core_modify_order e pair m c = and_then (now_nanos c) (\<lambda>(ts, c). core_place ?e2 pair ?bk (?x ts) c)"
          using False valid bk old mo acc al short cancel unlock lock
          by (cases "now_nanos c") (auto simp: core_modify_order_def validate_order_iff Let_def
              lock_amount_for_valid get_all_locked_balances_def order_new_replacement [of m, unfolded mo])
        have "secure ?e pair (?x ts) = ?e2" for ts using mo by (simp add: secure_def hm_insert_twice)
        then have spec: "core_add_order ?e pair (?x ts) c = core_place ?e2 pair ?bk (?x ts) c" for ts c
          using False rejection_time [of ?e pair m "o_type old" ts] by (simp add: core_add_order_split rej)
        have "cancel_then_place e pair m c = and_then (now_nanos c) (\<lambda>(ts, c). core_add_order ?e pair (?x ts) c)"
          using False bk old mo(1) by (simp add: cancel_then_place_def mo(2) [symmetric] Let_def e' rej)
        also have "\<dots> = and_then (now_nanos c) (\<lambda>(ts, c). core_place ?e2 pair ?bk (?x ts) c)"
          by (simp only: spec)
        finally have "cancel_then_place e pair m c = \<dots>" .
        with code show ?thesis by simp
      qed
    qed
  qed
qed

end
