(* ===== verification/CoreReach.thy ===== *)
theory CoreReach
  imports CoreOrders
begin

text \<open>
  The engine over time: the remaining operations keep the invariant, and so every engine state
  reachable from start-up satisfies it, with every resting identifier below the next one issued.
\<close>

section \<open>Pairs and accounts\<close>

lemma fold_release_lock:
  "lock_at (fold (\<lambda>x us. release us (o_user x) (o_id x)) xs us) v j =
     (if \<exists>x \<in> set xs. o_user x = v \<and> o_id x = j then None else lock_at us v j)"
  by (induction xs arbitrary: us) auto

lemma fold_release_ok: "table_ok us \<Longrightarrow> table_ok (fold (\<lambda>x us. release us (o_user x) (o_id x)) xs us)"
  by (induction xs arbitrary: us) (auto intro: release_ok)

lemma fold_release_wealth: "wealth (fold (\<lambda>x us. release us (o_user x) (o_id x)) xs us) v a = wealth us v a"
  by (induction xs arbitrary: us) auto

lemma order_book_new_empty: "book_orders order_book_new = {#}"
  by (simp add: book_orders_def order_book_new_def)

lemma core_add_trading_pair_ok:
  assumes "engine_ok e"
  shows "engine_ok (core_add_trading_pair e pair)" and "resting (core_add_trading_pair e pair) = resting e"
proof -
  show r: "resting (core_add_trading_pair e pair) = resting e"
    by (intro ext) (auto simp: core_add_trading_pair_def resting_def hm_contains_def order_book_new_empty)
  have "books_ok e" "table_ok (users e)" using assms by (simp_all add: engine_ok_def)
  then have "books_ok (core_add_trading_pair e pair)"
    by (simp add: core_add_trading_pair_def books_ok_insert order_book_new_ok)
  with \<open>table_ok (users e)\<close> show "engine_ok (core_add_trading_pair e pair)"
    by (intro engine_ok_shrink [OF assms]) (simp_all add: r, simp_all add: core_add_trading_pair_def)
qed

lemma core_remove_trading_pair_ok:
  assumes e: "engine_ok e"
  shows "engine_ok (snd (core_remove_trading_pair e pair))"
    and "resting (snd (core_remove_trading_pair e pair)) p y \<longleftrightarrow> resting e p y \<and> p \<noteq> pair"
proof -
  have books: "books_ok e" and us: "table_ok (users e)" using e by (simp_all add: engine_ok_def)
  show r: "resting (snd (core_remove_trading_pair e pair)) p y \<longleftrightarrow> resting e p y \<and> p \<noteq> pair" for p y
    by (auto simp: core_remove_trading_pair_def resting_def split: option.splits)
  show "engine_ok (snd (core_remove_trading_pair e pair))"
  proof (cases "hm_get (orderbooks e) pair")
    case None
    with e show ?thesis by (simp add: core_remove_trading_pair_def)
  next
    case (Some bk)
    have ix: "indexed (book_orders bk) (orders_map bk)"
      using books_ok_get [OF books Some] by (simp add: book_ok_def)
    show ?thesis
    proof (rule engine_ok_shrink [OF e])
      show "books_ok (snd (core_remove_trading_pair e pair))"
        using books Some by (auto simp: core_remove_trading_pair_def books_ok_def)
      show "table_ok (users (snd (core_remove_trading_pair e pair)))"
        using us Some by (simp add: core_remove_trading_pair_def fold_release_ok)
      fix p y
      assume "resting (snd (core_remove_trading_pair e pair)) p y"
      then have y: "resting e p y" "p \<noteq> pair" by (simp_all add: r)
      have "o_id x \<noteq> o_id y" if "x \<in> set (get_all_orders bk)" for x
      proof -
        from that obtain k where "(k, x) \<in> set (orders_map bk)" by (auto simp: get_all_orders_def hm_values_def)
        from indexed_entry [OF ix this] indexed_key [OF ix this] obtain z where
          "z \<in># book_orders bk" "o_id z = o_id x" by metis
        then show ?thesis using e y Some unfolding engine_ok_def resting_def by metis
      qed
      with y Some show "resting e p y \<and> lock_at (users (snd (core_remove_trading_pair e pair))) (o_user y) (o_id y) =
          lock_at (users e) (o_user y) (o_id y)"
        by (auto simp: core_remove_trading_pair_def fold_release_lock)
    qed
  qed
qed

lemma core_add_user_ok:
  assumes e: "engine_ok e"
  shows "engine_ok (core_add_user e u)" and "resting (core_add_user e u) = resting e"
proof -
  have books: "books_ok e" and us: "table_ok (users e)" using e by (simp_all add: engine_ok_def)
  show r: "resting (core_add_user e u) = resting e" by (simp add: core_add_user_def)
  have lk: "lock_at (users (core_add_user e u)) v i = lock_at (users e) v i" for v i
    by (auto simp: core_add_user_def hm_contains_def lock_at_def user_new_def)
  have "table_ok (users (core_add_user e u))"
    using us user_new_ok [of "Some u" 0] by (simp add: core_add_user_def table_ok_insert user_new_def)
  moreover have "books_ok (core_add_user e u)" using books by (simp add: core_add_user_def)
  ultimately show "engine_ok (core_add_user e u)"
    by (intro engine_ok_shrink [OF e]) (simp_all add: r lk)
qed

text \<open>Deposits and withdrawals replace one account by one with the same locks.\<close>

lemma account_update_ok:
  assumes e: "engine_ok e" and acc: "hm_get (users e) u = Some acc"
    and ok: "user_ok acc'" and same: "u_locked acc' = u_locked acc" "u_id acc' = u_id acc"
  shows "engine_ok (e\<lparr>users := hm_insert u acc' (users e)\<rparr>)"
proof -
  have books: "books_ok e" and us: "table_ok (users e)" using e by (simp_all add: engine_ok_def)
  show ?thesis
  proof (rule engine_ok_shrink [OF e])
    show "table_ok (users (e\<lparr>users := hm_insert u acc' (users e)\<rparr>))"
      using us ok same(2) table_ok_get [OF us acc] by (simp add: table_ok_insert)
    fix p x
    assume "resting (e\<lparr>users := hm_insert u acc' (users e)\<rparr>) p x"
    then show "resting e p x \<and> lock_at (users (e\<lparr>users := hm_insert u acc' (users e)\<rparr>)) (o_user x) (o_id x) =
        lock_at (users e) (o_user x) (o_id x)"
      using acc same(1) by (simp add: lock_at_def)
  qed (simp add: books)
qed

lemma core_deposit_balance_ok:
  assumes e: "engine_ok e"
  shows "engine_ok (snd (core_deposit_balance e u a n))" and "resting (snd (core_deposit_balance e u a n)) = resting e"
proof -
  show "resting (snd (core_deposit_balance e u a n)) = resting e"
    by (simp add: core_deposit_balance_def split: option.split prod.split sum.split)
  show "engine_ok (snd (core_deposit_balance e u a n))"
  proof (cases "hm_get (users e) u")
    case (Some acc)
    have "table_ok (users e)" using e by (simp add: engine_ok_def)
    then have "user_ok acc" using table_ok_get Some by blast
    then have "user_ok (snd (add_balance acc a n))" by (rule add_balance_ok)
    then have "engine_ok (e\<lparr>users := hm_insert u (snd (add_balance acc a n)) (users e)\<rparr>)"
      by (rule account_update_ok [OF e Some]) (simp_all add: add_balance_cases)
    then show ?thesis using Some by (auto simp: core_deposit_balance_def split: prod.split sum.split)
  qed (use e in \<open>simp add: core_deposit_balance_def\<close>)
qed

lemma core_withdraw_balance_ok:
  assumes e: "engine_ok e"
  shows "engine_ok (snd (core_withdraw_balance e u a n))" and "resting (snd (core_withdraw_balance e u a n)) = resting e"
proof -
  show "resting (snd (core_withdraw_balance e u a n)) = resting e"
    by (simp add: core_withdraw_balance_def split: option.split prod.split sum.split)
  show "engine_ok (snd (core_withdraw_balance e u a n))"
  proof (cases "hm_get (users e) u")
    case (Some acc)
    have "table_ok (users e)" using e by (simp add: engine_ok_def)
    then have ok: "user_ok acc" using table_ok_get Some by blast
    then have "user_ok (snd (substract_balance acc a n))" by (rule substract_balance_ok)
    then have "engine_ok (e\<lparr>users := hm_insert u (snd (substract_balance acc a n)) (users e)\<rparr>)"
      by (rule account_update_ok [OF e Some]) (simp_all add: substract_balance_cases [OF ok])
    then show ?thesis using Some by (auto simp: core_withdraw_balance_def split: prod.split sum.split)
  qed (use e in \<open>simp add: core_withdraw_balance_def\<close>)
qed

section \<open>Removing a user\<close>

definition without :: "user_id \<Rightarrow> order_book \<Rightarrow> order_book" where
  "without u bk = pruned (\<lambda>x. o_user x \<noteq> u) bk"

lemma without_ok:
  assumes "book_ok bk"
  shows "book_ok (without u bk)" and "book_orders (without u bk) = {#x \<in># book_orders bk. o_user x \<noteq> u#}"
proof -
  have "same_terms x y \<Longrightarrow> (o_user x \<noteq> u) = (o_user y \<noteq> u)" for x y by (simp add: same_terms_def)
  from pruned_ok [OF assms this] show "book_ok (without u bk)"
    "book_orders (without u bk) = {#x \<in># book_orders bk. o_user x \<noteq> u#}" by (simp_all add: without_def)
qed

lemma fold_unlock_ok:
  "user_ok a \<Longrightarrow> user_ok (fold (\<lambda>i a. snd (unlock_order a i)) is a)"
  by (induction "is" arbitrary: a) (auto intro: unlock_order_ok)

lemma fold_unlock_frame:
  "u_id (fold (\<lambda>i a. snd (unlock_order a i)) is a) = u_id a"
  "u_balances (fold (\<lambda>i a. snd (unlock_order a i)) is a) = u_balances a"
  by (induction "is" arbitrary: a) (simp_all add: unlock_order_def split: option.split)

lemma cancel_in_books_effect:
  assumes "\<forall>(pair, bk) \<in> set books. book_ok bk" and "table_ok us"
  shows "fst (cancel_in_books u books us) = map (map_prod id (without u)) books \<and>
    table_ok (snd (cancel_in_books u books us)) \<and>
    (\<forall>v a. v \<noteq> u \<longrightarrow> hm_get (snd (cancel_in_books u books us)) v = hm_get us v) \<and>
    map_option u_balances (hm_get (snd (cancel_in_books u books us)) u) = map_option u_balances (hm_get us u)"
  using assms
proof (induction books arbitrary: us)
  case (Cons entry books)
  obtain pair bk where entry: "entry = (pair, bk)" by (cases entry)
  with Cons.prems have bk: "book_ok bk" and books: "\<forall>(pair, bk) \<in> set books. book_ok bk" by simp_all
  obtain "is" bk' where cancel: "cancel_orders_for_user bk u = (is, bk')" by (cases "cancel_orders_for_user bk u")
  have bk': "bk' = without u bk"
    using cancel_orders_for_user_pruned [OF bk, of u] cancel by (simp add: without_def)
  define us' where "us' = (case hm_get us u of None \<Rightarrow> us
      | Some a \<Rightarrow> hm_insert u (fold (\<lambda>i a. snd (unlock_order a i)) is a) us)"
  have ok': "table_ok us'"
    using Cons.prems(2) table_ok_get [OF Cons.prems(2)] fold_unlock_ok fold_unlock_frame(1)
    by (auto simp: us'_def table_ok_insert split: option.split)
  have frame: "hm_get us' v = hm_get us v" if "v \<noteq> u" for v
    using that by (simp add: us'_def split: option.split)
  have own: "map_option u_balances (hm_get us' u) = map_option u_balances (hm_get us u)"
    by (simp add: us'_def fold_unlock_frame split: option.split)
  obtain bks us2 where rest: "cancel_in_books u books us' = (bks, us2)"
    by (cases "cancel_in_books u books us'")
  have run: "cancel_in_books u (entry # books) us = ((pair, bk') # bks, us2)"
    by (simp add: entry cancel us'_def [symmetric] rest Let_def)
  from Cons.IH [OF books ok'] show ?case
    unfolding run by (simp add: rest entry bk' frame own)
qed simp

lemma hm_get_map: "hm_get (map (map_prod id f) m) k = map_option f (hm_get m k)"
  by (induction m) (auto simp: hm_get_def)

lemma hm_ok_map: "hm_ok (map (map_prod id f) m) = hm_ok m"
  by (simp add: hm_ok_def comp_def)

lemma core_remove_user_effect:
  assumes e: "engine_ok e"
  shows "hm_get (orderbooks (snd (core_remove_user e u))) pair = map_option (without u) (hm_get (orderbooks e) pair)"
    and "hm_get (users (snd (core_remove_user e u))) v = (if v = u then None else hm_get (users e) v)"
    and "fst (core_remove_user e u) = (case hm_get (users e) u of None \<Rightarrow> Inl UserNoSuchUser | Some a \<Rightarrow> Inr (u_balances a))"
    and "engine_ok (snd (core_remove_user e u))" and "ids (snd (core_remove_user e u)) = ids e"
    and "resting (snd (core_remove_user e u)) p y \<longleftrightarrow> resting e p y \<and> o_user y \<noteq> u"
proof -
  have books: "books_ok e" and us: "table_ok (users e)" using e by (simp_all add: engine_ok_def)
  have "\<forall>(pair, bk) \<in> set (orderbooks e). book_ok bk"
    using books by (auto simp: books_ok_def hm_get_iff)
  note eff = cancel_in_books_effect [OF this us, of u]
  obtain bks us' where run: "cancel_in_books u (orderbooks e) (users e) = (bks, us')"
    by (cases "cancel_in_books u (orderbooks e) (users e)")
  with eff have bks: "bks = map (map_prod id (without u)) (orderbooks e)" and us': "table_ok us'"
    and others: "\<And>v. v \<noteq> u \<Longrightarrow> hm_get us' v = hm_get (users e) v"
    and own: "map_option u_balances (hm_get us' u) = map_option u_balances (hm_get (users e) u)" by simp_all
  have res: "snd (core_remove_user e u) = e\<lparr>orderbooks := bks, users := hm_remove u us'\<rparr>"
    by (simp add: core_remove_user_def run Let_def split: option.split)
  show books': "hm_get (orderbooks (snd (core_remove_user e u))) pair = map_option (without u) (hm_get (orderbooks e) pair)" for pair
    by (simp add: res bks hm_get_map)
  show users': "hm_get (users (snd (core_remove_user e u))) v = (if v = u then None else hm_get (users e) v)" for v
    by (simp add: res others)
  show "fst (core_remove_user e u) = (case hm_get (users e) u of None \<Rightarrow> Inl UserNoSuchUser | Some a \<Rightarrow> Inr (u_balances a))"
    using own by (cases "hm_get us' u"; cases "hm_get (users e) u")
      (simp_all add: core_remove_user_def run Let_def get_all_balances_def)
  show "ids (snd (core_remove_user e u)) = ids e" by (simp add: res)
  show r: "resting (snd (core_remove_user e u)) p y \<longleftrightarrow> resting e p y \<and> o_user y \<noteq> u" for p y
    using without_ok(2) [OF books_ok_get [OF books]] by (auto simp: resting_def books')
  show "engine_ok (snd (core_remove_user e u))"
  proof (rule engine_ok_shrink [OF e])
    have "hm_ok bks" using books by (simp add: bks hm_ok_map books_ok_def)
    moreover have "book_ok bk'" if "hm_get (orderbooks (snd (core_remove_user e u))) pair = Some bk'" for pair bk'
      using that books_ok_get [OF books] by (auto simp: books' intro: without_ok)
    ultimately show "books_ok (snd (core_remove_user e u))" by (simp add: books_ok_def res)
    show "table_ok (users (snd (core_remove_user e u)))" using us' by (simp add: res table_ok_remove)
    fix p y
    assume "resting (snd (core_remove_user e u)) p y"
    then have "resting e p y" "o_user y \<noteq> u" by (simp_all add: r)
    then show "resting e p y \<and> lock_at (users (snd (core_remove_user e u))) (o_user y) (o_id y) =
        lock_at (users e) (o_user y) (o_id y)" by (simp add: lock_at_def users')
  qed
qed

section \<open>Submitting and modifying orders\<close>

text \<open>
  An order as it arrives: the engine issues the identifier, stamps the order and places it.
\<close>

definition core_submit ::
  "core_engine \<Rightarrow> trading_pair \<Rightarrow> order_type \<Rightarrow> side \<Rightarrow> price \<Rightarrow> quantity \<Rightarrow> user_id \<Rightarrow> clock
     \<Rightarrow> fault + (order_error + order_id \<times> trade list option) \<times> core_engine \<times> clock" where
  "core_submit e pair ty sd p q u c =
     and_then (core_next_id e c) (\<lambda>(i, e, c).
     and_then (order_new i ty sd Empty p q u c) (\<lambda>(x, c).
     and_then (core_add_order e pair x c) (\<lambda>(r, e, c).
       Inr (map_sum id (\<lambda>ts. (i, ts)) r, e, c))))"

definition clock_fault :: "fault \<Rightarrow> bool" where
  "clock_fault f \<longleftrightarrow> f \<in> {ClockExhausted, Panic ClockBeforeUnixEpoch, Panic ClockMovedBackwards}"

lemma now_nanos_fault: "now_nanos c = Inl f \<Longrightarrow> clock_fault f"
  by (auto simp: now_nanos_def clock_fault_def split: list.splits if_splits)

lemma next_id_fault: "next_id g c = Inl f \<Longrightarrow> clock_fault f"
proof -
  have millis: "current_millis c = Inl f \<Longrightarrow> clock_fault f" for c
    by (auto simp: current_millis_def clock_fault_def split: list.splits if_splits)
  have wait: "wait_next_millis t c = Inl f \<Longrightarrow> clock_fault f" for t c
    by (induction t c rule: wait_next_millis.induct) (auto simp: clock_fault_def split: if_splits)
  assume "next_id g c = Inl f"
  then show ?thesis using millis wait
    by (auto simp: next_id_def and_then_Inl Let_def clock_fault_def split: if_splits)
qed

lemma draw_fault: "draw stamp n g c = Inl f \<Longrightarrow> clock_fault f"
proof (induction n arbitrary: g c)
  case (Suc n)
  then show ?case
    by (auto simp: and_then_Inl stamp_def dest: next_id_fault now_nanos_fault)
qed simp

lemma stamps_fail_fault: "stamps_fail g c f \<Longrightarrow> clock_fault f"
  by (auto simp: stamps_fail_def dest: draw_fault)

lemma issues_next:
  assumes "issues g c ts g' c'" and "gen_ok g" and "clock_ok c"
  shows "gen_ok g' \<and> clock_ok c' \<and> id_floor g \<le> id_floor g'"
proof -
  have "draw stamp (length ts) g c = Inr (map stamp_of ts, g', c')"
    using assms(1) by (simp add: issues_def)
  from stamps.draw_spec [OF this] assms(2,3) show ?thesis by simp
qed

text \<open>The invariant together with the identifiers: every resting one was issued before.\<close>

definition exchange_ok :: "core_engine \<Rightarrow> bool" where
  "exchange_ok e \<longleftrightarrow> engine_ok e \<and> gen_ok (ids e) \<and>
     (\<forall>pair y. resting e pair y \<longrightarrow> unat (o_id y) < id_floor (ids e))"

text \<open>
  The same in a process that was started on a log. Its generator starts again and does not know the
  identifiers of earlier processes, which lie below \<open>b\<close>; the clock is past them when every reading
  gives identifiers from \<open>b\<close> on. With \<open>b\<close> zero, nothing was issued before.
\<close>

definition exchange_since :: "nat \<Rightarrow> core_engine \<Rightarrow> bool" where
  "exchange_since b e \<longleftrightarrow> engine_ok e \<and> gen_ok (ids e) \<and>
     (\<forall>pair y. resting e pair y \<longrightarrow> unat (o_id y) < max b (id_floor (ids e)))"

definition clock_since :: "nat \<Rightarrow> clock \<Rightarrow> bool" where
  "clock_since b c \<longleftrightarrow> clock_ok c \<and> (\<forall>r \<in> set c. b \<le> (unat (millis r) - unat EPOCH) * 2 ^ 22)"

lemma since_0 [simp]: "exchange_since 0 e = exchange_ok e" "clock_since 0 c = clock_ok c"
  by (simp_all add: exchange_since_def exchange_ok_def clock_since_def)

lemma clock_since_ok: "clock_since b c \<Longrightarrow> clock_ok c"
  by (simp add: clock_since_def)

lemma exchange_sinceD: "exchange_since b e \<Longrightarrow> engine_ok e \<and> gen_ok (ids e)"
  by (simp add: exchange_since_def)

lemma exchange_since_step:
  assumes "exchange_since b e" and "engine_ok e'" and "ids e' = ids e"
    and "\<And>p y. resting e' p y \<Longrightarrow> \<exists>z. resting e p z \<and> o_id z = o_id y"
  shows "exchange_since b e'"
  using assms unfolding exchange_since_def by metis

lemma next_id_since:
  assumes "next_id g c = Inr (i, g', c')" and "gen_ok g" and "clock_since b c"
  shows "max b (id_floor g) \<le> unat i \<and> unat i < id_floor g'"
proof -
  have c: "clock_ok c" using assms(3) by (rule clock_since_ok)
  note spec = next_id_spec [OF assms(1,2) c] and later = next_id_floor [OF assms(1,2) c]
  obtain r where r: "r \<in> set c" "last_timestamp g' = millis r" using next_id_reading [OF assms(1)] by metis
  then have "b \<le> (unat (millis r) - unat EPOCH) * 2 ^ 22" using assms(3) by (simp add: clock_since_def)
  also have "\<dots> \<le> (unat (last_timestamp g') - unat EPOCH) * 2 ^ 22"
    by (simp add: r(2))
  also have "\<dots> \<le> id_value g'" by (simp add: id_value_def)
  finally show ?thesis using spec later by (simp add: unat_encode_id advances_def)
qed

lemma placement_outcome_exchange:
  assumes out: "placement_outcome e pair i c (Inr (r, e', c'))" and "clock_ok c"
    and i: "unat i < max b (id_floor (ids e))" and e: "exchange_since b e"
  shows "exchange_since b e'"
proof -
  have g: "gen_ok (ids e)" and old: "\<forall>pair y. resting e pair y \<longrightarrow> unat (o_id y) < max b (id_floor (ids e))"
    using e by (simp_all add: exchange_since_def)
  have gen: "gen_ok (ids e') \<and> id_floor (ids e) \<le> id_floor (ids e')"
    using out issues_next [OF _ g assms(2)] g
    by (auto simp: placement_outcome_def split: sum.splits option.splits)
  have "unat (o_id y) < max b (id_floor (ids e))" if "resting e' p y" for p y
    using out that old i unfolding placement_outcome_def by (simp split: sum.splits) metis
  moreover have "engine_ok e'" using out by (simp add: placement_outcome_def)
  ultimately show ?thesis using gen unfolding exchange_since_def by (meson less_le_trans max.mono order_refl)
qed

text \<open>At most one order more rests than before.\<close>

definition one_more :: "core_engine \<Rightarrow> core_engine \<Rightarrow> bool" where
  "one_more e e' \<longleftrightarrow> (\<exists>pair i. \<forall>p y. resting e' p y \<longrightarrow>
     p = pair \<and> o_id y = i \<or> (\<exists>z. resting e p z \<and> o_id z = o_id y))"

lemma one_more_shrink: "(\<And>p y. resting e' p y \<Longrightarrow> resting e p y) \<Longrightarrow> one_more e e'"
  unfolding one_more_def by blast

lemma core_submit_since:
  assumes e: "exchange_since b e" and small: "books_small e" and c: "clock_since b c"
  shows "case core_submit e pair ty sd p q u c of Inl f \<Rightarrow> clock_fault f \<or> credit_overflow f
    | Inr (r, e', c') \<Rightarrow> exchange_since b e' \<and> one_more e e' \<and>
        (\<forall>err. r = Inl err \<longrightarrow> orderbooks e' = orderbooks e \<and> users e' = users e)"
proof (cases "next_id (ids e) c")
  case (Inl f)
  then show ?thesis by (auto simp: core_submit_def core_next_id_def dest: next_id_fault)
next
  case (Inr o1)
  obtain i g c1 where nid: "next_id (ids e) c = Inr (i, g, c1)" using Inr by (cases o1) auto
  have gen: "gen_ok (ids e)" and eng: "engine_ok e" using e by (simp_all add: exchange_since_def)
  note spec = next_id_spec [OF nid gen clock_since_ok [OF c]] next_id_since [OF nid gen c]
  let ?e = "e\<lparr>ids := g\<rparr>"
  have e1: "engine_ok ?e" using eng by (auto simp: engine_ok_def)
  have below: "unat (o_id y) < max b (id_floor (ids e))" if "resting e pair y" for pair y
    using e that by (simp add: exchange_since_def)
  have old: "unat (o_id y) < max b (id_floor g)" if "resting ?e pair y" for pair y
    using below [of pair y] that spec(2) by (auto simp: less_max_iff_disj)
  have fresh: "fresh_in ?e i"
    unfolding fresh_in_def
  proof (intro allI impI)
    fix pair y
    assume "resting ?e pair y"
    then have "resting e pair y" by simp
    from below [OF this] spec(2) show "o_id y \<noteq> i" by auto
  qed
  have x1: "exchange_since b ?e" using e1 spec(1) old by (simp add: exchange_since_def)
  show ?thesis
  proof (cases "now_nanos c1")
    case (Inl f)
    then show ?thesis by (auto simp: core_submit_def core_next_id_def nid order_new_def dest: now_nanos_fault)
  next
    case (Inr o2)
    obtain ts c2 where now: "now_nanos c1 = Inr (ts, c2)" using Inr by (cases o2) auto
    have c2: "clock_ok c2" using now spec(1) by (auto simp: now_nanos_Inr)
    let ?x = "\<lparr>o_id = i, o_type = ty, o_side = sd, o_status = Empty, o_price = p,
      o_initial = q, o_remaining = q, o_timestamp = ts, o_user = u\<rparr>"
    have small1: "books_small ?e" using small by (simp add: books_small_def)
    have out: "placement_outcome ?e pair i c2 (core_add_order ?e pair ?x c2)"
      using core_add_order_outcome [OF e1 small1, of ?x pair c2] fresh by simp
    have run: "core_submit e pair ty sd p q u c =
        and_then (core_add_order ?e pair ?x c2) (\<lambda>(r, e, c). Inr (map_sum id (\<lambda>ts. (i, ts)) r, e, c))"
      by (simp add: core_submit_def core_next_id_def nid order_new_def now)
    show ?thesis
    proof (cases "core_add_order ?e pair ?x c2")
      case (Inl f)
      with out show ?thesis by (auto simp: run placement_outcome_def dest: stamps_fail_fault)
    next
      case (Inr o3)
      obtain r e' c' where add: "core_add_order ?e pair ?x c2 = Inr (r, e', c')" using Inr by (cases o3) auto
      have "exchange_since b e'"
        using placement_outcome_exchange [OF out [unfolded add] c2 _ x1] spec(2) by simp
      moreover have "orderbooks e' = orderbooks e \<and> users e' = users e" if "r = Inl err" for err
        using out that by (simp add: add placement_outcome_def)
      moreover have "one_more e e'"
      proof -
        have "\<forall>p y. resting e' p y \<longrightarrow> p = pair \<and> o_id y = i \<or> (\<exists>z. resting e p z \<and> o_id z = o_id y)"
          using out by (simp add: add placement_outcome_def)
        then show ?thesis unfolding one_more_def by blast
      qed
      ultimately show ?thesis by (cases r) (auto simp: run add)
    qed
  qed
qed

lemma books_small_cancel:
  assumes ok: "books_ok e" and small: "books_small e"
  shows "books_small (snd (core_cancel_order e pair i))"
proof (cases "Option.bind (hm_get (orderbooks e) pair) (\<lambda>bk. get_order bk i)")
  case None
  with small show ?thesis by (simp add: core_cancel_order_cases [OF ok])
next
  case (Some x)
  then obtain bk where bk: "hm_get (orderbooks e) pair = Some bk" by (auto simp: bind_eq_Some_conv)
  have "book_size (pruned (\<lambda>y. o_id y \<noteq> i) bk) \<le> book_size bk" by (simp add: book_size_def pruned_def)
  also have "\<dots> \<le> 2 ^ 32" using small bk unfolding books_small_def by blast
  finally show ?thesis
    using Some bk small by (simp add: core_cancel_order_cases [OF ok] books_small_def)
qed

lemma core_modify_since:
  assumes e: "exchange_since b e" and small: "books_small e" and c: "clock_ok c"
  shows "case core_modify_order e pair m c of Inl f \<Rightarrow> clock_fault f \<or> credit_overflow f
    | Inr (r, e', c') \<Rightarrow> exchange_since b e' \<and> one_more e e' \<and> (\<forall>err. r = Inl err \<longrightarrow> e' = e \<and> c' = c)"
proof -
  have eng: "engine_ok e" using e by (simp add: exchange_since_def)
  then have books: "books_ok e" by (simp add: engine_ok_def)
  let ?e = "snd (core_cancel_order e pair (m_id m))"
  consider (same) err where "core_modify_order e pair m c = Inr (Inl err, e, c)"
    | (place) old where "Option.bind (hm_get (orderbooks e) pair) (\<lambda>bk. get_order bk (m_id m)) = Some old"
        "rejection ?e pair (replacement m (o_type old) 0) = None"
        "core_modify_order e pair m c = and_then (now_nanos c) (\<lambda>(ts, c).
           core_add_order ?e pair (replacement m (o_type old) ts) c)"
  proof (cases "Option.bind (hm_get (orderbooks e) pair) (\<lambda>bk. get_order bk (m_id m))")
    case None
    then show ?thesis by (intro same) (simp add: core_modify_order_spec [OF eng] cancel_then_place_def)
  next
    case (Some old)
    note run = core_modify_order_spec [OF eng, of pair m c, unfolded cancel_then_place_def Some Let_def, simplified]
    show ?thesis
    proof (cases "m_user m \<noteq> o_user old \<or> m_side m \<noteq> o_side old")
      case True
      then show ?thesis by (intro same) (auto simp: run)
    next
      case False
      then show ?thesis
        by (cases "rejection ?e pair (replacement m (o_type old) 0)") (auto simp: run Some intro: same place)
    qed
  qed
  then show ?thesis
  proof cases
    case same
    with e show ?thesis by (simp add: one_more_shrink)
  next
    case place
    note cancel = core_cancel_order_ok [OF eng, of pair "m_id m"]
    have gone: "fst (core_cancel_order e pair (m_id m))"
      using place(1) by (simp add: core_cancel_order_cases [OF books])
    have fresh: "fresh_in ?e (m_id m)" using gone by (simp add: fresh_in_def cancel(2))
    have small': "books_small ?e" using books small by (rule books_small_cancel)
    have x': "exchange_since b ?e"
      using e cancel(1,4) cancel(2) by (intro exchange_since_step [OF e]) auto
    obtain bk where bk: "hm_get (orderbooks e) pair = Some bk" "get_order bk (m_id m) = Some old"
      using place(1) by (auto simp: bind_eq_Some_conv)
    from get_order_resting [OF books bk] obtain z where z: "resting e pair z" "o_id z = m_id m" .
    then have i: "unat (m_id m) < max b (id_floor (ids ?e))" using e unfolding exchange_since_def cancel(4) by metis
    show ?thesis
    proof (cases "now_nanos c")
      case (Inl f)
      then show ?thesis by (auto simp: place(3) dest: now_nanos_fault)
    next
      case (Inr o1)
      obtain ts c1 where now: "now_nanos c = Inr (ts, c1)" using Inr by (cases o1) auto
      have c1: "clock_ok c1" using now c by (auto simp: now_nanos_Inr)
      let ?x = "replacement m (o_type old) ts"
      have out: "placement_outcome ?e pair (m_id m) c1 (core_add_order ?e pair ?x c1)"
        using core_add_order_outcome [OF cancel(1) small', of ?x pair c1] fresh by simp
      have accept: "core_add_order ?e pair ?x c1 \<noteq> Inr (Inl err, e', c')" for err e' c'
        using place(2) core_place_accepts rejection_time [of ?e pair m "o_type old" ts]
        by (simp add: core_add_order_split)
      show ?thesis
      proof (cases "core_add_order ?e pair ?x c1")
        case (Inl f)
        with out show ?thesis by (auto simp: place(3) now placement_outcome_def dest: stamps_fail_fault)
      next
        case (Inr o3)
        obtain r e' c' where add: "core_add_order ?e pair ?x c1 = Inr (r, e', c')" using Inr by (cases o3) auto
        have "exchange_since b e'" using placement_outcome_exchange [OF out [unfolded add] c1 i x'] .
        moreover have "one_more e e'"
        proof -
          have "\<forall>p y. resting e' p y \<longrightarrow> p = pair \<and> o_id y = m_id m \<or> (\<exists>z. resting ?e p z \<and> o_id z = o_id y)"
            using out by (simp add: add placement_outcome_def)
          then show ?thesis unfolding one_more_def cancel(2) by blast
        qed
        ultimately show ?thesis using accept add by (cases r) (auto simp: place(3) now)
      qed
    qed
  qed
qed

lemmas core_submit_ok = core_submit_since [where b = 0, simplified]
lemmas core_modify_ok = core_modify_since [where b = 0, simplified]

end
