(* ===== verification/Exchange.thy ===== *)
theory Exchange
  imports CoreReach
begin

text \<open>
  What the in-memory engine promises its callers, over every history it can go through: the
  invariant, the safety of settlement, the answer to every order, and the effect of cancelling,
  modifying, removing, depositing and withdrawing.
\<close>

section \<open>Histories of the engine\<close>

inductive exchange_reachable :: "core_engine \<Rightarrow> bool" where
  started: "core_new m d = Inr e \<Longrightarrow> exchange_reachable e"
| submitted: "exchange_reachable e \<Longrightarrow> books_small e \<Longrightarrow> clock_ok c \<Longrightarrow>
    core_submit e pair ty sd p q u c = Inr (r, e', c') \<Longrightarrow> exchange_reachable e'"
| modified: "exchange_reachable e \<Longrightarrow> books_small e \<Longrightarrow> clock_ok c \<Longrightarrow>
    core_modify_order e pair m c = Inr (r, e', c') \<Longrightarrow> exchange_reachable e'"
| cancelled: "exchange_reachable e \<Longrightarrow> core_cancel_order e pair i = (r, e') \<Longrightarrow> exchange_reachable e'"
| pair_added: "exchange_reachable e \<Longrightarrow> exchange_reachable (core_add_trading_pair e pair)"
| pair_removed: "exchange_reachable e \<Longrightarrow> core_remove_trading_pair e pair = (r, e') \<Longrightarrow> exchange_reachable e'"
| user_added: "exchange_reachable e \<Longrightarrow> exchange_reachable (core_add_user e u)"
| user_removed: "exchange_reachable e \<Longrightarrow> core_remove_user e u = (r, e') \<Longrightarrow> exchange_reachable e'"
| deposited: "exchange_reachable e \<Longrightarrow> core_deposit_balance e u a n = (r, e') \<Longrightarrow> exchange_reachable e'"
| withdrawn: "exchange_reachable e \<Longrightarrow> core_withdraw_balance e u a n = (r, e') \<Longrightarrow> exchange_reachable e'"

lemma core_new_ok: "core_new m d = Inr e \<Longrightarrow> exchange_ok e"
  by (auto simp: core_new_def and_then_Inr exchange_ok_def engine_ok_def books_ok_def resting_def
      generator_new_def gen_ok_def word_le_nat_alt split: if_splits)

lemma ids_frame [simp]:
  "ids (core_add_trading_pair e pair) = ids e" "ids (snd (core_remove_trading_pair e pair)) = ids e"
  "ids (core_add_user e u) = ids e" "ids (snd (core_deposit_balance e u a n)) = ids e"
  "ids (snd (core_withdraw_balance e u a n)) = ids e"
  by (simp_all add: core_add_trading_pair_def core_remove_trading_pair_def core_add_user_def
      core_deposit_balance_def core_withdraw_balance_def split: option.split prod.split sum.split)

lemma exchange_since_ops:
  assumes "exchange_since b e"
  shows "exchange_since b (snd (core_cancel_order e pair i))"
    and "exchange_since b (core_add_trading_pair e pair)" and "exchange_since b (snd (core_remove_trading_pair e pair))"
    and "exchange_since b (core_add_user e u)" and "exchange_since b (snd (core_remove_user e u))"
    and "exchange_since b (snd (core_deposit_balance e u a n))" and "exchange_since b (snd (core_withdraw_balance e u a n))"
proof -
  have e: "engine_ok e" using assms by (simp add: exchange_since_def)
  note step = exchange_since_step [OF assms]
  note ops = core_cancel_order_ok [OF e, of pair i] core_add_trading_pair_ok [OF e, of pair] core_remove_trading_pair_ok [OF e, of pair]
    core_add_user_ok [OF e, of u] core_remove_user_effect [OF e, of u] core_deposit_balance_ok [OF e, of u a n]
    core_withdraw_balance_ok [OF e, of u a n]
  show "exchange_since b (snd (core_cancel_order e pair i))" using ops by (intro step) auto
  show "exchange_since b (core_add_trading_pair e pair)" using ops by (intro step) auto
  show "exchange_since b (snd (core_remove_trading_pair e pair))" using ops by (intro step) auto
  show "exchange_since b (core_add_user e u)" using ops by (intro step) auto
  show "exchange_since b (snd (core_remove_user e u))" using ops by (intro step) auto
  show "exchange_since b (snd (core_deposit_balance e u a n))" using ops by (intro step) auto
  show "exchange_since b (snd (core_withdraw_balance e u a n))" using ops by (intro step) auto
qed

lemma exchange_reachable_ok: "exchange_reachable e \<Longrightarrow> exchange_ok e"
proof (induction rule: exchange_reachable.induct)
  case (started m d e)
  then show ?case by (rule core_new_ok)
next
  case (submitted e c pair ty sd p q u r e' c')
  with core_submit_ok [OF submitted.IH submitted.hyps(2,3), of pair ty sd p q u] show ?case by simp
next
  case (modified e c pair m r e' c')
  with core_modify_ok [OF modified.IH modified.hyps(2,3), of pair m] show ?case by simp
qed (metis exchange_since_ops since_0(1) snd_conv)+

section \<open>A sample engine\<close>

text \<open>One pair, a user with quote funds, a user with base funds, and one resting sell order.\<close>

definition sample_pair :: trading_pair where
  "sample_pair = trading_pair_new ETH USDC"

definition sample_exchange :: core_engine where
  "sample_exchange =
     (let e = core_add_trading_pair \<lparr>orderbooks = [], users = [], ids = sample_generator\<rparr> sample_pair;
          e = core_add_user (core_add_user e 1) 2;
          e = snd (core_deposit_balance e 1 USDC 10000)
      in snd (core_deposit_balance e 2 ETH 50))"

definition sample_sell :: "fault + (order_error + order_id \<times> trade list option) \<times> core_engine \<times> clock" where
  "sample_sell = core_submit sample_exchange sample_pair GoodTillCancel Sell (Price 100) 5 2 sample_clock"

definition sample_open :: core_engine where
  "sample_open = (case sample_sell of Inl _ \<Rightarrow> sample_exchange | Inr (_, e, _) \<Rightarrow> e)"

lemma sample_clock_ok: "clock_ok sample_clock"
  by (auto simp: sample_clock_def clock_ok_def in_era_def millis_def EPOCH_def upt_rec)

lemma sample_exchange_reachable: "exchange_reachable sample_exchange"
proof -
  have "core_new 1 1 = Inr \<lparr>orderbooks = [], users = [], ids = sample_generator\<rparr>" by code_simp
  note step = exchange_reachable.pair_added [OF exchange_reachable.started [OF this], of sample_pair]
  note step = exchange_reachable.user_added [OF exchange_reachable.user_added [OF step, of 1], of 2]
  note step = exchange_reachable.deposited [OF step prod.collapse [symmetric], of 1 USDC 10000]
  note step = exchange_reachable.deposited [OF step prod.collapse [symmetric], of 2 ETH 50]
  then show ?thesis by (simp add: sample_exchange_def Let_def)
qed

lemma sample_exchange_small: "books_small sample_exchange"
proof -
  have books: "orderbooks sample_exchange = [(sample_pair, order_book_new)]" by code_simp
  have "book_size order_book_new = 0" by code_simp
  then show ?thesis by (auto simp: books_small_def books hm_get_def)
qed

lemma sample_sell_runs: "\<exists>i c'. sample_sell = Inr (Inr (i, Some []), sample_open, c')"
proof -
  have "case sample_sell of Inr (Inr (i, Some []), _) \<Rightarrow> True | _ \<Rightarrow> False" by code_simp
  then obtain i e c' where run: "sample_sell = Inr (Inr (i, Some []), e, c')"
    by (auto split: sum.splits prod.splits option.splits list.splits)
  have "sample_open = e" unfolding sample_open_def run by simp
  with run show ?thesis by blast
qed

lemma sample_open_reachable: "exchange_reachable sample_open"
  using sample_sell_runs exchange_reachable.submitted [OF sample_exchange_reachable sample_exchange_small sample_clock_ok]
  unfolding sample_sell_def by blast

lemma sample_open_small: "books_small sample_open"
proof -
  have "list_all (\<lambda>(p, bk). length (orders_map bk) = 1) (orderbooks sample_open)" by code_simp
  then have "length (orders_map bk) = 1" if "hm_get (orderbooks sample_open) p = Some bk" for p bk
    using hm_get_SomeD [OF that] by (auto simp: list_all_iff)
  then show ?thesis by (simp add: books_small_def book_size_def)
qed

section \<open>Invariant and settlement\<close>

text \<open>
  C3. In every state the engine can reach from start-up the books are well formed, the accounts
  solvent, every resting order has a positive price and is secured by a lock of its owner on the
  asset it pays with, for at least what the rest of it may cost, no identifier rests in two books,
  and every resting identifier was issued by the generator before the next one.
\<close>

theorem exchange_invariant:
  assumes "exchange_reachable e"
  shows "exchange_ok e"
  using assms by (rule exchange_reachable_ok)

theorem exchange_invariant_witness:
  "\<exists>e. exchange_ok e \<and> length (orderbooks e) = 1 \<and> length (users e) = 2"
proof -
  have "length (orderbooks sample_open) = 1 \<and> length (users sample_open) = 2" by code_simp
  with exchange_invariant [OF sample_open_reachable] show ?thesis by blast
qed

text \<open>The seller of \<open>sample_open\<close> with as much quote money as an account can hold.\<close>

definition sample_rich :: core_engine where
  "sample_rich = snd (core_deposit_balance sample_open 2 USDC 4294967295)"

lemma sample_rich_reachable: "exchange_reachable sample_rich"
  unfolding sample_rich_def by (rule exchange_reachable.deposited [OF sample_open_reachable prod.collapse [symmetric]])

lemma sample_rich_small: "books_small sample_rich"
proof -
  have "orderbooks sample_rich = orderbooks sample_open"
    by (simp add: sample_rich_def core_deposit_balance_def split: option.split prod.split sum.split)
  with sample_open_small show ?thesis by (simp add: books_small_def)
qed

text \<open>
  C6. Settlement can only fail by the overflow of a credit: in every reachable state with at most two
  to the 32 orders resting in each book, on a clock with usable readings, submitting
  and modifying orders panics only when the system clock gives no usable reading or the credit of a
  fill exceeds the 32 bits of a balance. The other five settlement panics (missing buyer or seller,
  missing, mismatched or insufficient lock, notional overflow) and the safety net of FillOrKill are
  unreachable.
\<close>

theorem settlement_fails_only_by_overflow:
  assumes "exchange_reachable e" and "books_small e" and "clock_ok c"
  shows "(core_submit e pair ty sd p q u c = Inl f \<longrightarrow> clock_fault f \<or> credit_overflow f) \<and>
    (core_modify_order e pair m c = Inl f \<longrightarrow> clock_fault f \<or> credit_overflow f)"
proof -
  note ok = exchange_reachable_ok [OF assms(1)]
  from core_submit_ok [OF ok assms(2,3), of pair ty sd p q u] core_modify_ok [OF ok assms(2,3), of pair m]
  show ?thesis by (auto split: sum.splits)
qed

theorem settlement_fails_only_by_overflow_witness:
  "\<exists>f. core_submit sample_rich sample_pair GoodTillCancel Buy (Price 102) 3 1 (drop 6 sample_clock) = Inl f \<and>
     \<not> clock_fault f \<and> credit_overflow f"
proof -
  have "case core_submit sample_rich sample_pair GoodTillCancel Buy (Price 102) 3 1 (drop 6 sample_clock) of
      Inl f \<Rightarrow> f \<notin> {ClockExhausted, Panic ClockBeforeUnixEpoch, Panic ClockMovedBackwards} | Inr _ \<Rightarrow> False" by code_simp
  then obtain f where f: "core_submit sample_rich sample_pair GoodTillCancel Buy (Price 102) 3 1 (drop 6 sample_clock) = Inl f"
    "\<not> clock_fault f" unfolding clock_fault_def by (auto split: sum.splits)
  have "clock_ok (drop 6 sample_clock)" using sample_clock_ok by (auto simp: clock_ok_def dest: in_set_dropD)
  from settlement_fails_only_by_overflow [OF sample_rich_reachable sample_rich_small this] f show ?thesis by blast
qed

text \<open>
  C37. Settlement only ever credits. For every account and asset, the total balance after an order was
  placed is the balance before plus what the trades credit to that account: base bought and quote
  sold for. Nothing is debited anywhere, so the sum of all balances grows with every trade.
\<close>

theorem settlement_only_credits:
  assumes "engine_ok e" and "books_small e" and "fresh_in e (o_id x)" and "o_remaining x = o_initial x"
    and "core_add_order e pair x c = Inr (Inr (Some ts), e', c')"
  shows "wealth (users e') u a = wealth (users e) u a + credits pair ts u a"
  using core_add_order_outcome [OF assms(1-4), of pair c] assms(5) by (simp add: placement_outcome_def)

theorem settlement_only_credits_witness:
  "\<exists>e' :: core_engine. wealth (users e') 1 ETH = 3 \<and> wealth (users e') 1 USDC = 10000 \<and>
     wealth (users e') 2 USDC = 300 \<and> wealth (users e') 2 ETH = 50"
proof -
  let ?x = "sample_order 9 GoodTillCancel Buy 102 3 1"
  have e: "engine_ok sample_open" using exchange_reachable_ok [OF sample_open_reachable] by (simp add: exchange_ok_def)
  have ids: "list_all (\<lambda>(p, bk). list_all (\<lambda>(p, ys). list_all (\<lambda>y. o_id y \<noteq> 9) ys) (bids_map bk @ asks_map bk))
      (orderbooks sample_open)" by code_simp
  have "fresh_in sample_open (o_id ?x)"
    using ids by (fastforce simp: fresh_in_def resting_def book_orders_def orders_of_def sample_order_def
        list_all_iff dest: hm_get_SomeD)
  moreover have run: "case core_add_order sample_open sample_pair ?x (drop 6 sample_clock) of
      Inr (Inr (Some ts), e', c') \<Rightarrow> length ts = 1 \<and>
        credits sample_pair ts 1 ETH = 3 \<and> credits sample_pair ts 1 USDC = 0 \<and>
        credits sample_pair ts 2 USDC = 300 \<and> credits sample_pair ts 2 ETH = 0 | _ \<Rightarrow> False"
    by code_simp
  then obtain r e' c' where out: "core_add_order sample_open sample_pair ?x (drop 6 sample_clock) = Inr (r, e', c')"
    by (cases "core_add_order sample_open sample_pair ?x (drop 6 sample_clock)") auto
  with run obtain ts where r: "r = Inr (Some ts)"
    and ts: "length ts = 1" "credits sample_pair ts 1 ETH = 3" "credits sample_pair ts 1 USDC = 0"
      "credits sample_pair ts 2 USDC = 300" "credits sample_pair ts 2 ETH = 0"
    by (cases r) (auto split: option.split_asm)
  note add = out [unfolded r]
  moreover have "wealth (users sample_open) 1 ETH = 0" "wealth (users sample_open) 1 USDC = 10000"
    "wealth (users sample_open) 2 USDC = 0" "wealth (users sample_open) 2 ETH = 50"
  proof -
    have "map (\<lambda>(u, a). map_option (\<lambda>acc. get_balance acc a) (hm_get (users sample_open) u))
        [(1, ETH), (1, USDC), (2, USDC), (2, ETH)] = [Some 0, Some 10000, Some 0, Some 50]" by code_simp
    then show "wealth (users sample_open) 1 ETH = 0" "wealth (users sample_open) 1 USDC = 10000"
      "wealth (users sample_open) 2 USDC = 0" "wealth (users sample_open) 2 ETH = 50"
      by (auto simp: wealth_def)
  qed
  ultimately show ?thesis
    using settlement_only_credits [OF e sample_open_small _ _ add]
    by (intro exI [of _ e']) (simp add: ts sample_order_def)
qed

section \<open>The answer to an order\<close>

text \<open>
  C38. An order is answered with an error exactly when a check fails, in this order: price and quantity
  positive with a notional below two to the 32, the pair listed, the identifier not resting in its
  book, the user known, and the available funds covering price times quantity of the quote asset for
  a buy, the quantity of the base asset for a sell. An error leaves the engine exactly as it was.
\<close>

theorem core_add_order_rejects:
  "core_add_order e pair x c = Inr (Inl err, e', c') \<longleftrightarrow> rejection e pair x = Some err \<and> e' = e \<and> c' = c"
  using core_place_accepts [of "secure e pair x" pair "the (hm_get (orderbooks e) pair)" x c err e' c']
  by (auto simp: core_add_order_split split: option.split)

text \<open>
  C19. Modifying an order is cancelling it and placing its replacement, with nothing in between: the
  request is answered with an error, leaving the engine unchanged, when the order is unknown, belongs
  to another user or side, or the replacement would be rejected by the engine without the old order;
  otherwise the outcome is that of placing the replacement after the cancellation. In particular the
  balance check made before the book is touched is exact, and the lock after it cannot fail.
\<close>

theorem modify_is_cancel_then_place:
  assumes "engine_ok e"
  shows "core_modify_order e pair m c = cancel_then_place e pair m c"
  using assms by (rule core_modify_order_spec)

theorem modify_is_cancel_then_place_witness:
  "\<exists>m. core_modify_order sample_open sample_pair m sample_clock = cancel_then_place sample_open sample_pair m sample_clock \<and>
     core_modify_order sample_open sample_pair m sample_clock = Inr (Inl InvalidOrder, sample_open, sample_clock)"
proof -
  let ?m = "order_modify_new 77 (Price 90) Sell 4 Empty 2"
  have e: "engine_ok sample_open" using exchange_reachable_ok [OF sample_open_reachable] by (simp add: exchange_ok_def)
  have "Option.bind (hm_get (orderbooks sample_open) sample_pair) (\<lambda>bk. get_order bk 77) = None"
    "hm_contains (orderbooks sample_open) sample_pair" by code_simp+
  then have "cancel_then_place sample_open sample_pair ?m sample_clock = Inr (Inl InvalidOrder, sample_open, sample_clock)"
    by (simp add: cancel_then_place_def order_modify_new_def)
  with modify_is_cancel_then_place [OF e, of sample_pair ?m sample_clock] show ?thesis
    by (intro exI [of _ ?m]) simp
qed

section \<open>Cancelling and removing\<close>

definition funds :: "user_table \<Rightarrow> user_id \<Rightarrow> asset \<Rightarrow> nat" where
  "funds us u a = (case hm_get us u of None \<Rightarrow> 0 | Some acc \<Rightarrow> unat (get_available_balance acc a))"

lemma release_funds:
  assumes "table_ok us" and "lock_at us u i = Some l"
  shows "funds (release us u i) v a = funds us v a + (if v = u \<and> a = le_asset l then unat (le_amount l) else 0)"
proof -
  obtain acc where acc: "hm_get us u = Some acc" "hm_get (u_locked acc) i = Some l"
    using assms(2) by (rule lock_at_SomeE)
  have ok: "user_ok acc" using table_ok_get [OF assms(1) acc(1)] by simp
  let ?acc = "acc\<lparr>u_locked := hm_remove i (u_locked acc)\<rparr>"
  have "user_ok ?acc" using unlock_order_ok [OF ok, of i] acc(2) by (simp add: unlock_order_def)
  moreover have "held acc a = held_of a l + held ?acc a" for a
    using ok acc(2) by (intro held_remove) (simp_all add: user_ok_def)
  moreover have "held acc a \<le> unat (get_balance acc a)" for a using ok by (simp add: user_ok_def)
  ultimately have "unat (get_available_balance ?acc a) =
      unat (get_available_balance acc a) + (if a = le_asset l then unat (le_amount l) else 0)" for a
    using ok by (simp add: unat_available held_of_def)
  then show ?thesis using acc by (simp add: funds_def release_def unlock_order_def)
qed

text \<open>
  C22. Cancelling a resting order succeeds, removes exactly this order from all books, and returns to
  its owner everything the order still had locked; no other account or lock changes.
\<close>

theorem core_cancel_order_releases:
  assumes "engine_ok e" and "resting e pair x" and "core_cancel_order e pair (o_id x) = (r, e')"
  shows "r \<and> (\<forall>p y. resting e' p y \<longleftrightarrow> resting e p y \<and> o_id y \<noteq> o_id x) \<and>
    (\<exists>l. lock_at (users e) (o_user x) (o_id x) = Some l \<and> need x \<le> unat (le_amount l) \<and>
      (\<forall>u a. funds (users e') u a =
        funds (users e) u a + (if u = o_user x \<and> a = le_asset l then unat (le_amount l) else 0))) \<and>
    (\<forall>u i. lock_at (users e') u i = (if u = o_user x \<and> i = o_id x then None else lock_at (users e) u i))"
proof -
  have books: "books_ok e" and us: "table_ok (users e)" and sec: "secured pair (users e) x"
    using assms(1,2) by (simp_all add: engine_ok_def)
  from sec obtain l where l: "lock_at (users e) (o_user x) (o_id x) = Some l" "need x \<le> unat (le_amount l)"
    by (rule securedE)
  from assms(2) obtain bk where bk: "hm_get (orderbooks e) pair = Some bk" "x \<in># book_orders bk"
    by (auto simp: resting_def)
  then have "indexed (book_orders bk) (orders_map bk)" using books_ok_get [OF books] by (simp add: book_ok_def)
  from indexed_get [OF this bk(2)] obtain y where
    y: "get_order bk (o_id x) = Some y" "o_user y = o_user x" by (auto simp: get_order_def same_terms_def)
  have r: "r" and e': "users e' = release (users e) (o_user x) (o_id x)"
    using assms(3) core_cancel_order_cases [OF books, of pair "o_id x"] bk(1) y by auto
  from core_cancel_order_ok(2) [OF assms(1), of pair "o_id x"] assms(3) r
  have "\<forall>p y. resting e' p y \<longleftrightarrow> resting e p y \<and> o_id y \<noteq> o_id x" by simp
  with r l release_funds [OF us l(1)] show ?thesis by (auto simp: e')
qed

theorem core_cancel_order_releases_witness:
  "\<exists>x :: order. o_user x = 2 \<and> funds (users (snd (core_cancel_order sample_open sample_pair (o_id x)))) 2 ETH = 50"
proof -
  have e: "engine_ok sample_open" using exchange_reachable_ok [OF sample_open_reachable] by (simp add: exchange_ok_def)
  define bk where "bk = the (hm_get (orderbooks sample_open) sample_pair)"
  define x where "x = hd (snd (hd (asks_map bk)))"
  have "hm_contains (orderbooks sample_open) sample_pair \<and> asks_map bk \<noteq> [] \<and> snd (hd (asks_map bk)) \<noteq> []"
    unfolding bk_def by code_simp
  then have "hm_get (orderbooks sample_open) sample_pair = Some bk" "(fst (hd (asks_map bk)), snd (hd (asks_map bk))) \<in> set (asks_map bk)"
    "x \<in> set (snd (hd (asks_map bk)))" by (auto simp: bk_def x_def hm_contains_def)
  then have "resting sample_open sample_pair x"
    by (auto simp: resting_def book_orders_def orders_of_def)
  moreover have x: "o_user x = 2" "map_option (\<lambda>acc. get_available_balance acc ETH) (hm_get (users sample_open) 2) = Some 45"
    "lock_at (users sample_open) 2 (o_id x) = Some \<lparr>le_asset = ETH, le_amount = 5\<rparr>"
    unfolding x_def bk_def by code_simp+
  ultimately have "funds (users (snd (core_cancel_order sample_open sample_pair (o_id x)))) 2 ETH =
      funds (users sample_open) 2 ETH + 5"
    using core_cancel_order_releases [OF e _ prod.collapse [symmetric], of sample_pair x] by force
  then show ?thesis using x by (intro exI [of _ x]) (auto simp: funds_def)
qed

text \<open>
  C25. Removing a user closes the account completely: the answer is the final balances, no book holds an
  order of that user any more, and all other orders and accounts are untouched. For an unknown user
  the answer is an error.
\<close>

theorem core_remove_user_exact:
  assumes "engine_ok e" and "core_remove_user e u = (r, e')"
  shows "r = (case hm_get (users e) u of None \<Rightarrow> Inl UserNoSuchUser | Some acc \<Rightarrow> Inr (u_balances acc)) \<and>
    (\<forall>p y. resting e' p y \<longleftrightarrow> resting e p y \<and> o_user y \<noteq> u) \<and>
    (\<forall>v. hm_get (users e') v = (if v = u then None else hm_get (users e) v)) \<and> engine_ok e'"
  using core_remove_user_effect [OF assms(1), of u] assms(2) by (metis fst_conv snd_conv)

theorem core_remove_user_exact_witness:
  "fst (core_remove_user sample_open 2) = Inr [(ETH, 50)] \<and>
   \<not> (\<exists>p y. resting (snd (core_remove_user sample_open 2)) p y \<and> o_user y = 2)"
proof -
  have e: "engine_ok sample_open" using exchange_reachable_ok [OF sample_open_reachable] by (simp add: exchange_ok_def)
  have "map_option u_balances (hm_get (users sample_open) 2) = Some [(ETH, 50)]" by code_simp
  with core_remove_user_exact [OF e prod.collapse [symmetric], of 2] show ?thesis
    by (auto split: option.splits)
qed

section \<open>Deposits and withdrawals\<close>

lemma deposit_cases:
  assumes "hm_get (users e) u = Some acc"
  shows "core_deposit_balance e u a n =
    (if unat (get_balance acc a) + unat n < 2 ^ 32
     then (Inr (), e\<lparr>users := hm_insert u (acc\<lparr>u_balances := hm_insert a (get_balance acc a + n) (u_balances acc)\<rparr>) (users e)\<rparr>)
     else (Inl UserBalanceOverflow, e))"
  using assms by (simp add: core_deposit_balance_def add_balance_cases hm_insert_same)

text \<open>
  What was deposited can be withdrawn again: a deposit that succeeds makes the same withdrawal
  succeed, and afterwards every balance query of every user answers as before the deposit; a deposit
  is refused exactly for an unknown user or when the balance would exceed 32 bits, and then changes
  nothing.
\<close>

lemma deposit_then_withdraw:
  assumes "engine_ok e" and "core_deposit_balance e u a n = (r, e1)"
  shows "case r of
      Inr _ \<Rightarrow> (case core_withdraw_balance e1 u a n of
          (Inr _, e2) \<Rightarrow> orderbooks e2 = orderbooks e \<and>
            (\<forall>v b. core_get_balance e2 v b = core_get_balance e v b \<and>
              core_get_total_balance e2 v b = core_get_total_balance e v b)
        | _ \<Rightarrow> False)
    | Inl err \<Rightarrow> e1 = e \<and>
        (case hm_get (users e) u of None \<Rightarrow> err = UserNoSuchUser
         | Some acc \<Rightarrow> err = UserBalanceOverflow \<and> 2 ^ 32 \<le> unat (get_balance acc a) + unat n)"
proof (cases "hm_get (users e) u")
  case None
  with assms(2) show ?thesis by (auto simp: core_deposit_balance_def)
next
  case (Some acc)
  show ?thesis
  proof (cases "unat (get_balance acc a) + unat n < 2 ^ 32")
    case False
    with assms(2) Some show ?thesis by (auto simp: deposit_cases [OF Some])
  next
    case True
    let ?b = "get_balance acc a"
    let ?acc = "acc\<lparr>u_balances := hm_insert a (?b + n) (u_balances acc)\<rparr>"
    let ?acc2 = "acc\<lparr>u_balances := hm_insert a ?b (u_balances acc)\<rparr>"
    have us: "table_ok (users e)" using assms(1) by (simp add: engine_ok_def)
    have ok: "user_ok acc" using table_ok_get [OF us Some] by simp
    have ok1: "user_ok ?acc" using ok True by (rule credit_ok)
    have r: "r = Inr ()" "e1 = e\<lparr>users := hm_insert u ?acc (users e)\<rparr>"
      using assms(2) True by (simp_all add: deposit_cases [OF Some])
    have sum: "unat (?b + n) = unat ?b + unat n" using True by (simp add: unat_add_no_wrap)
    have "held acc a \<le> unat ?b" using ok by (simp add: user_ok_def)
    then have "substract_balance ?acc a n = (Inr (), ?acc2)"
      by (simp add: substract_balance_cases [OF ok1] sum hm_insert_twice)
    then have w: "core_withdraw_balance e1 u a n = (Inr (), e\<lparr>users := hm_insert u ?acc2 (users e)\<rparr>)"
      by (simp add: core_withdraw_balance_def r hm_insert_twice)
    have bal: "get_balance ?acc2 b = get_balance acc b" for b by (simp add: get_balance_def)
    have "get_locked_balance ?acc2 b = get_locked_balance acc b" for b
      by (simp add: get_locked_balance_def locked_sum_def)
    with bal have "get_available_balance ?acc2 b = get_available_balance acc b" for b
      by (simp only: available_saturating)
    with bal w r(1) Some show ?thesis
      by (simp add: core_get_balance_def core_get_total_balance_def)
  qed
qed

lemma deposit_then_withdraw_witness:
  "core_get_balance (snd (core_withdraw_balance (snd (core_deposit_balance sample_open 1 USDC 500)) 1 USDC 500)) 1 USDC
   = Inr 10000"
proof -
  have e: "engine_ok sample_open" using exchange_reachable_ok [OF sample_open_reachable] by (simp add: exchange_ok_def)
  have "fst (core_deposit_balance sample_open 1 USDC 500) = Inr ()" "core_get_balance sample_open 1 USDC = Inr 10000"
    by code_simp+
  with deposit_then_withdraw [OF e prod.collapse [symmetric], of 1 USDC 500] show ?thesis
    by (auto split: prod.splits sum.splits)
qed

end
