(* ===== verification/Wal.thy ===== *)
theory Wal
  imports Orders
begin

text \<open>
  The write-ahead log (\<open>wal/mod.rs\<close>): checksummed entries, one JSON text per line, appended by the
  writer and read back line by line. The JSON encoder and decoder are \<open>serde_json\<close>, a parameter of
  the model; the file is its bytes, and what the operating system answers to a write is an input.
\<close>

section \<open>Checksums\<close>

definition WAL_VERSION :: u8 where
  "WAL_VERSION = 1"

definition FNV_OFFSET :: u64 where
  "FNV_OFFSET = 0xcbf29ce484222325"

definition FNV_PRIME :: u64 where
  "FNV_PRIME = 0x100000001b3"

definition fnv1a64 :: "u8 list \<Rightarrow> u64" where
  "fnv1a64 bytes = fold (\<lambda>b hash. (xor hash (ucast b)) * FNV_PRIME) bytes FNV_OFFSET"

text \<open>\<open>format!("{:016x}", n)\<close>: sixteen lower-case hexadecimal digits.\<close>

definition hex_digit :: "nat \<Rightarrow> char" where
  "hex_digit n = (if n < 10 then char_of (48 + n) else char_of (87 + n))"

definition hex16 :: "u64 \<Rightarrow> string" where
  "hex16 n = map (\<lambda>i. hex_digit (unat (and (drop_bit (4 * (15 - i)) n) 15))) [0..<16]"

section \<open>Entries\<close>

datatype wal_entry_type =
    WalAddTradingPair trading_pair
  | WalRemoveTradingPair trading_pair
  | WalAddOrder trading_pair order "trade list option"
  | WalCancelOrder trading_pair order_id bool
  | WalModifyOrder trading_pair order_modify "trade list option"
  | WalAddUser user_id
  | WalRemoveUser user_id
  | WalDepositBalance user_id asset quantity
  | WalWithdrawBalance user_id asset quantity

record wal_entry =
  w_seq :: u64
  w_version :: u8
  w_checksum :: "string option"
  w_entry :: wal_entry_type

definition wal_entry_new :: "u64 \<Rightarrow> wal_entry_type \<Rightarrow> wal_entry" where
  "wal_entry_new s ty = \<lparr>w_seq = s, w_version = WAL_VERSION, w_checksum = None, w_entry = ty\<rparr>"

text \<open>A Unicode text, as its code points.\<close>

type_synonym ustr = "u32 list"

text \<open>
  The functions of \<open>serde_json\<close> the log calls: \<open>to_vec\<close> on the checksummed pair and on an entry, and
  \<open>from_str\<close> for an entry. An error carries its message.
\<close>

record codec =
  body_to_vec :: "u64 \<times> wal_entry_type \<Rightarrow> string + u8 list"
  entry_to_vec :: "wal_entry \<Rightarrow> string + u8 list"
  entry_from_str :: "ustr \<Rightarrow> string + wal_entry"

definition compute_checksum :: "codec \<Rightarrow> wal_entry \<Rightarrow> fault + string" where
  "compute_checksum J e =
     (case body_to_vec J (w_seq e, w_entry e) of
        Inl msg \<Rightarrow> Inl (Panic (WalSerialization msg))
      | Inr body \<Rightarrow> Inr (hex16 (fnv1a64 body)))"

definition verify_checksum :: "codec \<Rightarrow> wal_entry \<Rightarrow> fault + bool" where
  "verify_checksum J e =
     (case w_checksum e of
        Some expected \<Rightarrow> and_then (compute_checksum J e) (\<lambda>c. Inr (c = expected))
      | None \<Rightarrow> Inr True)"

section \<open>Writer\<close>

text \<open>
  The writer with the file it appends to. Its buffer is empty between calls, because every call
  either flushes it or fails, and a failure ends the engine.
\<close>

record wal_writer =
  ww_file :: "u8 list"
  ww_seq :: u64
  ww_sync :: bool

text \<open>
  What the operating system does with the bytes of one entry: everything succeeds, or writing or
  flushing fails after some bytes reached the file, or the final \<open>fsync\<close> fails.
\<close>

datatype io_outcome = Written | WriteFails nat string | FlushFails nat string | SyncFails string

text \<open>\<open>WalWriter::new\<close>: the file is created or opened for appending, or cannot be.\<close>

definition wal_writer_new ::
  "string \<Rightarrow> u8 list option \<Rightarrow> string option \<Rightarrow> string option \<Rightarrow> string + wal_writer" where
  "wal_writer_new path file open_error wal_sync =
     (case open_error of
        Some msg \<Rightarrow> Inl (''Failed to open WAL file '' @ path @ '': '' @ msg)
      | None \<Rightarrow> Inr \<lparr>ww_file = (case file of Some bs \<Rightarrow> bs | None \<Rightarrow> []), ww_seq = 0,
                     ww_sync = (wal_sync = Some ''true'')\<rparr>)"

definition set_seq :: "wal_writer \<Rightarrow> u64 \<Rightarrow> wal_writer" where
  "set_seq w s = w\<lparr>ww_seq := s\<rparr>"

definition append_line :: "wal_writer \<Rightarrow> u8 list \<Rightarrow> io_outcome \<Rightarrow> (string + u64) \<times> wal_writer" where
  "append_line w line io =
     (case io of
        WriteFails n msg \<Rightarrow> (Inl (''WAL write error: '' @ msg), w\<lparr>ww_file := ww_file w @ take n line\<rparr>)
      | FlushFails n msg \<Rightarrow> (Inl (''WAL flush error: '' @ msg), w\<lparr>ww_file := ww_file w @ take n line\<rparr>)
      | SyncFails msg \<Rightarrow>
          (if ww_sync w then Inl (''WAL fsync error: '' @ msg) else Inr (ww_seq w),
           w\<lparr>ww_file := ww_file w @ line\<rparr>)
      | Written \<Rightarrow> (Inr (ww_seq w), w\<lparr>ww_file := ww_file w @ line\<rparr>))"

definition wal_write ::
  "codec \<Rightarrow> wal_writer \<Rightarrow> wal_entry \<Rightarrow> io_outcome \<Rightarrow> fault + (string + u64) \<times> wal_writer" where
  "wal_write J w e io =
     (let w = w\<lparr>ww_seq := ww_seq w + 1\<rparr>;
          e = e\<lparr>w_seq := ww_seq w, w_version := WAL_VERSION\<rparr>
      in and_then (compute_checksum J e) (\<lambda>c.
         case entry_to_vec J (e\<lparr>w_checksum := Some c\<rparr>) of
           Inl msg \<Rightarrow> Inr (Inl (''WAL serialize error: '' @ msg), w)
         | Inr line \<Rightarrow> Inr (append_line w (line @ [10]) io)))"

section \<open>Reader\<close>

text \<open>\<open>BufRead::lines\<close>: split at line feeds, dropping the carriage return before one.\<close>

definition strip_cr :: "u8 list \<Rightarrow> u8 list" where
  "strip_cr l = (if l \<noteq> [] \<and> last l = 13 then butlast l else l)"

function byte_lines :: "u8 list \<Rightarrow> u8 list list" where
  "byte_lines bytes =
     (if bytes = [] then []
      else case dropWhile (\<lambda>b. b \<noteq> 10) bytes of
          [] \<Rightarrow> [bytes]
        | _ # rest \<Rightarrow> strip_cr (takeWhile (\<lambda>b. b \<noteq> 10) bytes) # byte_lines rest)"
  by pat_completeness auto

termination
proof (relation "measure length")
  fix bytes :: "u8 list" and x rest
  assume "bytes \<noteq> []" and "dropWhile (\<lambda>b. b \<noteq> 10) bytes = x # rest"
  then show "(rest, bytes) \<in> measure length"
    using length_dropWhile_le [of "\<lambda>b. b \<noteq> 10" bytes] by simp
qed simp

declare byte_lines.simps [simp del]

text \<open>The UTF-8 check a line must pass to become a string.\<close>

definition continuation :: "u8 \<Rightarrow> bool" where
  "continuation b \<longleftrightarrow> 0x80 \<le> b \<and> b \<le> 0xBF"

definition low6 :: "u8 \<Rightarrow> u32" where
  "low6 b = and (ucast b) 0x3F"

fun decode_utf8 :: "u8 list \<Rightarrow> ustr option" where
  "decode_utf8 [] = Some []"
| "decode_utf8 (a # bs) =
     (if a \<le> 0x7F then map_option ((#) (ucast a)) (decode_utf8 bs)
      else if 0xC2 \<le> a \<and> a \<le> 0xDF then
        (case bs of
           b # r \<Rightarrow>
             if continuation b then
               map_option ((#) (or (push_bit 6 (and (ucast a) 0x1F)) (low6 b))) (decode_utf8 r)
             else None
         | [] \<Rightarrow> None)
      else if 0xE0 \<le> a \<and> a \<le> 0xEF then
        (case bs of
           b # c # r \<Rightarrow>
             if continuation b \<and> continuation c \<and> (a = 0xE0 \<longrightarrow> 0xA0 \<le> b) \<and> (a = 0xED \<longrightarrow> b \<le> 0x9F) then
               map_option ((#) (or (or (push_bit 12 (and (ucast a) 0x0F)) (push_bit 6 (low6 b))) (low6 c)))
                 (decode_utf8 r)
             else None
         | _ \<Rightarrow> None)
      else if 0xF0 \<le> a \<and> a \<le> 0xF4 then
        (case bs of
           b # c # d # r \<Rightarrow>
             if continuation b \<and> continuation c \<and> continuation d \<and>
                (a = 0xF0 \<longrightarrow> 0x90 \<le> b) \<and> (a = 0xF4 \<longrightarrow> b \<le> 0x8F) then
               map_option ((#) (or (or (or (push_bit 18 (and (ucast a) 0x07)) (push_bit 12 (low6 b)))
                 (push_bit 6 (low6 c))) (low6 d))) (decode_utf8 r)
             else None
         | _ \<Rightarrow> None)
      else None)"

text \<open>\<open>str::trim\<close>: the white space of Unicode.\<close>

definition white_space :: "u32 \<Rightarrow> bool" where
  "white_space x \<longleftrightarrow> (9 \<le> x \<and> x \<le> 13) \<or> x \<in> {0x20, 0x85, 0xA0, 0x1680, 0x2028, 0x2029, 0x202F, 0x205F, 0x3000}
     \<or> (0x2000 \<le> x \<and> x \<le> 0x200A)"

definition trim :: "ustr \<Rightarrow> ustr" where
  "trim s = rev (dropWhile white_space (rev (dropWhile white_space s)))"

text \<open>
  \<open>WalReader::next\<close>: blank lines, malformed lines and entries with a wrong checksum are skipped; a
  line that is not UTF-8 is a read error and answers the end of the log.
\<close>

fun wal_next :: "codec \<Rightarrow> u8 list list \<Rightarrow> fault + wal_entry option \<times> u8 list list" where
  "wal_next J [] = Inr (None, [])"
| "wal_next J (l # ls) =
     (case decode_utf8 l of
        None \<Rightarrow> Inr (None, ls)
      | Some s \<Rightarrow>
          if trim s = [] then wal_next J ls
          else case entry_from_str J (trim s) of
              Inl _ \<Rightarrow> wal_next J ls
            | Inr e \<Rightarrow> and_then (verify_checksum J e) (\<lambda>ok. if ok then Inr (Some e, ls) else wal_next J ls))"

lemma wal_next_shorter: "wal_next J ls = Inr (Some e, ls') \<Longrightarrow> length ls' < length ls"
  by (induction J ls rule: wal_next.induct)
    (fastforce simp: and_then_Inr split: option.splits if_splits sum.splits)+

text \<open>\<open>for entry in reader\<close>: the entries up to the first end.\<close>

function wal_entries :: "codec \<Rightarrow> u8 list list \<Rightarrow> fault + wal_entry list" where
  "wal_entries J ls =
     (case wal_next J ls of
        Inl f \<Rightarrow> Inl f
      | Inr (None, _) \<Rightarrow> Inr []
      | Inr (Some e, ls) \<Rightarrow> and_then (wal_entries J ls) (\<lambda>es. Inr (e # es)))"
  by pat_completeness auto

termination
  by (relation "measure (\<lambda>(_, ls). length ls)") (auto dest: wal_next_shorter)

declare wal_entries.simps [simp del]

definition read_log :: "codec \<Rightarrow> u8 list \<Rightarrow> fault + wal_entry list" where
  "read_log J file = wal_entries J (byte_lines file)"

end
