(* ===== verification/WalEngine.thy ===== *)
theory WalEngine
  imports CoreEngine Wal
begin

text \<open>
  The logged engine (\<open>wal/engine.rs\<close>): the in-memory engine behind a write-ahead log, and its recovery
  by replaying the log. A failed write panics, as the \<open>unwrap\<close> of the source does. The system clock
  and the outcome of each write are inputs.
\<close>

section \<open>State and recovery\<close>

record wal_engine =
  we_inner :: core_engine
  we_writer :: wal_writer

text \<open>The file system and the environment variable the constructor looks at.\<close>

record disk =
  d_file :: "u8 list option"
  d_read_error :: "string option"
  d_open_error :: "string option"
  d_sync :: "string option"

definition replay_entry :: "core_engine \<Rightarrow> wal_entry \<Rightarrow> clock \<Rightarrow> fault + core_engine \<times> clock" where
  "replay_entry e entry c =
     (case w_entry entry of
        WalAddTradingPair pair \<Rightarrow> Inr (core_add_trading_pair e pair, c)
      | WalRemoveTradingPair pair \<Rightarrow> Inr (snd (core_remove_trading_pair e pair), c)
      | WalAddOrder pair x _ \<Rightarrow> and_then (core_add_order e pair x c) (\<lambda>(_, e, c). Inr (e, c))
      | WalCancelOrder pair i _ \<Rightarrow> Inr (snd (core_cancel_order e pair i), c)
      | WalModifyOrder pair m _ \<Rightarrow> and_then (core_modify_order e pair m c) (\<lambda>(_, e, c). Inr (e, c))
      | WalAddUser u \<Rightarrow> Inr (core_add_user e u, c)
      | WalRemoveUser u \<Rightarrow> Inr (snd (core_remove_user e u), c)
      | WalDepositBalance u a n \<Rightarrow> Inr (snd (core_deposit_balance e u a n), c)
      | WalWithdrawBalance u a n \<Rightarrow> Inr (snd (core_withdraw_balance e u a n), c))"

text \<open>The recovery loop, reading and replaying one entry at a time.\<close>

function replay_log ::
  "codec \<Rightarrow> u8 list list \<Rightarrow> core_engine \<Rightarrow> u64 \<Rightarrow> clock \<Rightarrow> fault + core_engine \<times> u64 \<times> clock" where
  "replay_log J ls e max_seq c =
     (case wal_next J ls of
        Inl f \<Rightarrow> Inl f
      | Inr (None, _) \<Rightarrow> Inr (e, max_seq, c)
      | Inr (Some entry, ls) \<Rightarrow>
          and_then (replay_entry e entry c) (\<lambda>(e, c).
            replay_log J ls e (if max_seq < w_seq entry then w_seq entry else max_seq) c))"
  by pat_completeness auto

termination
  by (relation "measure (\<lambda>(_, ls, _). length ls)") (auto dest: wal_next_shorter)

declare replay_log.simps [simp del]

definition wal_engine_new ::
  "codec \<Rightarrow> u64 \<Rightarrow> u64 \<Rightarrow> string \<Rightarrow> disk \<Rightarrow> clock \<Rightarrow> fault + (string + wal_engine) \<times> clock" where
  "wal_engine_new J m d path D c =
     and_then (core_new m d) (\<lambda>e.
     and_then
       (case d_file D of
          None \<Rightarrow> Inr (Inr (e, 0), c)
        | Some file \<Rightarrow>
            (case d_read_error D of
               Some msg \<Rightarrow> Inr (Inl (''Failed to open WAL file for reading: '' @ msg), c)
             | None \<Rightarrow> and_then (replay_log J (byte_lines file) e 0 c) (\<lambda>(e, s, c). Inr (Inr (e, s), c))))
       (\<lambda>(r, c). case r of
          Inl msg \<Rightarrow> Inr (Inl msg, c)
        | Inr (e, max_seq) \<Rightarrow>
            (case wal_writer_new path (d_file D) (d_open_error D) (d_sync D) of
               Inl msg \<Rightarrow> Inr (Inl msg, c)
             | Inr w \<Rightarrow> Inr (Inr \<lparr>we_inner = e, we_writer = set_seq w max_seq\<rparr>, c))))"

definition wal_next_id :: "wal_engine \<Rightarrow> clock \<Rightarrow> fault + order_id \<times> wal_engine \<times> clock" where
  "wal_next_id w c = and_then (core_next_id (we_inner w) c) (\<lambda>(i, e, c). Inr (i, w\<lparr>we_inner := e\<rparr>, c))"

section \<open>Logged operations\<close>

text \<open>\<open>self.writer.write(entry).unwrap()\<close>.\<close>

definition log_entry :: "codec \<Rightarrow> wal_engine \<Rightarrow> wal_entry_type \<Rightarrow> io_outcome \<Rightarrow> fault + wal_engine" where
  "log_entry J w ty io =
     and_then (wal_write J (we_writer w) (wal_entry_new 0 ty) io) (\<lambda>(r, writer).
       case r of
         Inl msg \<Rightarrow> Inl (Panic (WalWriteFailed msg))
       | Inr _ \<Rightarrow> Inr (w\<lparr>we_writer := writer\<rparr>))"

definition wal_add_trading_pair ::
  "codec \<Rightarrow> wal_engine \<Rightarrow> trading_pair \<Rightarrow> io_outcome \<Rightarrow> fault + wal_engine" where
  "wal_add_trading_pair J w pair io =
     and_then (log_entry J w (WalAddTradingPair pair) io) (\<lambda>w.
       Inr (w\<lparr>we_inner := core_add_trading_pair (we_inner w) pair\<rparr>))"

definition wal_remove_trading_pair ::
  "codec \<Rightarrow> wal_engine \<Rightarrow> trading_pair \<Rightarrow> io_outcome \<Rightarrow> fault + order_book option \<times> wal_engine" where
  "wal_remove_trading_pair J w pair io =
     and_then (log_entry J w (WalRemoveTradingPair pair) io) (\<lambda>w.
       let (r, e) = core_remove_trading_pair (we_inner w) pair in Inr (r, w\<lparr>we_inner := e\<rparr>))"

definition wal_add_order ::
  "codec \<Rightarrow> wal_engine \<Rightarrow> trading_pair \<Rightarrow> order \<Rightarrow> clock \<Rightarrow> io_outcome
     \<Rightarrow> fault + (order_error + trade list option) \<times> wal_engine \<times> clock" where
  "wal_add_order J w pair x c io =
     and_then (log_entry J w (WalAddOrder pair x None) io) (\<lambda>w.
     and_then (core_add_order (we_inner w) pair x c) (\<lambda>(r, e, c). Inr (r, w\<lparr>we_inner := e\<rparr>, c)))"

text \<open>A cancellation is applied first and logged with its outcome.\<close>

definition wal_cancel_order ::
  "codec \<Rightarrow> wal_engine \<Rightarrow> trading_pair \<Rightarrow> order_id \<Rightarrow> io_outcome \<Rightarrow> fault + bool \<times> wal_engine" where
  "wal_cancel_order J w pair i io =
     (let (success, e) = core_cancel_order (we_inner w) pair i;
          w = w\<lparr>we_inner := e\<rparr>
      in and_then (log_entry J w (WalCancelOrder pair i success) io) (\<lambda>w. Inr (success, w)))"

definition wal_modify_order ::
  "codec \<Rightarrow> wal_engine \<Rightarrow> trading_pair \<Rightarrow> order_modify \<Rightarrow> clock \<Rightarrow> io_outcome
     \<Rightarrow> fault + (order_error + trade list option) \<times> wal_engine \<times> clock" where
  "wal_modify_order J w pair m c io =
     and_then (log_entry J w (WalModifyOrder pair m None) io) (\<lambda>w.
     and_then (core_modify_order (we_inner w) pair m c) (\<lambda>(r, e, c). Inr (r, w\<lparr>we_inner := e\<rparr>, c)))"

definition wal_get_order_info :: "wal_engine \<Rightarrow> trading_pair \<Rightarrow> order_book_level_info option" where
  "wal_get_order_info w pair = core_get_order_info (we_inner w) pair"

definition wal_size :: "wal_engine \<Rightarrow> trading_pair \<Rightarrow> nat option" where
  "wal_size w pair = core_size (we_inner w) pair"

definition wal_add_user :: "codec \<Rightarrow> wal_engine \<Rightarrow> user_id \<Rightarrow> io_outcome \<Rightarrow> fault + wal_engine" where
  "wal_add_user J w u io =
     and_then (log_entry J w (WalAddUser u) io) (\<lambda>w. Inr (w\<lparr>we_inner := core_add_user (we_inner w) u\<rparr>))"

definition wal_remove_user ::
  "codec \<Rightarrow> wal_engine \<Rightarrow> user_id \<Rightarrow> io_outcome
     \<Rightarrow> fault + (user_error + (asset, quantity) hmap) \<times> wal_engine" where
  "wal_remove_user J w u io =
     and_then (log_entry J w (WalRemoveUser u) io) (\<lambda>w.
       let (r, e) = core_remove_user (we_inner w) u in Inr (r, w\<lparr>we_inner := e\<rparr>))"

definition wal_deposit_balance ::
  "codec \<Rightarrow> wal_engine \<Rightarrow> user_id \<Rightarrow> asset \<Rightarrow> quantity \<Rightarrow> io_outcome
     \<Rightarrow> fault + (user_error + unit) \<times> wal_engine" where
  "wal_deposit_balance J w u a n io =
     and_then (log_entry J w (WalDepositBalance u a n) io) (\<lambda>w.
       let (r, e) = core_deposit_balance (we_inner w) u a n in Inr (r, w\<lparr>we_inner := e\<rparr>))"

definition wal_withdraw_balance ::
  "codec \<Rightarrow> wal_engine \<Rightarrow> user_id \<Rightarrow> asset \<Rightarrow> quantity \<Rightarrow> io_outcome
     \<Rightarrow> fault + (user_error + unit) \<times> wal_engine" where
  "wal_withdraw_balance J w u a n io =
     and_then (log_entry J w (WalWithdrawBalance u a n) io) (\<lambda>w.
       let (r, e) = core_withdraw_balance (we_inner w) u a n in Inr (r, w\<lparr>we_inner := e\<rparr>))"

definition wal_get_balance :: "wal_engine \<Rightarrow> user_id \<Rightarrow> asset \<Rightarrow> user_error + quantity" where
  "wal_get_balance w u a = core_get_balance (we_inner w) u a"

definition wal_get_total_balance :: "wal_engine \<Rightarrow> user_id \<Rightarrow> asset \<Rightarrow> user_error + quantity" where
  "wal_get_total_balance w u a = core_get_total_balance (we_inner w) u a"

end
