(* ===== verification/WalTheorems.thy ===== *)
theory WalTheorems
  imports Wal
begin

text \<open>
  What the log promises: the checksum notices every changed byte, what was written is read back, a
  torn last line costs only itself, and appending after a torn line loses the next entry.
\<close>

section \<open>The checksum\<close>




lemma hex_digit_inject: "m < 16 \<Longrightarrow> n < 16 \<Longrightarrow> hex_digit m = hex_digit n \<Longrightarrow> m = n"
proof -
  have "distinct (map hex_digit [0..<16])" by code_simp
  then have "inj_on hex_digit {0..<16}" by (simp add: distinct_map del: upt_rec_numeral)
  then show "m < 16 \<Longrightarrow> n < 16 \<Longrightarrow> hex_digit m = hex_digit n \<Longrightarrow> m = n" by (simp add: inj_on_def)
qed

lemma hex16_inject [simp]: "hex16 x = hex16 y \<longleftrightarrow> x = y"
proof
  assume eq: "hex16 x = hex16 y"
  have nibble: "and (drop_bit (4 * i) x) 15 = and (drop_bit (4 * i) y) (15 :: u64)" if "i < 16" for i
  proof -
    have "hex16 z ! (15 - i) = hex_digit (unat (and (drop_bit (4 * i) z) 15))" for z
      unfolding hex16_def using that by (subst nth_map_upt) simp_all
    from this [of x] this [of y] have "hex_digit (unat (and (drop_bit (4 * i) x) 15)) = hex_digit (unat (and (drop_bit (4 * i) y) 15))"
      by (simp only: eq)
    moreover have "unat (and z 15) < 16" for z :: u64
      using word_and_le1 [of z 15] by (simp add: word_le_nat_alt)
    ultimately have "unat (and (drop_bit (4 * i) x) 15) = unat (and (drop_bit (4 * i) y) 15)"
      by (intro hex_digit_inject)
    then show ?thesis by (simp add: word_unat_eq_iff)
  qed
  show "x = y"
  proof (rule bit_word_eqI)
    fix n
    assume "n < LENGTH(64)"
    then have i: "n div 4 < 16" and n: "n = 4 * (n div 4) + n mod 4" and m: "n mod 4 < 4" by auto
    have b: "bit (and (drop_bit (4 * (n div 4)) z) 15) (n mod 4) = bit z n" for z :: u64
    proof -
      have "bit (15 :: u64) (n mod 4)"
      proof -
        have "\<forall>k \<in> set [0..<4]. bit (15 :: u64) k" by code_simp
        with m show ?thesis by simp
      qed
      then show ?thesis using n by (simp add: bit_and_iff bit_drop_bit_eq add.commute)
    qed
    from nibble [OF i] b [of x] b [of y] show "bit x n = bit y n" by metis
  qed
qed simp

section \<open>Lines\<close>

lemma byte_lines_Nil [simp]: "byte_lines [] = []"
  by (simp add: byte_lines.simps)

lemma byte_lines_line: "10 \<notin> set l \<Longrightarrow> byte_lines (l @ 10 # rest) = strip_cr l # byte_lines rest"
proof -
  assume l: "10 \<notin> set l"
  then have "dropWhile (\<lambda>b. b \<noteq> 10) (l @ 10 # rest) = 10 # rest" "takeWhile (\<lambda>b. b \<noteq> 10) (l @ 10 # rest) = l"
    by (auto simp: dropWhile_append3 takeWhile_tail)
  then show ?thesis by (simp add: byte_lines.simps [of "l @ 10 # rest"])
qed

lemma byte_lines_tail: "10 \<notin> set l \<Longrightarrow> l \<noteq> [] \<Longrightarrow> byte_lines l = [l]"
proof -
  assume l: "10 \<notin> set l" "l \<noteq> []"
  then have "dropWhile (\<lambda>b. b \<noteq> 10) l = []" by (simp only: dropWhile_eq_Nil_conv) auto
  then show ?thesis using l(2) by (simp only: byte_lines.simps [of l] list.case if_False)
qed

definition file_of :: "u8 list list \<Rightarrow> u8 list" where
  "file_of bs = concat (map (\<lambda>b. b @ [10]) bs)"

lemma byte_lines_file:
  "\<forall>b \<in> set bs. 10 \<notin> set b \<and> strip_cr b = b \<Longrightarrow> byte_lines (file_of bs @ rest) = bs @ byte_lines rest"
  by (induction bs) (auto simp: file_of_def byte_lines_line)

section \<open>Entries as lines\<close>

text \<open>
  What compact JSON of an entry looks like to the reader: no line break, and the text is left alone
  by trimming.
\<close>

definition json_line :: "u8 list \<Rightarrow> ustr \<Rightarrow> bool" where
  "json_line b s \<longleftrightarrow> 10 \<notin> set b \<and> strip_cr b = b \<and> decode_utf8 b = Some s \<and> s \<noteq> [] \<and> trim s = s"

definition line_of :: "codec \<Rightarrow> wal_entry \<Rightarrow> u8 list \<Rightarrow> bool" where
  "line_of J e b \<longleftrightarrow> entry_to_vec J e = Inr b \<and> (\<exists>s. json_line b s \<and> entry_from_str J s = Inr e) \<and>
     verify_checksum J e = Inr True"

definition log_of :: "codec \<Rightarrow> wal_entry list \<Rightarrow> u8 list \<Rightarrow> bool" where
  "log_of J es file \<longleftrightarrow> (\<exists>bs. list_all2 (line_of J) es bs \<and> file = file_of bs)"

lemma wal_entries_line:
  "line_of J e b \<Longrightarrow> wal_entries J (b # ls) = and_then (wal_entries J ls) (\<lambda>es. Inr (e # es))"
  by (auto simp: line_of_def json_line_def wal_entries.simps [of J "b # ls"])

lemma wal_entries_lines:
  "list_all2 (line_of J) es bs \<Longrightarrow> wal_entries J (bs @ ls) = and_then (wal_entries J ls) (\<lambda>es'. Inr (es @ es'))"
proof (induction rule: list_all2_induct)
  case Nil
  show ?case by (cases "wal_entries J ls") simp_all
next
  case (Cons e es b bs)
  then show ?case by (cases "wal_entries J ls") (simp_all add: wal_entries_line)
qed

lemma log_of_lines: "list_all2 (line_of J) es bs \<Longrightarrow> b \<in> set bs \<Longrightarrow> 10 \<notin> set b \<and> strip_cr b = b"
  by (induction rule: list_all2_induct) (auto simp: line_of_def json_line_def)

lemma read_log_append:
  assumes "log_of J es file"
  shows "read_log J (file @ rest) = and_then (read_log J rest) (\<lambda>es'. Inr (es @ es'))"
proof -
  from assms obtain bs where bs: "list_all2 (line_of J) es bs" "file = file_of bs" by (auto simp: log_of_def)
  have "byte_lines (file @ rest) = bs @ byte_lines rest"
    unfolding bs(2) using log_of_lines [OF bs(1)] by (intro byte_lines_file) simp
  then show ?thesis by (simp add: read_log_def wal_entries_lines [OF bs(1)])
qed

lemma read_log_Nil [simp]: "read_log J [] = Inr []"
  by (simp add: read_log_def wal_entries.simps)

lemma log_of_append: "log_of J es file \<Longrightarrow> line_of J e b \<Longrightarrow> log_of J (es @ [e]) (file @ b @ [10])"
proof -
  assume "log_of J es file" and e: "line_of J e b"
  then obtain bs where "list_all2 (line_of J) es bs" "file = file_of bs" by (auto simp: log_of_def)
  then have "list_all2 (line_of J) (es @ [e]) (bs @ [b])" "file @ b @ [10] = file_of (bs @ [b])"
    using e by (simp_all add: file_of_def list_all2_appendI)
  then show ?thesis by (auto simp: log_of_def)
qed

section \<open>Writing\<close>

text \<open>
  The documented behaviour of \<open>serde_json\<close> the log relies on, for one entry: encoding succeeds, the
  text has no line break and no surrounding white space, and decoding it gives the entry back.
\<close>

definition encodes :: "codec \<Rightarrow> u64 \<Rightarrow> wal_entry_type \<Rightarrow> bool" where
  "encodes J s ty \<longleftrightarrow>
     (\<exists>body b u. body_to_vec J (s, ty) = Inr body \<and>
       (let e = \<lparr>w_seq = s, w_version = WAL_VERSION, w_checksum = Some (hex16 (fnv1a64 body)), w_entry = ty\<rparr>
        in entry_to_vec J e = Inr b \<and> json_line b u \<and> entry_from_str J u = Inr e))"

lemma wal_write_line:
  assumes "encodes J (ww_seq w + 1) ty"
  obtains e b where "line_of J e b" and "w_seq e = ww_seq w + 1" and "w_entry e = ty"
    and "\<forall>io. wal_write J w (wal_entry_new 0 ty) io = Inr (append_line (w\<lparr>ww_seq := ww_seq w + 1\<rparr>) (b @ [10]) io)"
proof -
  let ?s = "ww_seq w + 1"
  from assms obtain body b u where body: "body_to_vec J (?s, ty) = Inr body"
    and enc: "entry_to_vec J \<lparr>w_seq = ?s, w_version = WAL_VERSION, w_checksum = Some (hex16 (fnv1a64 body)), w_entry = ty\<rparr> = Inr b"
      "json_line b u"
      "entry_from_str J u = Inr \<lparr>w_seq = ?s, w_version = WAL_VERSION, w_checksum = Some (hex16 (fnv1a64 body)), w_entry = ty\<rparr>"
    by (auto simp: encodes_def Let_def)
  let ?e = "\<lparr>w_seq = ?s, w_version = WAL_VERSION, w_checksum = Some (hex16 (fnv1a64 body)), w_entry = ty\<rparr>"
  show ?thesis
  proof (rule that)
    show "line_of J ?e b"
      using enc body by (auto simp: line_of_def verify_checksum_def compute_checksum_def)
    show "\<forall>io. wal_write J w (wal_entry_new 0 ty) io = Inr (append_line (w\<lparr>ww_seq := ww_seq w + 1\<rparr>) (b @ [10]) io)"
      using enc(1) body by (simp add: wal_write_def wal_entry_new_def compute_checksum_def Let_def)
  qed simp_all
qed

fun write_log :: "codec \<Rightarrow> wal_writer \<Rightarrow> wal_entry_type list \<Rightarrow> fault + wal_writer" where
  "write_log J w [] = Inr w"
| "write_log J w (ty # tys) =
     and_then (wal_write J w (wal_entry_new 0 ty) Written) (\<lambda>(r, w).
       case r of Inl msg \<Rightarrow> Inl (Panic (WalWriteFailed msg)) | Inr _ \<Rightarrow> write_log J w tys)"

text \<open>The sequence numbers of the next entries.\<close>

fun numbered :: "u64 \<Rightarrow> wal_entry_type list \<Rightarrow> (u64 \<times> wal_entry_type) list" where
  "numbered s [] = []"
| "numbered s (ty # tys) = (s + 1, ty) # numbered (s + 1) tys"

lemma write_log_reads:
  assumes "log_of J es (ww_file w)" and "\<forall>(s, ty) \<in> set (numbered (ww_seq w) tys). encodes J s ty"
  shows "\<exists>w' new. write_log J w tys = Inr w' \<and> log_of J (es @ new) (ww_file w') \<and>
    map (\<lambda>e. (w_seq e, w_entry e)) new = numbered (ww_seq w) tys"
  using assms
proof (induction tys arbitrary: w es)
  case (Cons ty tys)
  from Cons.prems(2) have "encodes J (ww_seq w + 1) ty" by simp
  then obtain e b where e: "line_of J e b" "w_seq e = ww_seq w + 1" "w_entry e = ty"
    and wr: "\<forall>io. wal_write J w (wal_entry_new 0 ty) io = Inr (append_line (w\<lparr>ww_seq := ww_seq w + 1\<rparr>) (b @ [10]) io)"
    by (rule wal_write_line)
  let ?w = "w\<lparr>ww_seq := ww_seq w + 1, ww_file := ww_file w @ b @ [10]\<rparr>"
  have "log_of J (es @ [e]) (ww_file ?w)" using log_of_append [OF Cons.prems(1) e(1)] by simp
  from Cons.IH [OF this] Cons.prems(2) obtain w' new where
    "write_log J ?w tys = Inr w'" "log_of J ((es @ [e]) @ new) (ww_file w')"
    "map (\<lambda>e. (w_seq e, w_entry e)) new = numbered (ww_seq ?w) tys" by auto
  then show ?case using e(2,3)
    by (intro exI [of _ w'] exI [of _ "e # new"]) (simp add: wr append_line_def)
qed simp

section \<open>Promises of the log\<close>

text \<open>A small encoder and decoder, for the witnesses: the sequence number between braces.\<close>

definition sample_codec :: codec where
  "sample_codec =
     \<lparr>body_to_vec = (\<lambda>(s, ty). Inr [ucast s]),
      entry_to_vec = (\<lambda>e. Inr [123, 48 + ucast (w_seq e), 125]),
      entry_from_str = (\<lambda>s. case s of
          [a, b, c] \<Rightarrow>
            if a = 123 \<and> c = 125 then
              Inr \<lparr>w_seq = ucast b - 48, w_version = WAL_VERSION,
                   w_checksum = Some (hex16 (fnv1a64 [ucast b - 48])), w_entry = WalAddUser 7\<rparr>
            else Inl ''syntax''
        | _ \<Rightarrow> Inl ''syntax'')\<rparr>"

definition sample_entry :: wal_entry where
  "sample_entry = \<lparr>w_seq = 1, w_version = WAL_VERSION, w_checksum = Some (hex16 (fnv1a64 [1])),
     w_entry = WalAddUser 7\<rparr>"

lemma sample_encodes: "encodes sample_codec 1 (WalAddUser 7)" "encodes sample_codec 2 (WalAddUser 7)"
proof -
  have "json_line [123, 49, 125] [123, 49, 125]" "json_line [123, 50, 125] [123, 50, 125]"
    unfolding json_line_def by code_simp+
  then show "encodes sample_codec 1 (WalAddUser 7)" "encodes sample_codec 2 (WalAddUser 7)"
    unfolding encodes_def by (auto simp: sample_codec_def Let_def)
qed

text \<open>
  C27. What is written is read back: appending entries to a log, whatever it already holds, always
  succeeds when the encoder does, and reading the file then gives the old entries followed by the
  new ones, in order, with consecutive sequence numbers.
\<close>

theorem log_round_trip:
  assumes "log_of J es (ww_file w)" and "\<forall>(s, ty) \<in> set (numbered (ww_seq w) tys). encodes J s ty"
  shows "\<exists>w' new. write_log J w tys = Inr w' \<and> read_log J (ww_file w') = Inr (es @ new) \<and>
    map (\<lambda>e. (w_seq e, w_entry e)) new = numbered (ww_seq w) tys"
proof -
  from write_log_reads [OF assms] obtain w' new where
    w': "write_log J w tys = Inr w'" "log_of J (es @ new) (ww_file w')"
    "map (\<lambda>e. (w_seq e, w_entry e)) new = numbered (ww_seq w) tys" by blast
  from read_log_append [OF w'(2), of "[]"] w' show ?thesis by auto
qed

theorem log_round_trip_witness:
  "\<exists>(w' :: wal_writer) (new :: wal_entry list). write_log sample_codec \<lparr>ww_file = [], ww_seq = 0, ww_sync = False\<rparr> [WalAddUser 7, WalAddUser 7] = Inr w' \<and>
     read_log sample_codec (ww_file w') = Inr new \<and> map w_seq new = [1, 2]"
proof -
  have "log_of sample_codec [] (ww_file \<lparr>ww_file = [], ww_seq = 0, ww_sync = False\<rparr>)"
    by (auto simp: log_of_def file_of_def intro!: exI [of _ "[]"])
  from log_round_trip [OF this, of "[WalAddUser 7, WalAddUser 7]"] sample_encodes obtain w' new where
    "write_log sample_codec \<lparr>ww_file = [], ww_seq = 0, ww_sync = False\<rparr> [WalAddUser 7, WalAddUser 7] = Inr w'"
    "read_log sample_codec (ww_file w') = Inr new"
    "map (\<lambda>e. (w_seq e, w_entry e)) new = [(1, WalAddUser 7), (2, WalAddUser 7)]" by auto
  moreover from this(3) have "map fst (map (\<lambda>e. (w_seq e, w_entry e)) new) = [1, 2]" by (simp only: list.map fst_conv)
  then have "map w_seq new = [1, 2]" by (simp add: comp_def)
  ultimately show ?thesis by (intro exI [of _ w'] exI [of _ new] conjI)
qed



text \<open>A line the reader skips: not JSON of an entry, or blank.\<close>

definition unreadable :: "codec \<Rightarrow> u8 list \<Rightarrow> bool" where
  "unreadable J l \<longleftrightarrow> 10 \<notin> set l \<and>
     (case decode_utf8 l of None \<Rightarrow> True | Some s \<Rightarrow> trim s = [] \<or> (\<exists>msg. entry_from_str J (trim s) = Inl msg))"

lemma wal_entries_unreadable: "unreadable J l \<Longrightarrow> wal_entries J [l] = Inr []"
  by (auto simp: unreadable_def wal_entries.simps [of J "[l]"] split: option.splits)

lemma read_log_unreadable: "unreadable J l \<Longrightarrow> read_log J l = Inr []"
  using wal_entries_unreadable [of J l]
  by (cases "l = []") (simp_all add: read_log_def byte_lines_tail unreadable_def wal_entries.simps [of J "[]"])

lemma json_line_not_empty: "json_line b s \<Longrightarrow> b \<noteq> []"
  by (auto simp: json_line_def)

lemma line_ofD:
  assumes "line_of J e b"
  shows "10 \<notin> set b" and "b \<noteq> []" and "strip_cr b = b" and "entry_to_vec J e = Inr b"
  using assms json_line_not_empty by (auto simp: line_of_def json_line_def)

lemma read_line:
  assumes "line_of J e b"
  shows "read_log J b = Inr [e]" and "read_log J (b @ [10]) = Inr [e]"
proof -
  note b = line_ofD [OF assms]
  have one: "wal_entries J [b] = Inr [e]"
    using wal_entries_line [OF assms, of "[]"] by (simp add: wal_entries.simps [of J "[]"])
  then show "read_log J b = Inr [e]" using b(1,2) by (simp add: read_log_def byte_lines_tail)
  show "read_log J (b @ [10]) = Inr [e]"
    using one byte_lines_line [OF b(1), of "[]"] b(3) by (simp add: read_log_def)
qed

lemma sample_unreadable:
  "unreadable sample_codec []" "unreadable sample_codec [123]" "unreadable sample_codec [123, 50]"
  "unreadable sample_codec [123, 50, 123, 49, 125]"
proof -
  have "list_all (\<lambda>l. 10 \<notin> set l \<and> (case decode_utf8 l of None \<Rightarrow> True | Some s \<Rightarrow> trim s = [] \<or>
      (case entry_from_str sample_codec (trim s) of Inl _ \<Rightarrow> True | Inr _ \<Rightarrow> False)))
    [[], [123], [123, 50], [123, 50, 123, 49, 125]]" by code_simp
  then have "list_all (unreadable sample_codec) [[], [123], [123, 50], [123, 50, 123, 49, 125]]"
    by (rule list.pred_mono_strong) (auto simp: unreadable_def split: option.splits sum.splits)
  then show "unreadable sample_codec []" "unreadable sample_codec [123]" "unreadable sample_codec [123, 50]"
    "unreadable sample_codec [123, 50, 123, 49, 125]" by simp_all
qed

text \<open>
  C39. A crash while writing costs at most the entry being written: when the write of an entry fails
  after \<open>n\<close> bytes reached the file, reading the file afterwards gives exactly the entries before it,
  and the entry itself if its text was complete. The inner hypothesis is that a proper prefix of the
  JSON text of this entry is not the JSON of an entry.
\<close>

theorem torn_write_loses_only_itself:
  assumes "log_of J es (ww_file w)" and "encodes J (ww_seq w + 1) ty"
  shows "\<exists>e b w'. w_entry e = ty \<and> w_seq e = ww_seq w + 1 \<and> entry_to_vec J e = Inr b \<and>
    wal_write J w (wal_entry_new 0 ty) (WriteFails n msg) = Inr (Inl (''WAL write error: '' @ msg), w') \<and>
    ((\<forall>k < length b. unreadable J (take k b)) \<longrightarrow>
      read_log J (ww_file w') = Inr (if n < length b then es else es @ [e]))"
proof -
  obtain e b where e: "line_of J e b" "w_seq e = ww_seq w + 1" "w_entry e = ty"
    and wr: "\<forall>io. wal_write J w (wal_entry_new 0 ty) io = Inr (append_line (w\<lparr>ww_seq := ww_seq w + 1\<rparr>) (b @ [10]) io)"
    using assms(2) by (rule wal_write_line)
  have tail: "read_log J (take n (b @ [10])) = Inr (if n < length b then [] else [e])"
    if "\<forall>k < length b. unreadable J (take k b)"
    using that read_line [OF e(1)] by (cases "n < length b"; cases "n = length b") (simp_all add: read_log_unreadable)
  show ?thesis
    using e(2,3) line_ofD(4) [OF e(1)] wr tail read_log_append [OF assms(1), of "take n (b @ [10])"]
    by (intro exI [of _ e] exI [of _ b]) (auto simp: append_line_def)
qed

theorem torn_write_loses_only_itself_witness:
  "\<exists>w'. wal_write sample_codec \<lparr>ww_file = [123, 49, 125, 10], ww_seq = 1, ww_sync = False\<rparr>
      (wal_entry_new 0 (WalAddUser 7)) (WriteFails 2 ''disk full'') = Inr (Inl ''WAL write error: disk full'', w') \<and>
    read_log sample_codec (ww_file w') = Inr [sample_entry]"
proof -
  let ?w = "\<lparr>ww_file = [123, 49, 125, 10], ww_seq = 1, ww_sync = False\<rparr>"
  have "line_of sample_codec sample_entry [123, 49, 125]"
  proof -
    have "json_line [123, 49, 125] [123, 49, 125]" unfolding json_line_def by code_simp
    then show ?thesis
      by (auto simp: line_of_def sample_codec_def sample_entry_def verify_checksum_def compute_checksum_def)
  qed
  then have "log_of sample_codec [sample_entry] (ww_file ?w)"
    by (auto simp: log_of_def file_of_def intro!: exI [of _ "[[123, 49, 125]]"])
  from torn_write_loses_only_itself [OF this, of "WalAddUser 7" 2 "''disk full''"] sample_encodes(2) obtain e b w' where
    e: "w_seq e = 2" "entry_to_vec sample_codec e = Inr b"
    and run: "wal_write sample_codec ?w (wal_entry_new 0 (WalAddUser 7)) (WriteFails 2 ''disk full'') =
      Inr (Inl ''WAL write error: disk full'', w')"
    and reads: "(\<forall>k < length b. unreadable sample_codec (take k b)) \<longrightarrow>
      read_log sample_codec (ww_file w') = Inr (if 2 < length b then [sample_entry] else [sample_entry, e])"
    by auto
  have b: "b = [123, 50, 125]" using e by (simp add: sample_codec_def)
  have "\<forall>k < length b. unreadable sample_codec (take k b)"
    using sample_unreadable by (auto simp: b less_Suc_eq numeral_3_eq_3)
  with reads run b show ?thesis by auto
qed

text \<open>
  C40. Appending after a torn line loses an entry that was reported as written. Recovery leaves the torn
  line in the file and the writer appends to it: the next entry is glued to the torn one, its write
  succeeds, and the reader skips both, so the operation is missing after the next restart. The inner
  hypothesis is that the torn text followed by the JSON of the entry is not the JSON of an entry.
\<close>

theorem append_after_torn_line_loses_entry:
  assumes "log_of J es file" and "ww_file w = file @ torn" and "10 \<notin> set torn" and "encodes J (ww_seq w + 1) ty"
  shows "\<exists>e b w'. w_entry e = ty \<and> w_seq e = ww_seq w + 1 \<and> entry_to_vec J e = Inr b \<and>
    wal_write J w (wal_entry_new 0 ty) Written = Inr (Inr (ww_seq w + 1), w') \<and>
    (unreadable J (torn @ b) \<longrightarrow> read_log J (ww_file w') = Inr es)"
proof -
  obtain e b where e: "line_of J e b" "w_seq e = ww_seq w + 1" "w_entry e = ty"
    and wr: "\<forall>io. wal_write J w (wal_entry_new 0 ty) io = Inr (append_line (w\<lparr>ww_seq := ww_seq w + 1\<rparr>) (b @ [10]) io)"
    using assms(4) by (rule wal_write_line)
  note b = line_ofD [OF e(1)]
  have "strip_cr (torn @ b) = torn @ b"
    using b(2,3) by (auto simp: strip_cr_def butlast_append split: if_splits)
  moreover have "10 \<notin> set (torn @ b)" using b(1) assms(3) by simp
  ultimately have "read_log J ((torn @ b) @ [10]) = wal_entries J [torn @ b]"
    using byte_lines_line [of "torn @ b" "[]"] by (simp add: read_log_def)
  then have "unreadable J (torn @ b) \<longrightarrow> read_log J (torn @ b @ [10]) = Inr []"
    by (simp add: wal_entries_unreadable)
  then show ?thesis
    using e(2,3) b(4) wr assms(2) read_log_append [OF assms(1), of "torn @ b @ [10]"]
    by (intro exI [of _ e] exI [of _ b]) (auto simp: append_line_def)
qed

theorem append_after_torn_line_loses_entry_witness:
  "\<exists>w'. wal_write sample_codec \<lparr>ww_file = [123, 50], ww_seq = 0, ww_sync = False\<rparr>
      (wal_entry_new 0 (WalAddUser 7)) Written = Inr (Inr 1, w') \<and> read_log sample_codec (ww_file w') = Inr []"
proof -
  let ?w = "\<lparr>ww_file = [123, 50], ww_seq = 0, ww_sync = False\<rparr>"
  have "log_of sample_codec [] []" by (auto simp: log_of_def file_of_def intro!: exI [of _ "[]"])
  from append_after_torn_line_loses_entry [OF this, of ?w "[123, 50]" "WalAddUser 7"] sample_encodes(1)
  obtain e b w' where e: "w_seq e = 1" "entry_to_vec sample_codec e = Inr b"
    and run: "wal_write sample_codec ?w (wal_entry_new 0 (WalAddUser 7)) Written = Inr (Inr 1, w')"
    and reads: "unreadable sample_codec ([123, 50] @ b) \<longrightarrow> read_log sample_codec (ww_file w') = Inr []"
    by auto
  have "b = [123, 49, 125]" using e by (simp add: sample_codec_def)
  with reads run sample_unreadable show ?thesis by auto
qed

end
