(* ===== verification/Findings.thy ===== *)
theory Findings
  imports Exchange WalEngine WalTheorems
begin

text \<open>
  Runs on which the engine departs from price-time priority, or from what its comments promise. Each
  is a concrete evaluation of the model.
\<close>

section \<open>Books\<close>

text \<open>The trades of a book, as buyer, seller, price and quantity, and the queues of one side.\<close>

definition deal_of :: "trade \<Rightarrow> user_id \<times> user_id \<times> price \<times> quantity" where
  "deal_of t = (ti_user (t_bid t), ti_user (t_ask t), ti_price (t_bid t), ti_quantity (t_bid t))"

definition queues :: "book_side \<Rightarrow> (price \<times> order_id list) list" where
  "queues m = map (\<lambda>(p, ys). (p, map o_id ys)) m"

definition placed_last :: "order list \<Rightarrow> order \<Rightarrow> ((user_id \<times> user_id \<times> price \<times> quantity) list option
    \<times> (price \<times> order_id list) list \<times> (price \<times> order_id list) list) option" where
  "placed_last xs x =
     (case place_all order_book_new xs sample_generator sample_clock of
        Inl _ \<Rightarrow> None
      | Inr (bk, g, c) \<Rightarrow>
          (case add_order bk x g c of
             Inl _ \<Rightarrow> None
           | Inr (ts, bk, _, _) \<Rightarrow>
               Some (map_option (map deal_of) ts, queues (bids_map bk), queues (asks_map bk))))"

text \<open>
  A user whose bid crosses the own ask hides the ask from everybody whose limit is below that bid:
  the best bid and the best ask belong to the same user, so the ask level is set aside before the
  second bid is looked at. Here user 2 bids 102 against an ask of 100 and does not trade.
\<close>

lemma own_crossed_level_hides_orders:
  "placed_last [sample_order 1 GoodTillCancel Sell 100 5 1, sample_order 2 GoodTillCancel Buy 105 5 1]
     (sample_order 3 GoodTillCancel Buy 102 5 2) =
   Some (Some [], [(Price 102, [3]), (Price 105, [2])], [(Price 100, [1])])"
  by code_simp

text \<open>
  Skipping an own order moves it behind the level for good: after the ask of another user has been
  filled, the two asks of user 1 have changed places.
\<close>

lemma skipping_own_orders_rotates_the_level:
  "placed_last [sample_order 1 GoodTillCancel Sell 100 1 3, sample_order 2 GoodTillCancel Sell 100 2 1,
      sample_order 3 GoodTillCancel Sell 100 3 1]
     (sample_order 4 GoodTillCancel Buy 100 5 1) =
   Some (Some [(1, 3, Price 100, 1)], [(Price 100, [4])], [(Price 100, [3, 2])])"
  by code_simp

section \<open>Locks\<close>

text \<open>
  A buyer who trades below the limit keeps the difference locked: the order is filled, no book holds
  it any more, and no operation on it can release the rest, because cancelling it fails.
\<close>

lemma price_improvement_stays_locked:
  "(case core_add_order sample_open sample_pair (sample_order 9 GoodTillCancel Buy 102 3 1) (drop 6 sample_clock) of
      Inr (Inr (Some [t]), e, _) \<Rightarrow>
        ti_quantity (t_bid t) = 3 \<and> lock_at (users e) 1 9 = Some \<lparr>le_asset = USDC, le_amount = 6\<rparr> \<and>
        fst (core_cancel_order e sample_pair 9) = False
    | _ \<Rightarrow> False)"
  by code_simp

section \<open>Recovery\<close>

text \<open>
  A line that is not JSON is skipped, but a line that is not UTF-8 ends recovery: the entries behind it
  are not replayed, and the sequence numbers they carry will be given out again.
\<close>

lemma invalid_text_ends_recovery:
  "map_sum id (map w_seq) (read_log sample_codec ([123, 49, 125, 10] @ [97, 10] @ [123, 50, 125, 10])) = Inr [1, 2]"
  "map_sum id (map w_seq) (read_log sample_codec ([123, 49, 125, 10] @ [255, 10] @ [123, 50, 125, 10])) = Inr [1]"
  by code_simp+

text \<open>
  The generator starts again with the process, and the log does not bring it forward. When the clock of
  the new process reads no later than that of the old one, an identifier is issued that an order in
  the recovered book already has.
\<close>

lemma restart_reissues_identifiers:
  "(case next_id sample_generator sample_clock of
      Inr (i, _) \<Rightarrow>
        (case replay_entry sample_exchange (wal_entry_new 1 (WalAddOrder sample_pair
            (sample_order i GoodTillCancel Sell 100 5 2) None)) [] of
           Inr (e, _) \<Rightarrow>
             (case (core_next_id e sample_clock, hm_get (orderbooks e) sample_pair) of
                (Inr (j, _), Some bk) \<Rightarrow> j = i \<and> has_order bk j
              | _ \<Rightarrow> False)
         | _ \<Rightarrow> False)
    | _ \<Rightarrow> False)"
  by code_simp

end
