(* ===== verification/Wrapper.thy ===== *)
theory Wrapper
  imports WalEngine
begin

text \<open>
  The choice between the two engines (\<open>engine/mod.rs\<close>, \<open>EngineWrapper\<close> and \<open>engine_from_env\<close>): every
  operation is handed to the engine that was chosen at start-up.
\<close>

datatype engine_wrapper = CoreE core_engine | WalE wal_engine

section \<open>Start-up\<close>

text \<open>\<open>enabled\<close> and \<open>path\<close> are the variables WAL_ENABLED and WAL_PATH, \<open>disks\<close> the file system.\<close>

definition engine_from_env ::
  "codec \<Rightarrow> string option \<Rightarrow> string option \<Rightarrow> (string \<Rightarrow> disk) \<Rightarrow> u64 \<Rightarrow> u64 \<Rightarrow> clock
     \<Rightarrow> fault + engine_wrapper \<times> clock" where
  "engine_from_env J enabled path disks m d c =
     (if enabled = Some ''true'' then
        (let path = (case path of Some p \<Rightarrow> p | None \<Rightarrow> ''engine.wal'') in
         and_then (wal_engine_new J m d path (disks path) c) (\<lambda>(r, c).
           case r of
             Inl msg \<Rightarrow> Inl (Panic (WalUnavailable msg))
           | Inr w \<Rightarrow> Inr (WalE w, c)))
      else and_then (core_new m d) (\<lambda>e. Inr (CoreE e, c)))"

section \<open>Operations\<close>

fun wrapper_next_id :: "engine_wrapper \<Rightarrow> clock \<Rightarrow> fault + order_id \<times> engine_wrapper \<times> clock" where
  "wrapper_next_id (CoreE e) c = and_then (core_next_id e c) (\<lambda>(i, e, c). Inr (i, CoreE e, c))"
| "wrapper_next_id (WalE w) c = and_then (wal_next_id w c) (\<lambda>(i, w, c). Inr (i, WalE w, c))"

fun wrapper_add_trading_pair ::
  "codec \<Rightarrow> engine_wrapper \<Rightarrow> trading_pair \<Rightarrow> io_outcome \<Rightarrow> fault + engine_wrapper" where
  "wrapper_add_trading_pair J (CoreE e) pair io = Inr (CoreE (core_add_trading_pair e pair))"
| "wrapper_add_trading_pair J (WalE w) pair io =
     and_then (wal_add_trading_pair J w pair io) (\<lambda>w. Inr (WalE w))"

fun wrapper_remove_trading_pair ::
  "codec \<Rightarrow> engine_wrapper \<Rightarrow> trading_pair \<Rightarrow> io_outcome \<Rightarrow> fault + order_book option \<times> engine_wrapper" where
  "wrapper_remove_trading_pair J (CoreE e) pair io = Inr (map_prod id CoreE (core_remove_trading_pair e pair))"
| "wrapper_remove_trading_pair J (WalE w) pair io =
     and_then (wal_remove_trading_pair J w pair io) (\<lambda>(r, w). Inr (r, WalE w))"

fun wrapper_add_order ::
  "codec \<Rightarrow> engine_wrapper \<Rightarrow> trading_pair \<Rightarrow> order \<Rightarrow> clock \<Rightarrow> io_outcome
     \<Rightarrow> fault + (order_error + trade list option) \<times> engine_wrapper \<times> clock" where
  "wrapper_add_order J (CoreE e) pair x c io =
     and_then (core_add_order e pair x c) (\<lambda>(r, e, c). Inr (r, CoreE e, c))"
| "wrapper_add_order J (WalE w) pair x c io =
     and_then (wal_add_order J w pair x c io) (\<lambda>(r, w, c). Inr (r, WalE w, c))"

fun wrapper_cancel_order ::
  "codec \<Rightarrow> engine_wrapper \<Rightarrow> trading_pair \<Rightarrow> order_id \<Rightarrow> io_outcome \<Rightarrow> fault + bool \<times> engine_wrapper" where
  "wrapper_cancel_order J (CoreE e) pair i io = Inr (map_prod id CoreE (core_cancel_order e pair i))"
| "wrapper_cancel_order J (WalE w) pair i io =
     and_then (wal_cancel_order J w pair i io) (\<lambda>(r, w). Inr (r, WalE w))"

fun wrapper_modify_order ::
  "codec \<Rightarrow> engine_wrapper \<Rightarrow> trading_pair \<Rightarrow> order_modify \<Rightarrow> clock \<Rightarrow> io_outcome
     \<Rightarrow> fault + (order_error + trade list option) \<times> engine_wrapper \<times> clock" where
  "wrapper_modify_order J (CoreE e) pair m c io =
     and_then (core_modify_order e pair m c) (\<lambda>(r, e, c). Inr (r, CoreE e, c))"
| "wrapper_modify_order J (WalE w) pair m c io =
     and_then (wal_modify_order J w pair m c io) (\<lambda>(r, w, c). Inr (r, WalE w, c))"

fun wrapper_get_order_info :: "engine_wrapper \<Rightarrow> trading_pair \<Rightarrow> order_book_level_info option" where
  "wrapper_get_order_info (CoreE e) pair = core_get_order_info e pair"
| "wrapper_get_order_info (WalE w) pair = wal_get_order_info w pair"

fun wrapper_size :: "engine_wrapper \<Rightarrow> trading_pair \<Rightarrow> nat option" where
  "wrapper_size (CoreE e) pair = core_size e pair"
| "wrapper_size (WalE w) pair = wal_size w pair"

fun wrapper_add_user :: "codec \<Rightarrow> engine_wrapper \<Rightarrow> user_id \<Rightarrow> io_outcome \<Rightarrow> fault + engine_wrapper" where
  "wrapper_add_user J (CoreE e) u io = Inr (CoreE (core_add_user e u))"
| "wrapper_add_user J (WalE w) u io = and_then (wal_add_user J w u io) (\<lambda>w. Inr (WalE w))"

fun wrapper_remove_user ::
  "codec \<Rightarrow> engine_wrapper \<Rightarrow> user_id \<Rightarrow> io_outcome
     \<Rightarrow> fault + (user_error + (asset, quantity) hmap) \<times> engine_wrapper" where
  "wrapper_remove_user J (CoreE e) u io = Inr (map_prod id CoreE (core_remove_user e u))"
| "wrapper_remove_user J (WalE w) u io =
     and_then (wal_remove_user J w u io) (\<lambda>(r, w). Inr (r, WalE w))"

fun wrapper_deposit_balance ::
  "codec \<Rightarrow> engine_wrapper \<Rightarrow> user_id \<Rightarrow> asset \<Rightarrow> quantity \<Rightarrow> io_outcome
     \<Rightarrow> fault + (user_error + unit) \<times> engine_wrapper" where
  "wrapper_deposit_balance J (CoreE e) u a n io = Inr (map_prod id CoreE (core_deposit_balance e u a n))"
| "wrapper_deposit_balance J (WalE w) u a n io =
     and_then (wal_deposit_balance J w u a n io) (\<lambda>(r, w). Inr (r, WalE w))"

fun wrapper_withdraw_balance ::
  "codec \<Rightarrow> engine_wrapper \<Rightarrow> user_id \<Rightarrow> asset \<Rightarrow> quantity \<Rightarrow> io_outcome
     \<Rightarrow> fault + (user_error + unit) \<times> engine_wrapper" where
  "wrapper_withdraw_balance J (CoreE e) u a n io = Inr (map_prod id CoreE (core_withdraw_balance e u a n))"
| "wrapper_withdraw_balance J (WalE w) u a n io =
     and_then (wal_withdraw_balance J w u a n io) (\<lambda>(r, w). Inr (r, WalE w))"

fun wrapper_get_balance :: "engine_wrapper \<Rightarrow> user_id \<Rightarrow> asset \<Rightarrow> user_error + quantity" where
  "wrapper_get_balance (CoreE e) u a = core_get_balance e u a"
| "wrapper_get_balance (WalE w) u a = wal_get_balance w u a"

fun wrapper_get_total_balance :: "engine_wrapper \<Rightarrow> user_id \<Rightarrow> asset \<Rightarrow> user_error + quantity" where
  "wrapper_get_total_balance (CoreE e) u a = core_get_total_balance e u a"
| "wrapper_get_total_balance (WalE w) u a = wal_get_total_balance w u a"

end
