(* ===== verification/Grpc.thy ===== *)
theory Grpc
  imports Wrapper
begin

text \<open>
  The service in front of the engine (\<open>grpc/mod.rs\<close>): the engine task, which executes commands one at a
  time and stops at the first panic, the handlers of the remote procedure calls, and the fill events
  of \<open>redis/mod.rs\<close>. Generated message types appear as records, with the values their accessors
  return; parsing and printing of user identifiers (the \<open>uuid\<close> crate) are parameters.
\<close>

section \<open>Errors and statuses\<close>

datatype engine_error = EPanic panic_site | EOrder order_error | EUser user_error

datatype status_code = Internal | NotFound | FailedPrecondition | InvalidArgument

type_synonym status = "status_code \<times> string"

fun to_status :: "engine_error \<Rightarrow> status" where
  "to_status (EPanic _) = (Internal, ''internal engine error'')"
| "to_status (EOrder NoSuchPair) = (NotFound, ''trading pair not found'')"
| "to_status (EOrder NoSuchUser) = (NotFound, ''user not found'')"
| "to_status (EOrder InsufficientBalance) = (FailedPrecondition, ''insufficient balance'')"
| "to_status (EOrder InvalidOrder) = (InvalidArgument, ''invalid order'')"
| "to_status (EUser UserNoSuchUser) = (NotFound, ''user not found'')"
| "to_status (EUser UserInsufficientBalance) = (FailedPrecondition, ''insufficient balance'')"
| "to_status (EUser UserBalanceOverflow) = (FailedPrecondition, ''balance overflow'')"

section \<open>The engine task\<close>

datatype engine_command =
    SubmitOrder trading_pair order_type side price quantity user_id
  | CancelOrder trading_pair order_id
  | ModifyOrder trading_pair order_modify
  | GetOrderBook trading_pair
  | AddTradingPair trading_pair
  | AddUser user_id
  | RemoveUser user_id
  | DepositBalance user_id asset quantity
  | WithdrawBalance user_id asset quantity
  | GetBalance user_id asset
  | GetTotalBalance user_id asset

text \<open>What is sent on the reply channel of each command.\<close>

datatype reply =
    SubmitReply "engine_error + order_id \<times> trade list option"
  | CancelReply "engine_error + bool"
  | ModifyReply "engine_error + trade list option"
  | BookReply "engine_error + order_book_level_info"
  | UnitReply "engine_error + unit"
  | RemoveReply "engine_error + (asset, quantity) hmap"
  | QuantityReply "engine_error + quantity"

text \<open>The closures of the account commands, run under \<open>catch_unwind\<close>.\<close>

definition exec_deposit ::
  "codec \<Rightarrow> user_id \<Rightarrow> asset \<Rightarrow> quantity \<Rightarrow> engine_wrapper \<Rightarrow> io_outcome \<Rightarrow> fault + reply \<times> engine_wrapper" where
  [simp]: "exec_deposit J u a n w io =
     and_then (wrapper_deposit_balance J w u a n io) (\<lambda>(r, w). Inr (UnitReply (map_sum EUser id r), w))"

definition exec_withdraw ::
  "codec \<Rightarrow> user_id \<Rightarrow> asset \<Rightarrow> quantity \<Rightarrow> engine_wrapper \<Rightarrow> io_outcome \<Rightarrow> fault + reply \<times> engine_wrapper" where
  [simp]: "exec_withdraw J u a n w io =
     and_then (wrapper_withdraw_balance J w u a n io) (\<lambda>(r, w). Inr (UnitReply (map_sum EUser id r), w))"

definition exec_get_balance :: "user_id \<Rightarrow> asset \<Rightarrow> engine_wrapper \<Rightarrow> fault + reply \<times> engine_wrapper" where
  [simp]: "exec_get_balance u a w = Inr (QuantityReply (map_sum EUser id (wrapper_get_balance w u a)), w)"

definition exec_get_total_balance :: "user_id \<Rightarrow> asset \<Rightarrow> engine_wrapper \<Rightarrow> fault + reply \<times> engine_wrapper" where
  [simp]: "exec_get_total_balance u a w =
     Inr (QuantityReply (map_sum EUser id (wrapper_get_total_balance w u a)), w)"

text \<open>The closure each command runs under \<open>catch_unwind\<close>.\<close>

fun exec_command ::
  "codec \<Rightarrow> engine_command \<Rightarrow> engine_wrapper \<Rightarrow> clock \<Rightarrow> io_outcome \<Rightarrow> fault + reply \<times> engine_wrapper" where
  "exec_command J (SubmitOrder pair ty sd p q u) w c io =
     and_then (wrapper_next_id w c) (\<lambda>(i, w, c).
     and_then (order_new i ty sd Empty p q u c) (\<lambda>(x, c).
     and_then (wrapper_add_order J w pair x c io) (\<lambda>(r, w, c).
       Inr (SubmitReply (map_sum EOrder (\<lambda>ts. (i, ts)) r), w))))"
| "exec_command J (CancelOrder pair i) w c io =
     and_then (wrapper_cancel_order J w pair i io) (\<lambda>(r, w). Inr (CancelReply (Inr r), w))"
| "exec_command J (ModifyOrder pair m) w c io =
     and_then (wrapper_modify_order J w pair m c io) (\<lambda>(r, w, c). Inr (ModifyReply (map_sum EOrder id r), w))"
| "exec_command J (GetOrderBook pair) w c io =
     Inr (BookReply (ok_or (wrapper_get_order_info w pair) (EOrder NoSuchPair)), w)"
| "exec_command J (AddTradingPair pair) w c io =
     and_then (wrapper_add_trading_pair J w pair io) (\<lambda>w. Inr (UnitReply (Inr ()), w))"
| "exec_command J (AddUser u) w c io =
     and_then (wrapper_add_user J w u io) (\<lambda>w. Inr (UnitReply (Inr ()), w))"
| "exec_command J (RemoveUser u) w c io =
     and_then (wrapper_remove_user J w u io) (\<lambda>(r, w). Inr (RemoveReply (map_sum EUser id r), w))"
| "exec_command J (DepositBalance u a n) w c io = exec_deposit J u a n w io"
| "exec_command J (WithdrawBalance u a n) w c io = exec_withdraw J u a n w io"
| "exec_command J (GetBalance u a) w c io = exec_get_balance u a w"
| "exec_command J (GetTotalBalance u a) w c io = exec_get_total_balance u a w"

fun panic_reply :: "engine_command \<Rightarrow> panic_site \<Rightarrow> reply" where
  "panic_reply (SubmitOrder _ _ _ _ _ _) f = SubmitReply (Inl (EPanic f))"
| "panic_reply (CancelOrder _ _) f = CancelReply (Inl (EPanic f))"
| "panic_reply (ModifyOrder _ _) f = ModifyReply (Inl (EPanic f))"
| "panic_reply (GetOrderBook _) f = BookReply (Inl (EPanic f))"
| "panic_reply (AddTradingPair _) f = UnitReply (Inl (EPanic f))"
| "panic_reply (AddUser _) f = UnitReply (Inl (EPanic f))"
| "panic_reply (RemoveUser _) f = RemoveReply (Inl (EPanic f))"
| "panic_reply (DepositBalance _ _ _) f = UnitReply (Inl (EPanic f))"
| "panic_reply (WithdrawBalance _ _ _) f = UnitReply (Inl (EPanic f))"
| "panic_reply (GetBalance _ _) f = QuantityReply (Inl (EPanic f))"
| "panic_reply (GetTotalBalance _ _) f = QuantityReply (Inl (EPanic f))"

text \<open>\<open>FillPublisher::publish_fills\<close>, with \<open>on\<close> for a connected publisher.\<close>

record fill_event =
  fe_pair :: string
  fe_trades :: "trade list"

definition publish_fills :: "bool \<Rightarrow> trading_pair \<Rightarrow> trade list \<Rightarrow> fill_event list" where
  "publish_fills on pair ts = (if on then [\<lparr>fe_pair = pair_to_string pair, fe_trades = ts\<rparr>] else [])"

definition fills_of :: "bool \<Rightarrow> engine_command \<Rightarrow> reply \<Rightarrow> fill_event list" where
  "fills_of on cmd r =
     (case (cmd, r) of
        (SubmitOrder pair _ _ _ _ _, SubmitReply (Inr (_, Some ts))) \<Rightarrow> publish_fills on pair ts
      | (ModifyOrder pair _, ModifyReply (Inr (Some ts))) \<Rightarrow> publish_fills on pair ts
      | _ \<Rightarrow> [])"

text \<open>
  \<open>run_engine\<close> over the commands received before the channel closes, each with the clock readings and
  the write outcome it meets. After a panic the loop is left and the fatal signal sent; a command
  still waiting for a clock reading leaves the run unfinished, without a reply and without an engine.
\<close>

type_synonym arrival = "engine_command \<times> clock \<times> io_outcome"

record service_run =
  sr_replies :: "reply list"
  sr_published :: "fill_event list"
  sr_fatal :: bool
  sr_engine :: "engine_wrapper option"

fun run_engine :: "codec \<Rightarrow> bool \<Rightarrow> engine_wrapper \<Rightarrow> arrival list \<Rightarrow> service_run" where
  "run_engine J on w [] =
     \<lparr>sr_replies = [], sr_published = [], sr_fatal = False, sr_engine = Some w\<rparr>"
| "run_engine J on w ((cmd, c, io) # rest) =
     (case exec_command J cmd w c io of
        Inl (Panic p) \<Rightarrow>
          \<lparr>sr_replies = [panic_reply cmd p], sr_published = [], sr_fatal = True, sr_engine = None\<rparr>
      | Inl ClockExhausted \<Rightarrow>
          \<lparr>sr_replies = [], sr_published = [], sr_fatal = False, sr_engine = None\<rparr>
      | Inr (r, w) \<Rightarrow>
          (let s = run_engine J on w rest
           in s\<lparr>sr_replies := r # sr_replies s, sr_published := fills_of on cmd r @ sr_published s\<rparr>))"

section \<open>Conversions\<close>

datatype proto_asset = ProtoEth | ProtoSol | ProtoBtc | ProtoUsdc | ProtoUsdt
datatype proto_side = ProtoBuy | ProtoSell
datatype proto_order_type = ProtoGoodTillCancel | ProtoGoodForDay | ProtoFillAndKill | ProtoFillOrKill

record proto_pair =
  pp_base :: proto_asset
  pp_quote :: proto_asset

fun proto_asset_to_engine :: "proto_asset \<Rightarrow> status + asset" where
  "proto_asset_to_engine ProtoEth = Inr ETH"
| "proto_asset_to_engine ProtoSol = Inr SOL"
| "proto_asset_to_engine ProtoBtc = Inr BTC"
| "proto_asset_to_engine ProtoUsdc = Inr USDC"
| "proto_asset_to_engine ProtoUsdt = Inr USDT"

fun proto_side_to_engine :: "proto_side \<Rightarrow> status + side" where
  "proto_side_to_engine ProtoBuy = Inr Buy"
| "proto_side_to_engine ProtoSell = Inr Sell"

fun proto_order_type_to_engine :: "proto_order_type \<Rightarrow> status + order_type" where
  "proto_order_type_to_engine ProtoGoodTillCancel = Inr GoodTillCancel"
| "proto_order_type_to_engine ProtoGoodForDay = Inr GoodForDay"
| "proto_order_type_to_engine ProtoFillAndKill = Inr FillAndKill"
| "proto_order_type_to_engine ProtoFillOrKill = Inr FillOrKill"

definition proto_pair_to_engine :: "proto_pair \<Rightarrow> status + trading_pair" where
  "proto_pair_to_engine p =
     and_then (proto_asset_to_engine (pp_base p)) (\<lambda>b.
     and_then (proto_asset_to_engine (pp_quote p)) (\<lambda>q. Inr (trading_pair_new b q)))"

record proto_trade_info =
  pti_order_id :: u64
  pti_price :: price
  pti_quantity :: u32
  pti_user_id :: string

record proto_trade =
  pt_trade_id :: u64
  pt_timestamp :: u64
  pt_bid_trade :: "proto_trade_info option"
  pt_ask_trade :: "proto_trade_info option"

definition engine_trade_to_proto :: "(user_id \<Rightarrow> string) \<Rightarrow> trade \<Rightarrow> proto_trade" where
  "engine_trade_to_proto uuid_to_string t =
     \<lparr>pt_trade_id = t_id t, pt_timestamp = t_timestamp t,
      pt_bid_trade = Some \<lparr>pti_order_id = ti_order_id (t_bid t), pti_price = ti_price (t_bid t),
        pti_quantity = ti_quantity (t_bid t), pti_user_id = uuid_to_string (ti_user (t_bid t))\<rparr>,
      pt_ask_trade = Some \<lparr>pti_order_id = ti_order_id (t_ask t), pti_price = ti_price (t_ask t),
        pti_quantity = ti_quantity (t_ask t), pti_user_id = uuid_to_string (ti_user (t_ask t))\<rparr>\<rparr>"

definition proto_trades :: "(user_id \<Rightarrow> string) \<Rightarrow> trade list option \<Rightarrow> proto_trade list" where
  "proto_trades uuid_to_string trades =
     map (engine_trade_to_proto uuid_to_string) (case trades of None \<Rightarrow> [] | Some ts \<Rightarrow> ts)"

end
