(* ===== verification/Handlers.thy ===== *)
theory Handlers
  imports Grpc
begin

text \<open>
  The handlers of the remote procedure calls (\<open>grpc/mod.rs\<close>): each turns a request into a command,
  sends it to the engine task, awaits the reply and turns it into a response or a status. The channel
  to the task is the parameter \<open>ask\<close>; it answers, or the task is gone before or after taking the
  command.
\<close>

section \<open>The channel to the engine task\<close>

datatype 'a answer = Unavailable | Crashed | Answered "engine_error + 'a"

definition await :: "string \<Rightarrow> string \<Rightarrow> 'a answer \<Rightarrow> status + 'a" where
  "await unavailable crashed ans =
     (case ans of
        Unavailable \<Rightarrow> Inl (Internal, unavailable)
      | Crashed \<Rightarrow> Inl (Internal, crashed)
      | Answered (Inl e) \<Rightarrow> Inl (to_status e)
      | Answered (Inr r) \<Rightarrow> Inr r)"

definition required_pair :: "proto_pair option \<Rightarrow> status + trading_pair" where
  "required_pair p =
     and_then (ok_or p (InvalidArgument, ''missing trading pair'')) proto_pair_to_engine"

section \<open>Order requests\<close>

record submit_order_request =
  so_pair :: "proto_pair option"
  so_order_type :: proto_order_type
  so_side :: proto_side
  so_price :: price
  so_quantity :: quantity
  so_user_id :: string

record submit_order_response =
  sor_order_id :: order_id
  sor_trades :: "proto_trade list"

definition grpc_submit_order ::
  "(string \<Rightarrow> user_id option) \<Rightarrow> (user_id \<Rightarrow> string)
     \<Rightarrow> (engine_command \<Rightarrow> (order_id \<times> trade list option) answer) \<Rightarrow> submit_order_request
     \<Rightarrow> status + submit_order_response" where
  "grpc_submit_order parse_uuid uuid_to_string ask req =
     and_then (required_pair (so_pair req)) (\<lambda>pair.
     and_then (proto_side_to_engine (so_side req)) (\<lambda>side.
     and_then (proto_order_type_to_engine (so_order_type req)) (\<lambda>ty.
     and_then (ok_or (parse_uuid (so_user_id req)) (InvalidArgument, ''invalid user_id'')) (\<lambda>user.
     and_then (await ''engine unavailable'' ''engine task crashed''
       (ask (SubmitOrder pair ty side (so_price req) (so_quantity req) user))) (\<lambda>(i, trades).
     Inr \<lparr>sor_order_id = i, sor_trades = proto_trades uuid_to_string trades\<rparr>)))))"

record cancel_order_request =
  co_pair :: "proto_pair option"
  co_order_id :: order_id

definition grpc_cancel_order ::
  "(engine_command \<Rightarrow> bool answer) \<Rightarrow> cancel_order_request \<Rightarrow> status + bool" where
  "grpc_cancel_order ask req =
     and_then (required_pair (co_pair req)) (\<lambda>pair.
       await ''engine unavailable'' ''engine task crashed'' (ask (CancelOrder pair (co_order_id req))))"

record modify_order_request =
  mo_pair :: "proto_pair option"
  mo_order_id :: order_id
  mo_price :: price
  mo_quantity :: quantity
  mo_side :: proto_side
  mo_user_id :: string

definition grpc_modify_order ::
  "(string \<Rightarrow> user_id option) \<Rightarrow> (user_id \<Rightarrow> string)
     \<Rightarrow> (engine_command \<Rightarrow> trade list option answer) \<Rightarrow> modify_order_request
     \<Rightarrow> status + proto_trade list" where
  "grpc_modify_order parse_uuid uuid_to_string ask req =
     and_then (required_pair (mo_pair req)) (\<lambda>pair.
     and_then (ok_or (parse_uuid (mo_user_id req)) (InvalidArgument, ''invalid user_id'')) (\<lambda>user.
     and_then (proto_side_to_engine (mo_side req)) (\<lambda>side.
     and_then (await ''engine unavailable'' ''engine task crashed''
       (ask (ModifyOrder pair
         (order_modify_new (mo_order_id req) (mo_price req) side (mo_quantity req) Empty user)))) (\<lambda>trades.
     Inr (proto_trades uuid_to_string trades)))))"

record book_response =
  br_bids :: "level_info list"
  br_asks :: "level_info list"

definition grpc_get_order_book ::
  "(engine_command \<Rightarrow> order_book_level_info answer) \<Rightarrow> proto_pair option \<Rightarrow> status + book_response" where
  "grpc_get_order_book ask req_pair =
     and_then (required_pair req_pair) (\<lambda>pair.
     and_then (await ''engine unavailable'' ''engine task crashed'' (ask (GetOrderBook pair))) (\<lambda>info.
     Inr \<lparr>br_bids = map (\<lambda>level. level_info_new (l_price level) (l_quantity level)) (ob_bids info),
          br_asks = map (\<lambda>level. level_info_new (l_price level) (l_quantity level)) (ob_asks info)\<rparr>))"

section \<open>Pair and account requests\<close>

definition grpc_add_trading_pair ::
  "(engine_command \<Rightarrow> unit answer) \<Rightarrow> proto_pair option \<Rightarrow> status + bool" where
  "grpc_add_trading_pair ask req_pair =
     and_then (required_pair req_pair) (\<lambda>pair.
     and_then (await ''engine unavailable'' ''engine task crashed'' (ask (AddTradingPair pair))) (\<lambda>_.
     Inr True))"

record add_user_response =
  au_success :: bool
  au_user_id :: string

definition grpc_add_user ::
  "(string \<Rightarrow> user_id option) \<Rightarrow> (user_id \<Rightarrow> string) \<Rightarrow> (engine_command \<Rightarrow> unit answer) \<Rightarrow> string
     \<Rightarrow> status + add_user_response" where
  "grpc_add_user parse_uuid uuid_to_string ask req_user =
     and_then (ok_or (parse_uuid req_user) (InvalidArgument, ''invalid user_id'')) (\<lambda>user.
     and_then (await ''engine unavailable'' ''engine task crashed'' (ask (AddUser user))) (\<lambda>_.
     Inr \<lparr>au_success = True, au_user_id = uuid_to_string user\<rparr>))"

definition required_user :: "(string \<Rightarrow> user_id option) \<Rightarrow> string \<Rightarrow> status + user_id" where
  "required_user parse_uuid s = ok_or (parse_uuid s) (InvalidArgument, ''Invalid User Id'')"

text \<open>\<open>proto_asset_to_engine(..).map_err(|_| ..)\<close>.\<close>

definition required_asset :: "proto_asset \<Rightarrow> status + asset" where
  "required_asset a =
     (case proto_asset_to_engine a of Inl _ \<Rightarrow> Inl (InvalidArgument, ''Invalid Asset'') | Inr a \<Rightarrow> Inr a)"

definition grpc_remove_user ::
  "(string \<Rightarrow> user_id option) \<Rightarrow> (engine_command \<Rightarrow> (asset, quantity) hmap answer) \<Rightarrow> string
     \<Rightarrow> status + bool" where
  "grpc_remove_user parse_uuid ask req_user =
     and_then (required_user parse_uuid req_user) (\<lambda>user.
     and_then (await ''Engine unavailable'' ''Engine crashed'' (ask (RemoveUser user))) (\<lambda>_. Inr True))"

record balance_request =
  ba_user_id :: string
  ba_asset :: proto_asset

record amount_request = balance_request +
  ba_quantity :: quantity

definition grpc_deposit_balance ::
  "(string \<Rightarrow> user_id option) \<Rightarrow> (engine_command \<Rightarrow> unit answer) \<Rightarrow> amount_request \<Rightarrow> status + bool" where
  "grpc_deposit_balance parse_uuid ask req =
     and_then (required_user parse_uuid (ba_user_id req)) (\<lambda>user.
     and_then (required_asset (ba_asset req)) (\<lambda>asset.
     and_then (await ''Engine unavailable'' ''Engine crashed'' (ask (DepositBalance user asset (ba_quantity req)))) (\<lambda>_.
     Inr True)))"

definition grpc_withdraw_balance ::
  "(string \<Rightarrow> user_id option) \<Rightarrow> (engine_command \<Rightarrow> unit answer) \<Rightarrow> amount_request \<Rightarrow> status + bool" where
  "grpc_withdraw_balance parse_uuid ask req =
     and_then (required_user parse_uuid (ba_user_id req)) (\<lambda>user.
     and_then (required_asset (ba_asset req)) (\<lambda>asset.
     and_then (await ''Engine unavailable'' ''Engine crashed'' (ask (WithdrawBalance user asset (ba_quantity req)))) (\<lambda>_.
     Inr True)))"

definition grpc_get_balance ::
  "(string \<Rightarrow> user_id option) \<Rightarrow> (engine_command \<Rightarrow> quantity answer) \<Rightarrow> balance_request \<Rightarrow> status + quantity" where
  "grpc_get_balance parse_uuid ask req =
     and_then (required_user parse_uuid (ba_user_id req)) (\<lambda>user.
     and_then (required_asset (ba_asset req)) (\<lambda>asset.
       await ''Engine unavailable'' ''Engine crashed'' (ask (GetBalance user asset))))"

definition grpc_get_total_balance ::
  "(string \<Rightarrow> user_id option) \<Rightarrow> (engine_command \<Rightarrow> quantity answer) \<Rightarrow> balance_request \<Rightarrow> status + quantity" where
  "grpc_get_total_balance parse_uuid ask req =
     and_then (required_user parse_uuid (ba_user_id req)) (\<lambda>user.
     and_then (required_asset (ba_asset req)) (\<lambda>asset.
       await ''Engine unavailable'' ''Engine crashed'' (ask (GetTotalBalance user asset))))"

section \<open>Fill events\<close>

text \<open>
  The batching worker of \<open>redis/mod.rs\<close>: the fields it queues for each trade of a batch of events.
\<close>

definition i32_to_string :: "price \<Rightarrow> string" where
  "i32_to_string p =
     (if price_int p < 0 then CHR ''-'' # dec_string (nat (- price_int p)) else dec_string (nat (price_int p)))"

definition fill_fields :: "(user_id \<Rightarrow> string) \<Rightarrow> string \<Rightarrow> trade \<Rightarrow> (string \<times> string) list" where
  "fill_fields uuid_to_string pair t =
     [(''trade_id'', u64_to_string (t_id t)),
      (''timestamp'', u64_to_string (t_timestamp t)),
      (''pair'', pair),
      (''bid_order_id'', u64_to_string (ti_order_id (t_bid t))),
      (''bid_user_id'', uuid_to_string (ti_user (t_bid t))),
      (''bid_price'', i32_to_string (ti_price (t_bid t))),
      (''bid_quantity'', dec_string (unat (ti_quantity (t_bid t)))),
      (''ask_order_id'', u64_to_string (ti_order_id (t_ask t))),
      (''ask_user_id'', uuid_to_string (ti_user (t_ask t))),
      (''ask_price'', i32_to_string (ti_price (t_ask t))),
      (''ask_quantity'', dec_string (unat (ti_quantity (t_ask t))))]"

definition queued_fills :: "(user_id \<Rightarrow> string) \<Rightarrow> fill_event list \<Rightarrow> (string \<times> string) list list" where
  "queued_fills uuid_to_string batch =
     concat (map (\<lambda>event. map (fill_fields uuid_to_string (fe_pair event)) (fe_trades event)) batch)"

end
