(* ===== verification/Service.thy ===== *)
theory Service
  imports Exchange Grpc WalTheorems
begin

text \<open>
  The engine task as a server: commands are executed one at a time, in the order of the channel, until
  one of them panics. What holds of every command carries over to every run through the locale
  \<open>command_server\<close>, which is interpreted on the in-memory engine and on the logged engine.
\<close>

section \<open>Serving commands\<close>

text \<open>The commands answered, and either the command that failed or the state at the end.\<close>

fun serve :: "('s \<Rightarrow> 'a \<Rightarrow> fault + 'r \<times> 's) \<Rightarrow> 's \<Rightarrow> 'a list \<Rightarrow> ('a \<times> 'r) list \<times> ('a \<times> fault + 's)" where
  "serve exec s [] = ([], Inr s)"
| "serve exec s (a # as) =
     (case exec s a of
        Inl f \<Rightarrow> ([], Inl (a, f))
      | Inr (r, s) \<Rightarrow> (let (rs, e) = serve exec s as in ((a, r) # rs, e)))"

text \<open>
  A server whose states stay valid: \<open>valid n\<close> holds of the states after at most \<open>n\<close> commands, \<open>usable\<close>
  of the commands with usable inputs, and \<open>expected\<close> of the faults a command may end with.
\<close>

locale command_server =
  fixes exec :: "'s \<Rightarrow> 'a \<Rightarrow> fault + 'r \<times> 's"
    and valid :: "nat \<Rightarrow> 's \<Rightarrow> bool"
    and usable :: "'a \<Rightarrow> bool"
    and expected :: "fault \<Rightarrow> bool"
    and limit :: nat
  assumes valid_exec: "valid n s \<Longrightarrow> n < limit \<Longrightarrow> usable a \<Longrightarrow> exec s a = Inr (r, s') \<Longrightarrow> valid (Suc n) s'"
    and fault_expected: "valid n s \<Longrightarrow> n < limit \<Longrightarrow> usable a \<Longrightarrow> exec s a = Inl f \<Longrightarrow> expected f"
begin

lemma serve_run:
  assumes "valid n s" and "n + length as \<le> limit" and "\<forall>a \<in> set as. usable a" and "serve exec s as = (rs, e)"
  shows "case e of
      Inr s' \<Rightarrow> map fst rs = as \<and> valid (n + length as) s'
    | Inl (a, f) \<Rightarrow> (\<exists>later. as = map fst rs @ a # later) \<and> expected f"
  using assms
proof (induction as arbitrary: n s rs)
  case (Cons a as)
  show ?case
  proof (cases "exec s a")
    case (Inl f)
    with Cons.prems(4) have e: "rs = []" "e = Inl (a, f)" by simp_all
    from fault_expected [OF Cons.prems(1) _ _ Inl] Cons.prems(2,3) show ?thesis by (simp add: e)
  next
    case (Inr x)
    then obtain r s1 where run: "exec s a = Inr (r, s1)" by (cases x) auto
    with Cons.prems(4) obtain rs1 where rs: "rs = (a, r) # rs1" "serve exec s1 as = (rs1, e)"
      by (auto split: prod.splits)
    have "valid (Suc n) s1" using valid_exec [OF Cons.prems(1) _ _ run] Cons.prems(2,3) by simp
    from Cons.IH [OF this _ _ rs(2)] Cons.prems(2,3) rs(1) show ?thesis
      by (auto split: sum.splits)
  qed
qed auto

end

text \<open>\<open>run_engine\<close> is such a server, with the replies and published fills read off the run.\<close>

definition exec_arrival :: "codec \<Rightarrow> engine_wrapper \<Rightarrow> arrival \<Rightarrow> fault + reply \<times> engine_wrapper" where
  "exec_arrival J w a = (case a of (cmd, c, io) \<Rightarrow> exec_command J cmd w c io)"

definition last_reply :: "arrival \<times> fault + engine_wrapper \<Rightarrow> reply list" where
  "last_reply e = (case e of Inl ((cmd, _), Panic p) \<Rightarrow> [panic_reply cmd p] | _ \<Rightarrow> [])"

lemma run_engine_serve:
  assumes "serve (exec_arrival J) w arrivals = (rs, e)"
  shows "run_engine J on w arrivals =
    \<lparr>sr_replies = map snd rs @ last_reply e,
     sr_published = concat (map (\<lambda>((cmd, _), r). fills_of on cmd r) rs),
     sr_fatal = (last_reply e \<noteq> []),
     sr_engine = (case e of Inl _ \<Rightarrow> None | Inr w \<Rightarrow> Some w)\<rparr>"
  using assms
proof (induction J on w arrivals arbitrary: rs rule: run_engine.induct)
  case (2 J on w cmd c io arrivals)
  show ?case
  proof (cases "exec_command J cmd w c io")
    case (Inl f)
    with "2.prems" show ?thesis by (cases f) (auto simp: exec_arrival_def last_reply_def)
  next
    case (Inr x)
    obtain r w1 where x: "x = (r, w1)" by (cases x)
    obtain rs1 where rs: "rs = ((cmd, c, io), r) # rs1" "serve (exec_arrival J) w1 arrivals = (rs1, e)"
      using "2.prems" Inr x exec_arrival_def [of J w "(cmd, c, io)"] by (auto split: prod.splits)
    from "2.IH" [OF Inr x [symmetric] rs(2)] show ?thesis by (simp add: Inr x rs(1) Let_def)
  qed
qed (auto simp: last_reply_def)

section \<open>How many orders can rest\<close>

definition book_ids :: "core_engine \<Rightarrow> trading_pair \<Rightarrow> order_id set" where
  "book_ids e pair = o_id ` {y. resting e pair y}"

definition at_most :: "nat \<Rightarrow> core_engine \<Rightarrow> bool" where
  "at_most n e \<longleftrightarrow> (\<forall>pair. finite (book_ids e pair) \<and> card (book_ids e pair) \<le> n)"

lemma book_size_card:
  assumes "book_ok bk" and "hm_get (orderbooks e) pair = Some bk"
  shows "book_size bk = card (book_ids e pair)"
proof -
  have "indexed (book_orders bk) (orders_map bk)" using assms(1) by (simp add: book_ok_def)
  then have ids: "image_mset o_id (book_orders bk) = mset (map fst (orders_map bk))" and ok: "hm_ok (orders_map bk)"
    by (simp_all add: indexed_but_def)
  have "book_ids e pair = set_mset (image_mset o_id (book_orders bk))"
    using assms(2) by (auto simp: book_ids_def resting_def)
  then have "book_ids e pair = set (map fst (orders_map bk))" unfolding ids by simp
  then show ?thesis using ok unfolding book_size_def hm_ok_def by (metis distinct_card length_map)
qed

lemma at_most_small:
  assumes "engine_ok e" and "at_most n e" and "n \<le> 2 ^ 32"
  shows "books_small e"
  unfolding books_small_def
proof (intro allI impI)
  fix pair bk
  assume bk: "hm_get (orderbooks e) pair = Some bk"
  have "book_ok bk" using assms(1) bk unfolding engine_ok_def books_ok_def by blast
  from book_size_card [OF this bk] have "book_size bk \<le> n" using assms(2) by (simp add: at_most_def)
  then show "book_size bk \<le> 2 ^ 32" using assms(3) by (rule order_trans)
qed

lemma at_most_step:
  assumes "at_most n e" and "one_more e e'"
  shows "at_most (Suc n) e'"
  unfolding at_most_def
proof
  fix pair
  from assms(2) obtain q i where "\<forall>p y. resting e' p y \<longrightarrow> p = q \<and> o_id y = i \<or> (\<exists>z. resting e p z \<and> o_id z = o_id y)"
    by (auto simp: one_more_def)
  then have sub: "book_ids e' pair \<subseteq> insert i (book_ids e pair)"
    by (fastforce simp: book_ids_def image_iff)
  have fin: "finite (book_ids e pair)" and le: "card (book_ids e pair) \<le> n" using assms(1) by (simp_all add: at_most_def)
  have "card (book_ids e' pair) \<le> card (insert i (book_ids e pair))" by (rule card_mono) (use fin sub in auto)
  also have "\<dots> \<le> Suc n" using card_insert_le_m1 [of "Suc n" "book_ids e pair" i] le by simp
  finally show "finite (book_ids e' pair) \<and> card (book_ids e' pair) \<le> Suc n"
    using fin sub by (auto intro: finite_subset)
qed

section \<open>The two engines as servers\<close>

fun inner_of :: "engine_wrapper \<Rightarrow> core_engine" where
  "inner_of (CoreE e) = e"
| "inner_of (WalE v) = we_inner v"

definition log_fault :: "fault \<Rightarrow> bool" where
  "log_fault f \<longleftrightarrow> (\<exists>msg. f = Panic (WalWriteFailed msg) \<or> f = Panic (WalSerialization msg))"

lemma wal_write_fault: "wal_write J w e io = Inl f \<Longrightarrow> log_fault f"
  by (auto simp: wal_write_def compute_checksum_def log_fault_def and_then_Inl Let_def split: sum.splits)

lemma log_entry_cases:
  shows "log_entry J w ty io = Inl f \<Longrightarrow> log_fault f"
    and "log_entry J w ty io = Inr w' \<Longrightarrow> we_inner w' = we_inner w"
proof -
  let ?r = "wal_write J (we_writer w) (wal_entry_new 0 ty) io"
  have "case log_entry J w ty io of Inl f \<Rightarrow> log_fault f | Inr w' \<Rightarrow> we_inner w' = we_inner w"
  proof (cases ?r)
    case (Inl f)
    with wal_write_fault [OF Inl] show ?thesis by (simp add: log_entry_def)
  next
    case (Inr x)
    obtain r wr where x: "x = (r, wr)" by (cases x)
    with Inr show ?thesis by (cases r) (simp_all add: log_entry_def log_fault_def)
  qed
  then show "log_entry J w ty io = Inl f \<Longrightarrow> log_fault f"
    "log_entry J w ty io = Inr w' \<Longrightarrow> we_inner w' = we_inner w" by simp_all
qed

text \<open>A command on the logged engine fails while logging, or does what it does on the engine inside.\<close>

definition mirrors :: "fault + 'r \<times> engine_wrapper \<Rightarrow> fault + 'r \<times> engine_wrapper \<Rightarrow> bool" where
  "mirrors x y \<longleftrightarrow> (\<exists>f. x = Inl f \<and> log_fault f) \<or>
     (case y of Inl f \<Rightarrow> x = Inl f | Inr (r, w) \<Rightarrow> \<exists>v. x = Inr (r, WalE v) \<and> w = CoreE (we_inner v))"

lemma mirrors_log:
  assumes "\<And>v'. we_inner v' = we_inner v \<Longrightarrow> mirrors (k v') y"
  shows "mirrors (and_then (log_entry J v ty io) k) y"
proof (cases "log_entry J v ty io")
  case (Inl f)
  then show ?thesis using log_entry_cases(1) [OF Inl] by (simp add: mirrors_def)
next
  case (Inr v')
  then show ?thesis using assms [OF log_entry_cases(2) [OF Inr]] by simp
qed

lemma mirrors_same: "w = CoreE (we_inner v) \<Longrightarrow> mirrors (Inr (r, WalE v)) (Inr (r, w))" "mirrors (Inl f) (Inl f)"
  by (auto simp: mirrors_def)

lemma and_then_assoc: "and_then (and_then m k) l = and_then m (\<lambda>x. and_then (k x) l)"
  by (simp add: and_then_def split: sum.split)

lemma mirrors_and_then: "(\<And>x. mirrors (k x) (l x)) \<Longrightarrow> mirrors (and_then m k) (and_then m l)"
  by (cases m) (simp_all add: mirrors_same)

lemma exec_mirrors: "mirrors (exec_command J cmd (WalE v) c io) (exec_command J cmd (CoreE (we_inner v)) c io)"
proof (cases cmd)
  case (SubmitOrder pair ty sd p q u)
  show ?thesis
    by (auto simp: SubmitOrder wal_next_id_def wal_add_order_def and_then_assoc case_prod_unfold
        intro!: mirrors_and_then mirrors_log mirrors_same)
next
  case (ModifyOrder pair m)
  show ?thesis
    by (auto simp: ModifyOrder wal_modify_order_def and_then_assoc case_prod_unfold
        intro!: mirrors_and_then mirrors_log mirrors_same)
next
  case (CancelOrder pair i)
  show ?thesis
    by (auto simp: CancelOrder wal_cancel_order_def and_then_assoc case_prod_unfold Let_def
        intro!: mirrors_log mirrors_same)
qed (auto simp: wal_add_trading_pair_def wal_add_user_def wal_remove_user_def wal_deposit_balance_def
      wal_withdraw_balance_def wal_get_balance_def wal_get_total_balance_def wal_get_order_info_def
      and_then_assoc case_prod_unfold Let_def intro!: mirrors_log mirrors_same)

lemma exec_submit:
  "exec_command J (SubmitOrder pair ty sd p q u) (CoreE e) c io =
     and_then (core_submit e pair ty sd p q u c) (\<lambda>(r, e, c). Inr (SubmitReply (map_sum EOrder id r), CoreE e))"
  by (simp add: core_submit_def and_then_assoc case_prod_unfold sum.map_comp comp_def)

lemma at_most_one_more: "at_most n e \<Longrightarrow> (\<And>p y. resting e' p y \<Longrightarrow> resting e p y) \<Longrightarrow> at_most (Suc n) e'"
  by (rule at_most_step [OF _ one_more_shrink])

text \<open>What a command does to an engine that satisfies the invariant.\<close>

definition good_step :: "nat \<Rightarrow> nat \<Rightarrow> fault + 'r \<times> engine_wrapper \<Rightarrow> bool" where
  "good_step b n x \<longleftrightarrow> (case x of
     Inl f \<Rightarrow> log_fault f \<or> clock_fault f \<or> credit_overflow f
   | Inr (_, w) \<Rightarrow> exchange_since b (inner_of w) \<and> at_most (Suc n) (inner_of w))"

lemma exec_core_step:
  assumes e: "exchange_since b e" and few: "at_most n e" and n: "n < 2 ^ 32" and c: "clock_since b c"
  shows "good_step b n (exec_command J cmd (CoreE e) c io)"
proof -
  have eng: "engine_ok e" using e by (simp add: exchange_since_def)
  have small: "books_small e" using at_most_small [OF eng few] n by simp
  note ops = exchange_since_ops [OF e]
  have stepped: "good_step b n (Inr (r, CoreE e'))"
    if "exchange_since b e'" "\<And>p y. resting e' p y \<Longrightarrow> resting e p y" for r :: reply and e'
    using that at_most_one_more [OF few, of e'] by (simp add: good_step_def)
  have placed: "good_step b n (case out of Inl f \<Rightarrow> Inl f | Inr (r, e', c') \<Rightarrow> Inr (k r, CoreE e'))"
    if "case out of Inl f \<Rightarrow> clock_fault f \<or> credit_overflow f
        | Inr (r, e', c') \<Rightarrow> exchange_since b e' \<and> one_more e e' \<and> P r e' c'"
    for out :: "fault + 'a \<times> core_engine \<times> clock" and k :: "'a \<Rightarrow> reply" and P
    using that at_most_step [OF few] by (auto simp: good_step_def split: sum.splits)
  show ?thesis
  proof (cases cmd)
    case (SubmitOrder pair ty sd p q u)
    show ?thesis
      using placed [OF core_submit_since [OF e small c, of pair ty sd p q u], of "\<lambda>r. SubmitReply (map_sum EOrder id r)"]
      by (simp add: SubmitOrder exec_submit and_then_def del: exec_command.simps)
  next
    case (ModifyOrder pair m)
    show ?thesis
      using placed [OF core_modify_since [OF e small clock_since_ok [OF c], of pair m], of "\<lambda>r. ModifyReply (map_sum EOrder id r)"]
      by (simp add: ModifyOrder and_then_def split: sum.splits prod.splits)
  next
    case (CancelOrder pair i)
    show ?thesis using stepped [OF ops(1) [of pair i]] core_cancel_order_ok(2) [OF eng, of pair i]
      by (simp add: CancelOrder case_prod_unfold)
  next
    case (AddTradingPair pair)
    show ?thesis using stepped [OF ops(2) [of pair]] core_add_trading_pair_ok(2) [OF eng, of pair]
      by (simp add: AddTradingPair)
  next
    case (AddUser u)
    show ?thesis using stepped [OF ops(4) [of u]] core_add_user_ok(2) [OF eng, of u] by (simp add: AddUser)
  next
    case (RemoveUser u)
    show ?thesis using stepped [OF ops(5) [of u]] core_remove_user_effect(6) [OF eng, of u]
      by (simp add: RemoveUser case_prod_unfold)
  next
    case (DepositBalance u a k)
    show ?thesis using stepped [OF ops(6) [of u a k]] core_deposit_balance_ok(2) [OF eng, of u a k]
      by (simp add: DepositBalance case_prod_unfold)
  next
    case (WithdrawBalance u a k)
    show ?thesis using stepped [OF ops(7) [of u a k]] core_withdraw_balance_ok(2) [OF eng, of u a k]
      by (simp add: WithdrawBalance case_prod_unfold)
  qed (use stepped [OF e] in simp_all)
qed

lemma exec_step:
  assumes "exchange_since b (inner_of w)" and "at_most n (inner_of w)" and "n < 2 ^ 32" and "clock_since b c"
  shows "good_step b n (exec_command J cmd w c io)"
proof (cases w)
  case (CoreE e)
  with assms exec_core_step show ?thesis by simp
next
  case (WalE v)
  with assms have "good_step b n (exec_command J cmd (CoreE (we_inner v)) c io)" by (intro exec_core_step) simp_all
  with exec_mirrors [of J cmd v c io] show ?thesis
    by (auto simp: WalE mirrors_def good_step_def split: sum.splits)
qed

interpretation task: command_server "exec_arrival J" "\<lambda>n w. exchange_ok (inner_of w) \<and> at_most n (inner_of w)"
  "\<lambda>(cmd, c, io). clock_ok c" "\<lambda>f. log_fault f \<or> clock_fault f \<or> credit_overflow f" "2 ^ 32"
  for J
proof unfold_locales
  fix n w a r w'
  assume "exchange_ok (inner_of w) \<and> at_most n (inner_of w)" "n < 2 ^ 32" "case a of (cmd, c, io) \<Rightarrow> clock_ok c"
    "exec_arrival J w a = Inr (r, w')"
  then show "exchange_ok (inner_of w') \<and> at_most (Suc n) (inner_of w')"
    using exec_step [of 0 w n "fst (snd a)" J "fst a" "snd (snd a)"]
    by (auto simp: exec_arrival_def good_step_def case_prod_unfold)
next
  fix n w a f
  assume "exchange_ok (inner_of w) \<and> at_most n (inner_of w)" "n < 2 ^ 32" "case a of (cmd, c, io) \<Rightarrow> clock_ok c"
    "exec_arrival J w a = Inl f"
  then show "log_fault f \<or> clock_fault f \<or> credit_overflow f"
    using exec_step [of 0 w n "fst (snd a)" J "fst a" "snd (snd a)"]
    by (auto simp: exec_arrival_def good_step_def case_prod_unfold)
qed

section \<open>Promises of the service\<close>

text \<open>The kind of reply a command is answered with.\<close>

fun answers :: "engine_command \<Rightarrow> reply \<Rightarrow> bool" where
  "answers (SubmitOrder _ _ _ _ _ _) r \<longleftrightarrow> (case r of SubmitReply _ \<Rightarrow> True | _ \<Rightarrow> False)"
| "answers (CancelOrder _ _) r \<longleftrightarrow> (case r of CancelReply _ \<Rightarrow> True | _ \<Rightarrow> False)"
| "answers (ModifyOrder _ _) r \<longleftrightarrow> (case r of ModifyReply _ \<Rightarrow> True | _ \<Rightarrow> False)"
| "answers (GetOrderBook _) r \<longleftrightarrow> (case r of BookReply _ \<Rightarrow> True | _ \<Rightarrow> False)"
| "answers (RemoveUser _) r \<longleftrightarrow> (case r of RemoveReply _ \<Rightarrow> True | _ \<Rightarrow> False)"
| "answers (GetBalance _ _) r \<longleftrightarrow> (case r of QuantityReply _ \<Rightarrow> True | _ \<Rightarrow> False)"
| "answers (GetTotalBalance _ _) r \<longleftrightarrow> (case r of QuantityReply _ \<Rightarrow> True | _ \<Rightarrow> False)"
| "answers (AddTradingPair _) r \<longleftrightarrow> (case r of UnitReply _ \<Rightarrow> True | _ \<Rightarrow> False)"
| "answers (AddUser _) r \<longleftrightarrow> (case r of UnitReply _ \<Rightarrow> True | _ \<Rightarrow> False)"
| "answers (DepositBalance _ _ _) r \<longleftrightarrow> (case r of UnitReply _ \<Rightarrow> True | _ \<Rightarrow> False)"
| "answers (WithdrawBalance _ _ _) r \<longleftrightarrow> (case r of UnitReply _ \<Rightarrow> True | _ \<Rightarrow> False)"

lemma panic_answers [simp]: "answers cmd (panic_reply cmd p)"
  by (cases cmd) simp_all

lemma exec_answers: "exec_command J cmd w c io = Inr (r, w') \<Longrightarrow> answers cmd r"
  by (cases cmd; cases w) (auto simp: and_then_Inr split: if_splits prod.splits)

lemma serve_answers:
  "serve (exec_arrival J) w arrivals = (rs, e) \<Longrightarrow> list_all2 (\<lambda>(cmd, _) r. answers cmd r) (map fst rs) (map snd rs)"
proof (induction arrivals arbitrary: w rs)
  case (Cons a arrivals)
  obtain cmd c io where a: "a = (cmd, c, io)" by (cases a)
  show ?case
  proof (cases "exec_command J cmd w c io")
    case (Inr x)
    obtain r w' where x: "x = (r, w')" by (cases x)
    with Cons.prems Inr a obtain rs' where "rs = ((cmd, c, io), r) # rs'" "serve (exec_arrival J) w' arrivals = (rs', e)"
      by (auto simp: exec_arrival_def [of J w "(cmd, c, io)"] simp del: exec_command.simps split: prod.splits)
    with Cons.IH exec_answers [OF Inr [unfolded x]] show ?thesis by simp
  qed (use Cons.prems a in \<open>auto simp: exec_arrival_def [of J w "(cmd, c, io)"] simp del: exec_command.simps\<close>)
qed simp

text \<open>
  C7. The engine task keeps the exchange consistent. Let it start on a new engine, in memory or logged, and
  be given at most two to the 32 commands with usable clock readings. It answers them one by one, in
  order, each with a reply of the kind the command asks for. If it gets through, all of them are
  answered and the engine satisfies the exchange invariant. If a command panics, that command is told
  of the panic, the task stops, and the commands after it get no answer; the only panics are a log that
  cannot be written, a clock that gives no usable reading, and a credit that exceeds 32 bits. The third
  possibility is a command that waits for a clock reading that never comes: those before it are answered.
\<close>

theorem service_keeps_exchange:
  assumes "core_new m d = Inr (inner_of w)" and "\<forall>(cmd, c, io) \<in> set arrivals. clock_ok c"
    and "length arrivals \<le> 2 ^ 32"
  shows "let s = run_engine J on w arrivals; answered = list_all2 (\<lambda>(cmd, _) r. answers cmd r) in
    (\<forall>w'. sr_engine s = Some w' \<longrightarrow> exchange_ok (inner_of w') \<and> answered arrivals (sr_replies s)) \<and>
    (sr_fatal s \<longrightarrow> (\<exists>before cmd c io later p. arrivals = before @ (cmd, c, io) # later \<and>
       answered (before @ [(cmd, c, io)]) (sr_replies s) \<and> last (sr_replies s) = panic_reply cmd p \<and>
       (log_fault (Panic p) \<or> clock_fault (Panic p) \<or> credit_overflow (Panic p)))) \<and>
    (sr_engine s = None \<and> \<not> sr_fatal s \<longrightarrow> (\<exists>before waiting later. arrivals = before @ waiting # later \<and>
       answered before (sr_replies s)))"
proof -
  obtain rs e where run: "serve (exec_arrival J) w arrivals = (rs, e)" by fastforce
  have "\<exists>g. inner_of w = \<lparr>orderbooks = [], users = [], ids = g\<rparr>"
    using assms(1) by (auto simp: core_new_def and_then_Inr eq_commute [of _ "inner_of w"])
  then have "at_most 0 (inner_of w)" by (auto simp: at_most_def book_ids_def resting_def)
  with core_new_ok [OF assms(1)] task.serve_run [of w 0 arrivals J rs e] assms(2,3) run
  have serve: "case e of Inr w' \<Rightarrow> map fst rs = arrivals \<and> exchange_ok (inner_of w')
      | Inl (a, f) \<Rightarrow> (\<exists>later. arrivals = map fst rs @ a # later) \<and> (log_fault f \<or> clock_fault f \<or> credit_overflow f)"
    by (auto split: sum.splits)
  show ?thesis
  proof (cases e)
    case (Inr w')
    with serve have "map fst rs = arrivals" by simp
    with serve Inr serve_answers [OF run] show ?thesis
      by (simp add: run_engine_serve [OF run] last_reply_def Let_def)
  next
    case (Inl x)
    obtain cmd c io f where x: "x = ((cmd, c, io), f)" by (cases x) auto
    with Inl serve obtain later where at: "arrivals = map fst rs @ (cmd, c, io) # later"
      and f: "log_fault f \<or> clock_fault f \<or> credit_overflow f" by auto
    note answered = serve_answers [OF run]
    show ?thesis
    proof (cases f)
      case (Panic p)
      note s = run_engine_serve [OF run, of on, unfolded Inl x Panic last_reply_def, simplified]
      have "list_all2 (\<lambda>(cmd, _) r. answers cmd r) (map fst rs @ [(cmd, c, io)]) (map snd rs @ [panic_reply cmd p])"
        using answered by (intro list_all2_appendI) simp_all
      with at f Panic show ?thesis
        unfolding Let_def s
        by (intro conjI impI allI exI [of _ "map fst rs"] exI [of _ cmd] exI [of _ c] exI [of _ io] exI [of _ later]
            exI [of _ p]) simp_all
    next
      case ClockExhausted
      with at answered show ?thesis
        unfolding Let_def run_engine_serve [OF run] Inl x last_reply_def
        by (intro conjI impI exI [of _ "map fst rs"] exI [of _ "(cmd, c, io)"] exI [of _ later]) simp_all
    qed
  qed
qed

definition sample_start :: engine_wrapper where
  "sample_start = CoreE \<lparr>orderbooks = [], users = [], ids = sample_generator\<rparr>"

definition sample_arrivals :: "arrival list" where
  "sample_arrivals =
     [(AddTradingPair sample_pair, [], Written), (AddUser 1, [], Written), (DepositBalance 1 USDC 10000, [], Written),
      (SubmitOrder sample_pair GoodTillCancel Buy (Price 100) 3 1, sample_clock, Written)]"

theorem service_keeps_exchange_witness:
  "\<exists>w'. sr_engine (run_engine sample_codec True sample_start sample_arrivals) = Some w' \<and> exchange_ok (inner_of w') \<and>
     list_all2 (\<lambda>(cmd, _) r. answers cmd r) sample_arrivals
       (sr_replies (run_engine sample_codec True sample_start sample_arrivals))"
proof -
  have new: "core_new 1 1 = Inr (inner_of sample_start)" by code_simp
  have "\<forall>(cmd, c, io) \<in> set sample_arrivals. clock_ok c" by (simp add: sample_arrivals_def sample_clock_ok)
  note service = service_keeps_exchange [OF new this, of sample_codec True]
  have "case sr_engine (run_engine sample_codec True sample_start sample_arrivals) of Some w \<Rightarrow> True | None \<Rightarrow> False"
    by code_simp
  then obtain w' where "sr_engine (run_engine sample_codec True sample_start sample_arrivals) = Some w'"
    by (auto split: option.splits)
  moreover have "length sample_arrivals \<le> 2 ^ 32" by (simp add: sample_arrivals_def)
  ultimately show ?thesis using service by (intro exI [of _ w']) (simp add: Let_def)
qed

text \<open>
  C17. The logged engine answers as the engine in memory. Serving the same commands with the same clock
  readings, the two give the same replies, publish the same fills and end in the same state, or the
  logged one stops because an entry could not be logged, having given the same replies up to then.
\<close>

theorem logged_service_mirrors_core:
  "let s = run_engine J on (WalE v) arrivals; t = run_engine J on (CoreE (we_inner v)) arrivals in
   sr_replies s = sr_replies t \<and> sr_published s = sr_published t \<and> sr_fatal s = sr_fatal t \<and>
     map_option inner_of (sr_engine s) = map_option inner_of (sr_engine t) \<or>
   sr_fatal s \<and> sr_engine s = None \<and> (\<exists>before cmd p. sr_replies s = before @ [panic_reply cmd p] \<and> log_fault (Panic p) \<and>
     (\<exists>later. sr_replies t = before @ later) \<and> (\<exists>later. sr_published t = sr_published s @ later))"
proof (induction arrivals arbitrary: v)
  case (Cons a arrivals)
  obtain cmd c io where a: "a = (cmd, c, io)" by (cases a)
  from exec_mirrors [of J cmd v c io] consider
      (log) f where "exec_command J cmd (WalE v) c io = Inl f" "log_fault f"
    | (fault) f where "exec_command J cmd (WalE v) c io = Inl f" "exec_command J cmd (CoreE (we_inner v)) c io = Inl f"
    | (reply) r v' where "exec_command J cmd (WalE v) c io = Inr (r, WalE v')"
        "exec_command J cmd (CoreE (we_inner v)) c io = Inr (r, CoreE (we_inner v'))"
    by (auto simp: mirrors_def split: sum.splits)
  then show ?case
  proof cases
    case log
    then obtain p where p: "f = Panic p" by (auto simp: log_fault_def)
    with log(1) have s: "run_engine J on (WalE v) (a # arrivals) =
        \<lparr>sr_replies = [panic_reply cmd p], sr_published = [], sr_fatal = True, sr_engine = None\<rparr>" by (simp add: a)
    show ?thesis unfolding Let_def s using log(2) p by (intro disjI2) auto
  next
    case fault
    then show ?thesis by (cases f) (simp_all add: a Let_def)
  next
    case reply
    let ?s = "run_engine J on (WalE v') arrivals" and ?t = "run_engine J on (CoreE (we_inner v')) arrivals"
    from reply have "run_engine J on (WalE v) (a # arrivals) =
        ?s\<lparr>sr_replies := r # sr_replies ?s, sr_published := fills_of on cmd r @ sr_published ?s\<rparr>"
      "run_engine J on (CoreE (we_inner v)) (a # arrivals) =
        ?t\<lparr>sr_replies := r # sr_replies ?t, sr_published := fills_of on cmd r @ sr_published ?t\<rparr>"
      by (simp_all add: a Let_def)
    note both = this
    from Cons.IH [of v'] consider
        (same) "sr_replies ?s = sr_replies ?t" "sr_published ?s = sr_published ?t" "sr_fatal ?s = sr_fatal ?t"
          "map_option inner_of (sr_engine ?s) = map_option inner_of (sr_engine ?t)"
      | (stopped) before cmd' p later more where "sr_fatal ?s" "sr_engine ?s = None" "log_fault (Panic p)"
          "sr_replies ?s = before @ [panic_reply cmd' p]" "sr_replies ?t = before @ later" "sr_published ?t = sr_published ?s @ more"
      unfolding Let_def by blast
    then show ?thesis
    proof cases
      case same
      then show ?thesis by (simp add: both Let_def)
    next
      case stopped
      then show ?thesis unfolding both Let_def
        by (intro disjI2 conjI exI [of _ "r # before"] exI [of _ cmd'] exI [of _ p] exI [of _ later] exI [of _ more]) simp_all
    qed
  qed
qed simp

end
