(* ===== verification/Requests.thy ===== *)
theory Requests
  imports Handlers Service
begin

text \<open>
  What a client sees: the handler of a submission in front of the engine task, from the request to the
  response or status.
\<close>

section \<open>The task behind a handler\<close>

text \<open>The reply the task sends to a command, if it sends one.\<close>

definition task_reply :: "codec \<Rightarrow> engine_wrapper \<Rightarrow> clock \<Rightarrow> io_outcome \<Rightarrow> engine_command \<Rightarrow> reply option" where
  "task_reply J w c io cmd =
     (case exec_command J cmd w c io of
        Inl (Panic p) \<Rightarrow> Some (panic_reply cmd p) | Inl ClockExhausted \<Rightarrow> None | Inr (r, _) \<Rightarrow> Some r)"

definition submit_channel ::
  "codec \<Rightarrow> engine_wrapper \<Rightarrow> clock \<Rightarrow> io_outcome \<Rightarrow> engine_command \<Rightarrow> (order_id \<times> trade list option) answer" where
  "submit_channel J w c io cmd =
     (case task_reply J w c io cmd of Some (SubmitReply r) \<Rightarrow> Answered r | _ \<Rightarrow> Crashed)"

section \<open>Submissions\<close>

definition service_fault :: "fault \<Rightarrow> bool" where
  "service_fault f \<longleftrightarrow> log_fault f \<or> clock_fault f \<or> credit_overflow f"

text \<open>A submission that returns gives an identifier, or an error that left books and accounts alone.\<close>

definition submit_answered :: "engine_wrapper \<Rightarrow> reply \<Rightarrow> engine_wrapper \<Rightarrow> bool" where
  "submit_answered w r w' \<longleftrightarrow>
     (\<exists>i ts. r = SubmitReply (Inr (i, ts))) \<or>
     (\<exists>err. r = SubmitReply (Inl (EOrder err)) \<and>
        orderbooks (inner_of w') = orderbooks (inner_of w) \<and> users (inner_of w') = users (inner_of w))"

lemma submit_core_step:
  assumes "exchange_ok e" and "books_small e" and "clock_ok c"
  shows "case exec_command J (SubmitOrder pair ty sd p q u) (CoreE e) c io of
      Inl f \<Rightarrow> service_fault f | Inr (r, w') \<Rightarrow> submit_answered (CoreE e) r w'"
proof (cases "core_submit e pair ty sd p q u c")
  case (Inl f)
  with core_submit_ok [OF assms, of pair ty sd p q u] show ?thesis
    by (simp add: exec_submit service_fault_def del: exec_command.simps)
next
  case (Inr x)
  obtain r e' c' where x: "x = (r, e', c')" by (cases x)
  with core_submit_ok [OF assms, of pair ty sd p q u] Inr show ?thesis
    by (cases r) (simp_all add: exec_submit submit_answered_def del: exec_command.simps)
qed

lemma submit_step:
  assumes "exchange_ok (inner_of w)" and "books_small (inner_of w)" and "clock_ok c"
  shows "case exec_command J (SubmitOrder pair ty sd p q u) w c io of
      Inl f \<Rightarrow> service_fault f | Inr (r, w') \<Rightarrow> submit_answered w r w'"
proof (cases w)
  case (CoreE e)
  from submit_core_step [of e c J pair ty sd p q u io] assms show ?thesis
    unfolding CoreE inner_of.simps by (simp del: exec_command.simps)
next
  case (WalE v)
  let ?cmd = "SubmitOrder pair ty sd p q u"
  from submit_core_step [of "we_inner v" c J pair ty sd p q u io] assms WalE have
    core: "case exec_command J ?cmd (CoreE (we_inner v)) c io of
      Inl f \<Rightarrow> service_fault f | Inr (r, w') \<Rightarrow> submit_answered (CoreE (we_inner v)) r w'"
    by (simp del: exec_command.simps)
  from exec_mirrors [of J ?cmd v c io] consider
      (log) f where "exec_command J ?cmd (WalE v) c io = Inl f" "log_fault f"
    | (fault) f where "exec_command J ?cmd (WalE v) c io = Inl f" "exec_command J ?cmd (CoreE (we_inner v)) c io = Inl f"
    | (reply) r v' where "exec_command J ?cmd (WalE v) c io = Inr (r, WalE v')"
        "exec_command J ?cmd (CoreE (we_inner v)) c io = Inr (r, CoreE (we_inner v'))"
    by (auto simp: mirrors_def simp del: exec_command.simps split: sum.splits)
  then show ?thesis
    using core by cases (simp_all add: WalE service_fault_def submit_answered_def del: exec_command.simps)
qed

text \<open>
  What a request asks for, read from the engine's side: the name each asset, side and order type has on
  the wire, and the command whose every argument the request names.
\<close>

fun wire_asset :: "asset \<Rightarrow> proto_asset" where
  "wire_asset ETH = ProtoEth" | "wire_asset SOL = ProtoSol" | "wire_asset BTC = ProtoBtc"
| "wire_asset USDC = ProtoUsdc" | "wire_asset USDT = ProtoUsdt"

fun wire_side :: "side \<Rightarrow> proto_side" where
  "wire_side Buy = ProtoBuy" | "wire_side Sell = ProtoSell"

fun wire_type :: "order_type \<Rightarrow> proto_order_type" where
  "wire_type GoodTillCancel = ProtoGoodTillCancel" | "wire_type GoodForDay = ProtoGoodForDay"
| "wire_type FillAndKill = ProtoFillAndKill" | "wire_type FillOrKill = ProtoFillOrKill"

definition asks_for :: "(string \<Rightarrow> user_id option) \<Rightarrow> submit_order_request \<Rightarrow> engine_command \<Rightarrow> bool" where
  "asks_for parse_uuid req cmd \<longleftrightarrow>
     (case cmd of
        SubmitOrder pair ty sd p q u \<Rightarrow>
          so_pair req = Some \<lparr>pp_base = wire_asset (base pair), pp_quote = wire_asset (quote pair)\<rparr> \<and>
          so_order_type req = wire_type ty \<and> so_side req = wire_side sd \<and>
          so_price req = p \<and> so_quantity req = q \<and> parse_uuid (so_user_id req) = Some u
      | _ \<Rightarrow> False)"

lemma wire_inject [simp]:
  "wire_asset a = wire_asset b \<longleftrightarrow> a = b" "wire_side sd = wire_side sd' \<longleftrightarrow> sd = sd'" "wire_type ty = wire_type ty' \<longleftrightarrow> ty = ty'"
  by ((cases a; cases b; simp), (cases sd; cases sd'; simp), (cases ty; cases ty'; simp))

lemma asks_for_unique: "asks_for parse_uuid req cmd \<Longrightarrow> asks_for parse_uuid req cmd' \<Longrightarrow> cmd = cmd'"
  by (cases cmd; cases cmd'; simp add: asks_for_def)

text \<open>The trade a client reads in a response.\<close>

definition reads_leg :: "(user_id \<Rightarrow> string) \<Rightarrow> trade_info \<Rightarrow> proto_trade_info option \<Rightarrow> bool" where
  "reads_leg uuid_to_string leg p \<longleftrightarrow>
     (case p of
        None \<Rightarrow> False
      | Some l \<Rightarrow> pti_order_id l = ti_order_id leg \<and> pti_price l = ti_price leg \<and>
          pti_quantity l = ti_quantity leg \<and> pti_user_id l = uuid_to_string (ti_user leg))"

definition reads_trade :: "(user_id \<Rightarrow> string) \<Rightarrow> trade \<Rightarrow> proto_trade \<Rightarrow> bool" where
  "reads_trade uuid_to_string t p \<longleftrightarrow> pt_trade_id p = t_id t \<and> pt_timestamp p = t_timestamp t \<and>
     reads_leg uuid_to_string (t_bid t) (pt_bid_trade p) \<and> reads_leg uuid_to_string (t_ask t) (pt_ask_trade p)"

lemma proto_trades_read: "list_all2 (reads_trade uuid_to_string) (case ts of None \<Rightarrow> [] | Some ts \<Rightarrow> ts) (proto_trades uuid_to_string ts)"
  by (auto simp: proto_trades_def engine_trade_to_proto_def reads_trade_def reads_leg_def list.rel_map
      intro: list.rel_refl split: option.split)

text \<open>A request that names a pair and a user is passed on, whatever its enumeration values.\<close>

lemma conversions_total:
  "\<exists>a. proto_asset_to_engine x = Inr a" "\<exists>s. proto_side_to_engine y = Inr s"
  "\<exists>t. proto_order_type_to_engine z = Inr t"
  by ((cases x; simp), (cases y; simp), (cases z; simp))

lemma required_pair_total: "\<exists>pair. required_pair (Some p) = Inr pair"
  using conversions_total(1) [of "pp_base p"] conversions_total(1) [of "pp_quote p"]
  by (auto simp: required_pair_def proto_pair_to_engine_def)

lemma conversions_meant:
  "proto_asset_to_engine x = Inr a \<Longrightarrow> x = wire_asset a"
  "proto_side_to_engine y = Inr sd \<Longrightarrow> y = wire_side sd"
  "proto_order_type_to_engine z = Inr ty \<Longrightarrow> z = wire_type ty"
  by ((cases x; auto), (cases y; auto), (cases z; auto))

lemma required_pair_meant:
  "required_pair (Some p) = Inr pair \<Longrightarrow> p = \<lparr>pp_base = wire_asset (base pair), pp_quote = wire_asset (quote pair)\<rparr>"
  by (cases p) (auto simp: required_pair_def proto_pair_to_engine_def and_then_Inr trading_pair_new_def dest: conversions_meant)

text \<open>A request that names a pair and a user is sent as the one command it asks for.\<close>

lemma submit_request_sent:
  assumes "so_pair req = Some p" and "parse_uuid (so_user_id req) = Some user"
  obtains pair ty side where "asks_for parse_uuid req (SubmitOrder pair ty side (so_price req) (so_quantity req) user)"
    and "\<And>ask. grpc_submit_order parse_uuid uuid_to_string ask req =
    and_then (await ''engine unavailable'' ''engine task crashed''
        (ask (SubmitOrder pair ty side (so_price req) (so_quantity req) user)))
      (\<lambda>(i, trades). Inr \<lparr>sor_order_id = i, sor_trades = proto_trades uuid_to_string trades\<rparr>)"
proof -
  obtain pair side ty where conv: "required_pair (so_pair req) = Inr pair"
    "proto_side_to_engine (so_side req) = Inr side" "proto_order_type_to_engine (so_order_type req) = Inr ty"
    using conversions_total(2,3) required_pair_total [of p] assms(1) by metis
  have "asks_for parse_uuid req (SubmitOrder pair ty side (so_price req) (so_quantity req) user)"
    using conv conversions_meant(2,3) required_pair_meant assms by (auto simp: asks_for_def)
  with assms(2) conv show ?thesis by (intro that [of pair ty side]) (simp_all add: grpc_submit_order_def)
qed

text \<open>
  C18. What a client learns from submitting an order. In every reachable state, with at most two to the 32
  orders resting in each book and usable clock readings, a request is executed as the command it asks
  for: its pair, order type, side, price, quantity and user. A response carries the identifier the engine
  gave the order and the trades it made, leg by leg. A status says either that the request names no
  pair or no valid user, and then nothing was sent to the engine, since the answer does not depend on
  it; or that the engine rejected the order, with its reason, and books and accounts are untouched; or it
  is an internal error, and then the log could not be written, the clock gave no usable reading, or a
  credit exceeded 32 bits.
\<close>

theorem submit_request_outcome:
  fixes req :: submit_order_request
  assumes "exchange_reachable (inner_of w)" and "books_small (inner_of w)" and "clock_ok c"
  shows "case grpc_submit_order parse_uuid uuid_to_string (submit_channel J w c io) req of
      Inr resp \<Rightarrow> \<exists>cmd ts w'. asks_for parse_uuid req cmd \<and>
        exec_command J cmd w c io = Inr (SubmitReply (Inr (sor_order_id resp, ts)), w') \<and>
        list_all2 (reads_trade uuid_to_string) (case ts of None \<Rightarrow> [] | Some ts \<Rightarrow> ts) (sor_trades resp)
    | Inl status \<Rightarrow>
        (so_pair req = None \<and> status = (InvalidArgument, ''missing trading pair'') \<or>
         parse_uuid (so_user_id req) = None \<and> status = (InvalidArgument, ''invalid user_id'')) \<and>
        (\<forall>ask. grpc_submit_order parse_uuid uuid_to_string ask req = Inl status) \<or>
        (\<exists>cmd. asks_for parse_uuid req cmd \<and>
          ((\<exists>err w'. status = to_status (EOrder err) \<and> exec_command J cmd w c io = Inr (SubmitReply (Inl (EOrder err)), w') \<and>
             orderbooks (inner_of w') = orderbooks (inner_of w) \<and> users (inner_of w') = users (inner_of w)) \<or>
           fst status = Internal \<and> (\<exists>f. exec_command J cmd w c io = Inl f \<and> service_fault f)))"
proof (cases "so_pair req = None \<or> parse_uuid (so_user_id req) = None")
  case True
  obtain side ty where conv: "proto_side_to_engine (so_side req) = Inr side" "proto_order_type_to_engine (so_order_type req) = Inr ty"
    using conversions_total(2,3) by metis
  show ?thesis
  proof (cases "so_pair req")
    case None
    then show ?thesis by (simp add: grpc_submit_order_def required_pair_def)
  next
    case (Some p)
    with True have "parse_uuid (so_user_id req) = None" by simp
    moreover obtain pair where "required_pair (Some p) = Inr pair" using required_pair_total by blast
    ultimately show ?thesis by (simp add: grpc_submit_order_def Some conv)
  qed
next
  case False
  then obtain p user where "so_pair req = Some p" "parse_uuid (so_user_id req) = Some user" by auto
  from submit_request_sent [where parse_uuid = parse_uuid, OF this, of uuid_to_string]
  obtain pair ty side where asks: "asks_for parse_uuid req (SubmitOrder pair ty side (so_price req) (so_quantity req) user)"
    and handler: "\<And>ask. grpc_submit_order parse_uuid uuid_to_string ask req =
      and_then (await ''engine unavailable'' ''engine task crashed''
          (ask (SubmitOrder pair ty side (so_price req) (so_quantity req) user)))
        (\<lambda>(i, trades). Inr \<lparr>sor_order_id = i, sor_trades = proto_trades uuid_to_string trades\<rparr>)" by blast
  define cmd where "cmd = SubmitOrder pair ty side (so_price req) (so_quantity req) user"
  note asks = asks [folded cmd_def] and handler = handler [folded cmd_def]
  note step = submit_step [OF exchange_reachable_ok [OF assms(1)] assms(2,3),
      of J pair ty side "so_price req" "so_quantity req" user io, folded cmd_def]
  note sent = handler submit_channel_def task_reply_def await_def
  show ?thesis
  proof (cases "exec_command J cmd w c io")
    case (Inl f)
    with step have "service_fault f" by simp
    moreover have "panic_reply cmd x = SubmitReply (Inl (EPanic x))" for x by (simp add: cmd_def)
    ultimately show ?thesis using Inl asks by (cases f) (auto simp: sent)
  next
    case (Inr x)
    obtain r w' where x: "x = (r, w')" by (cases x)
    with step Inr have "submit_answered w r w'" by simp
    then consider (ok) i ts where "r = SubmitReply (Inr (i, ts))"
      | (err) err where "r = SubmitReply (Inl (EOrder err))" "orderbooks (inner_of w') = orderbooks (inner_of w)"
          "users (inner_of w') = users (inner_of w)" unfolding submit_answered_def by blast
    then show ?thesis
    proof cases
      case ok
      with Inr x have "grpc_submit_order parse_uuid uuid_to_string (submit_channel J w c io) req =
        Inr \<lparr>sor_order_id = i, sor_trades = proto_trades uuid_to_string ts\<rparr>" by (simp add: sent)
      with ok Inr x asks proto_trades_read [of uuid_to_string ts] show ?thesis by auto
    next
      case err
      with Inr x have "grpc_submit_order parse_uuid uuid_to_string (submit_channel J w c io) req = Inl (to_status (EOrder err))"
        by (simp add: sent)
      with err Inr x asks show ?thesis by auto
    qed
  qed
qed

definition sample_request :: submit_order_request where
  "sample_request = \<lparr>so_pair = Some \<lparr>pp_base = ProtoEth, pp_quote = ProtoUsdc\<rparr>, so_order_type = ProtoGoodTillCancel,
     so_side = ProtoBuy, so_price = Price 102, so_quantity = 3, so_user_id = ''1''\<rparr>"

theorem submit_request_outcome_witness:
  "\<exists>resp ts w'.
     grpc_submit_order (\<lambda>_. Some 1) (\<lambda>_. ''1'') (submit_channel sample_codec (CoreE sample_open) (drop 6 sample_clock) Written)
       sample_request = Inr resp \<and>
     exec_command sample_codec (SubmitOrder sample_pair GoodTillCancel Buy (Price 102) 3 1) (CoreE sample_open)
       (drop 6 sample_clock) Written = Inr (SubmitReply (Inr (sor_order_id resp, Some ts)), w') \<and>
     list_all2 (reads_trade (\<lambda>_. ''1'')) ts (sor_trades resp) \<and> length ts = 1"
proof -
  let ?run = "grpc_submit_order (\<lambda>_. Some 1) (\<lambda>_. ''1'')
    (submit_channel sample_codec (CoreE sample_open) (drop 6 sample_clock) Written) sample_request"
  have "case ?run of Inl _ \<Rightarrow> False | Inr resp \<Rightarrow> length (sor_trades resp) = 1" by code_simp
  then obtain resp where resp: "?run = Inr resp" "length (sor_trades resp) = 1" by (auto split: sum.splits)
  have "clock_ok (drop 6 sample_clock)" using sample_clock_ok by (auto simp: clock_ok_def dest: in_set_dropD)
  moreover have "exchange_reachable (inner_of (CoreE sample_open))" "books_small (inner_of (CoreE sample_open))"
    by (simp_all add: sample_open_reachable sample_open_small)
  ultimately obtain cmd ts w' where cmd: "asks_for (\<lambda>_. Some 1) sample_request cmd"
    and run: "exec_command sample_codec cmd (CoreE sample_open) (drop 6 sample_clock) Written =
      Inr (SubmitReply (Inr (sor_order_id resp, ts)), w')"
    and read: "list_all2 (reads_trade (\<lambda>_. ''1'')) (case ts of None \<Rightarrow> [] | Some ts \<Rightarrow> ts) (sor_trades resp)"
    using submit_request_outcome [of "CoreE sample_open" "drop 6 sample_clock", where parse_uuid = "\<lambda>_. Some 1"
        and uuid_to_string = "\<lambda>_. ''1''" and J = sample_codec and io = Written and req = sample_request]
    unfolding resp(1) sum.case by blast
  have "asks_for (\<lambda>_. Some 1) sample_request (SubmitOrder sample_pair GoodTillCancel Buy (Price 102) 3 1)" by code_simp
  from asks_for_unique [OF cmd this] have cmd': "cmd = SubmitOrder sample_pair GoodTillCancel Buy (Price 102) 3 1" .
  obtain us where "ts = Some us" using read resp(2) by (cases ts) (auto dest: list_all2_lengthD)
  with read resp run [unfolded cmd'] list_all2_lengthD [OF read] show ?thesis
    by (intro exI [of _ resp] exI [of _ us] exI [of _ w']) (simp del: exec_command.simps)
qed

end
