(* ===== verification/Publisher.thy ===== *)
theory Publisher
  imports Handlers Service "HOL-Library.Sublist"
begin

text \<open>
  The publication of fills (\<open>redis/mod.rs\<close>): the engine task hands events to a bounded channel, and a
  worker takes them from it in batches and sends each batch to Redis through a pipeline. The two run
  concurrently; a run is the sequence of their steps in the order in which they happen. What Redis does
  with a pipeline is an input: which of its commands it ran, and how many old entries each evicted.
\<close>

section \<open>The publisher\<close>

type_synonym stream_entry = "(string \<times> string) list"

text \<open>The worker: waiting for the first event of a batch, collecting the rest, sending, or gone.\<close>

datatype worker = Waiting | Collecting "fill_event list" | Sending "stream_entry list" | Exited

record publisher =
  pb_open :: bool
  pb_channel :: "fill_event list"
  pb_worker :: worker
  pb_stream :: "stream_entry list"

definition FILLS_CAPACITY :: nat where
  "FILLS_CAPACITY = 1024"

definition publisher_start :: publisher where
  "publisher_start = \<lparr>pb_open = True, pb_channel = [], pb_worker = Waiting, pb_stream = []\<rparr>"

text \<open>\<open>FillPublisher::new\<close>: without a usable REDIS_URL, or a connection, nothing is published.\<close>

definition publisher_new :: "string option \<Rightarrow> (string \<Rightarrow> bool) \<Rightarrow> (string \<Rightarrow> bool) \<Rightarrow> publisher option" where
  "publisher_new redis_url parses connects =
     (case redis_url of
        None \<Rightarrow> None
      | Some url \<Rightarrow>
          if \<not> parses url then None else if \<not> connects url then None else Some publisher_start)"

text \<open>
  \<open>sender.send(event).await\<close>: it waits while the channel is full (no step), and is dropped with a warning
  when the worker is gone.
\<close>

definition send_event :: "fill_event \<Rightarrow> publisher \<Rightarrow> publisher option" where
  "send_event event s =
     (if pb_worker s = Exited then Some s
      else if length (pb_channel s) < FILLS_CAPACITY then Some (s\<lparr>pb_channel := pb_channel s @ [event]\<rparr>)
      else None)"

definition MAX_LEN :: nat where
  "MAX_LEN = 10000"

text \<open>
  \<open>XADD vertex:fills MAXLEN ~ 10000 * fields\<close>: the entry goes to the end of the stream, and Redis may then
  evict old entries from the front, as many as it likes (\<open>excess\<close>) while no fewer than the given number
  remain; that is what \<open>AlmostExact\<close> asks for.
\<close>

definition xadd :: "nat \<Rightarrow> stream_entry \<Rightarrow> stream_entry list \<Rightarrow> stream_entry list" where
  "xadd excess entry stream =
     (let stream = stream @ [entry] in drop (min excess (length stream - MAX_LEN)) stream)"

text \<open>
  What \<open>pipeline.all()\<close> did: every command ran, with the evictions listed (none where the list ends), or
  an error was returned after the commands marked \<open>Some\<close> had run, in their order.
\<close>

datatype pipeline_outcome = Applied "nat list" | Failed "nat option list"

fun xadd_all :: "nat list \<Rightarrow> stream_entry list \<Rightarrow> stream_entry list \<Rightarrow> stream_entry list" where
  "xadd_all ks [] stream = stream"
| "xadd_all [] (entry # queued) stream = xadd_all [] queued (xadd 0 entry stream)"
| "xadd_all (k # ks) (entry # queued) stream = xadd_all ks queued (xadd k entry stream)"

fun xadd_some :: "nat option list \<Rightarrow> stream_entry list \<Rightarrow> stream_entry list \<Rightarrow> stream_entry list" where
  "xadd_some (Some k # marks) (entry # queued) stream = xadd_some marks queued (xadd k entry stream)"
| "xadd_some (None # marks) (entry # queued) stream = xadd_some marks queued stream"
| "xadd_some _ _ stream = stream"

fun applied :: "pipeline_outcome \<Rightarrow> stream_entry list \<Rightarrow> stream_entry list \<Rightarrow> stream_entry list" where
  "applied (Applied ks) queued stream = xadd_all ks queued stream"
| "applied (Failed marks) queued stream = xadd_some marks queued stream"

text \<open>One step of the worker's loop; \<open>None\<close> when it waits for an event.\<close>

definition worker_step :: "(user_id \<Rightarrow> string) \<Rightarrow> pipeline_outcome \<Rightarrow> publisher \<Rightarrow> publisher option" where
  "worker_step uuid_to_string outcome s =
     (case pb_worker s of
        Waiting \<Rightarrow>
          (case pb_channel s of
             [] \<Rightarrow> if pb_open s then None else Some (s\<lparr>pb_worker := Exited\<rparr>)
           | event # rest \<Rightarrow> Some (s\<lparr>pb_worker := Collecting [event], pb_channel := rest\<rparr>))
      | Collecting batch \<Rightarrow>
          (case pb_channel s of
             [] \<Rightarrow> (let queued = queued_fills uuid_to_string batch
                    in Some (s\<lparr>pb_worker := (if queued = [] then Waiting else Sending queued)\<rparr>))
           | event # rest \<Rightarrow> Some (s\<lparr>pb_worker := Collecting (batch @ [event]), pb_channel := rest\<rparr>))
      | Sending queued \<Rightarrow> Some (s\<lparr>pb_worker := Waiting, pb_stream := applied outcome queued (pb_stream s)\<rparr>)
      | Exited \<Rightarrow> None)"

section \<open>Runs\<close>

text \<open>The steps of the engine task and of the worker, interleaved; \<open>Close\<close> drops the sender.\<close>

datatype pub_step = Publish fill_event | Work pipeline_outcome | Close

fun pub_exec :: "(user_id \<Rightarrow> string) \<Rightarrow> pub_step \<Rightarrow> publisher \<Rightarrow> publisher option" where
  "pub_exec uuid_to_string (Publish event) s = (if pb_open s then send_event event s else None)"
| "pub_exec uuid_to_string (Work outcome) s = worker_step uuid_to_string outcome s"
| "pub_exec uuid_to_string Close s = Some (s\<lparr>pb_open := False\<rparr>)"

fun pub_run :: "(user_id \<Rightarrow> string) \<Rightarrow> pub_step list \<Rightarrow> publisher \<Rightarrow> publisher option" where
  "pub_run uuid_to_string [] s = Some s"
| "pub_run uuid_to_string (st # sts) s = Option.bind (pub_exec uuid_to_string st s) (pub_run uuid_to_string sts)"

definition published :: "pub_step list \<Rightarrow> fill_event list" where
  "published sts = concat (map (\<lambda>st. case st of Publish event \<Rightarrow> [event] | _ \<Rightarrow> []) sts)"

lemma published_simps [simp]:
  "published [] = []"
  "published (Publish event # sts) = event # published sts"
  "published (Work outcome # sts) = published sts"
  "published (Close # sts) = published sts"
  "published (sts @ sts') = published sts @ published sts'"
  by (simp_all add: published_def)

definition no_failure :: "pub_step list \<Rightarrow> bool" where
  "no_failure sts = list_all (\<lambda>st. case st of Work (Failed _) \<Rightarrow> False | _ \<Rightarrow> True) sts"

lemma no_failure_simps [simp]:
  "no_failure []"
  "no_failure (st # sts) \<longleftrightarrow> (\<forall>marks. st \<noteq> Work (Failed marks)) \<and> no_failure sts"
  by (auto simp: no_failure_def split: pub_step.splits pipeline_outcome.splits)

lemma queued_fills_simps [simp]:
  "queued_fills u [] = []"
  "queued_fills u (event # events) = map (fill_fields u (fe_pair event)) (fe_trades event) @ queued_fills u events"
  "queued_fills u (events @ events') = queued_fills u events @ queued_fills u events'"
  by (simp_all add: queued_fills_def)

text \<open>The entries on their way: in the hands of the worker, and in the channel.\<close>

definition underway :: "(user_id \<Rightarrow> string) \<Rightarrow> publisher \<Rightarrow> stream_entry list" where
  "underway u s =
     (case pb_worker s of Collecting batch \<Rightarrow> queued_fills u batch | Sending queued \<Rightarrow> queued | _ \<Rightarrow> [])
     @ queued_fills u (pb_channel s)"

text \<open>The channel never holds more than its capacity, and a worker that has gone left nothing in it.\<close>

definition pub_ok :: "publisher \<Rightarrow> bool" where
  "pub_ok s \<longleftrightarrow> length (pb_channel s) \<le> FILLS_CAPACITY \<and> (pb_worker s = Exited \<longrightarrow> pb_channel s = [] \<and> \<not> pb_open s)"

lemma pub_exec_ok:
  assumes "pub_ok s" and "pub_exec u st s = Some s'"
  shows "pub_ok s'"
  using assms
  by (cases st) (auto simp: pub_ok_def send_event_def worker_step_def Let_def
      split: if_splits worker.splits list.splits)

text \<open>What a stream keeps of the entries added to it: the last ones, and no fewer than \<open>MAX_LEN\<close> of them.\<close>

definition keeps :: "stream_entry list \<Rightarrow> stream_entry list \<Rightarrow> bool" where
  "keeps added stream \<longleftrightarrow> suffix stream added \<and> min MAX_LEN (length added) \<le> length stream"

lemma keeps_refl [simp]: "keeps added added"
  by (simp add: keeps_def)

lemma keeps_xadd:
  assumes "keeps added stream"
  shows "keeps (added @ [entry]) (xadd k entry stream)"
proof -
  have "suffix (xadd k entry stream) (stream @ [entry])" unfolding xadd_def Let_def by (rule suffix_drop)
  moreover have "suffix (stream @ [entry]) (added @ [entry])" using assms by (simp add: keeps_def)
  ultimately have "suffix (xadd k entry stream) (added @ [entry])" by (rule suffix_order.trans)
  moreover have "min MAX_LEN (Suc (length added)) \<le> length (xadd k entry stream)"
    using assms by (auto simp: keeps_def xadd_def Let_def)
  ultimately show ?thesis by (simp add: keeps_def)
qed

lemma keeps_xadd_all: "keeps added stream \<Longrightarrow> keeps (added @ queued) (xadd_all ks queued stream)"
proof (induction ks queued stream arbitrary: added rule: xadd_all.induct)
  case (2 entry queued stream)
  from "2.IH" [OF keeps_xadd [OF "2.prems"]] show ?case by simp
next
  case (3 k ks entry queued stream)
  from "3.IH" [OF keeps_xadd [OF "3.prems"]] show ?case by simp
qed simp

lemma subseq_xadd: "subseq stream added \<Longrightarrow> subseq (xadd k entry stream) (added @ [entry])"
proof -
  assume "subseq stream added"
  then have "subseq (stream @ [entry]) (added @ [entry])" by simp
  moreover have "subseq (xadd k entry stream) (stream @ [entry])"
    unfolding xadd_def Let_def by (rule suffix_imp_subseq [OF suffix_drop])
  ultimately show ?thesis by (rule subseq_order.order_trans [rotated])
qed

lemma subseq_xadd_all: "subseq stream added \<Longrightarrow> subseq (xadd_all ks queued stream) (added @ queued)"
proof (induction ks queued stream arbitrary: added rule: xadd_all.induct)
  case (2 entry queued stream)
  from "2.IH" [OF subseq_xadd [OF "2.prems"]] show ?case by simp
next
  case (3 k ks entry queued stream)
  from "3.IH" [OF subseq_xadd [OF "3.prems"]] show ?case by simp
qed simp

lemma subseq_xadd_some: "subseq stream added \<Longrightarrow> subseq (xadd_some marks queued stream) (added @ queued)"
proof (induction marks queued stream arbitrary: added rule: xadd_some.induct)
  case (1 k marks entry queued stream)
  from "1.IH" [OF subseq_xadd [OF "1.prems"]] show ?case by simp
next
  case (2 marks entry queued stream)
  have "subseq stream (added @ [entry])" using list_emb_append_mono [OF "2.prems", of "[]" "[entry]"] by simp
  from "2.IH" [OF this] show ?case by simp
qed (auto dest: list_emb_append_mono [of _ _ _ "[]"])

lemma subseq_applied: "subseq stream added \<Longrightarrow> subseq (applied outcome queued stream) (added @ queued)"
  by (cases outcome) (simp_all add: subseq_xadd_all subseq_xadd_some)

text \<open>A step moves entries towards the stream; only a failed pipeline drops some on the way.\<close>

lemma pub_exec_stream:
  assumes "pub_ok s" and "pub_exec u st s = Some s'"
  obtains
    (still) "pb_stream s' = pb_stream s" "underway u s' = underway u s @ queued_fills u (published [st])"
  | (sent) outcome queued where "st = Work outcome" "pb_stream s' = applied outcome queued (pb_stream s)"
      "underway u s = queued @ underway u s'"
proof (cases "\<exists>outcome queued. st = Work outcome \<and> pb_worker s = Sending queued")
  case True
  then obtain outcome queued where "st = Work outcome" "pb_worker s = Sending queued" by blast
  with assms(2) show ?thesis by (intro sent [of outcome queued]) (auto simp: underway_def worker_step_def)
next
  case False
  with assms show ?thesis
    by (cases st; intro still) (auto simp: underway_def pub_ok_def send_event_def worker_step_def Let_def
        split: if_splits worker.splits list.splits)
qed

section \<open>Delivery\<close>

lemma pub_run_append: "pub_run u (sts @ sts') s = Option.bind (pub_run u sts s) (pub_run u sts')"
proof (induction sts arbitrary: s)
  case (Cons st sts)
  then show ?case by (cases "pub_exec u st s") simp_all
qed simp

text \<open>What was published is what was added to the stream, in order, and what is on its way.\<close>

definition delivers :: "(user_id \<Rightarrow> string) \<Rightarrow> pub_step list \<Rightarrow> stream_entry list \<Rightarrow> publisher \<Rightarrow> bool" where
  "delivers u sts all s \<longleftrightarrow> (\<exists>added. all = added @ underway u s \<and> subseq (pb_stream s) added \<and>
     (no_failure sts \<longrightarrow> keeps added (pb_stream s)))"

lemma no_failure_append [simp]: "no_failure (sts @ sts') \<longleftrightarrow> no_failure sts \<and> no_failure sts'"
  by (simp add: no_failure_def)

lemma pub_exec_delivers:
  assumes "delivers u sts all s" and "pub_ok s" and "pub_exec u st s = Some s'"
  shows "delivers u (sts @ [st]) (all @ queued_fills u (published [st])) s'"
proof -
  from assms(1) obtain added where added: "all = added @ underway u s" "subseq (pb_stream s) added"
    and kept: "no_failure sts \<longrightarrow> keeps added (pb_stream s)" unfolding delivers_def by blast
  from assms(2,3) show ?thesis
  proof (cases rule: pub_exec_stream)
    case still
    with added kept show ?thesis unfolding delivers_def by (intro exI [of _ added]) simp
  next
    case (sent outcome queued)
    have "keeps (added @ queued) (pb_stream s')" if calm: "no_failure (sts @ [st])"
    proof -
      obtain ks where "outcome = Applied ks" using calm sent(1) by (cases outcome) simp_all
      then show ?thesis using keeps_xadd_all [of added "pb_stream s" queued ks] kept calm sent(2) by simp
    qed
    with added(1) sent subseq_applied [OF added(2), of outcome queued] show ?thesis
      unfolding delivers_def by (intro exI [of _ "added @ queued"]) simp
  qed
qed

lemma pub_run_delivers:
  assumes "pub_run u sts s = Some s'" and "pub_ok s" and "delivers u past all s"
  shows "pub_ok s' \<and> delivers u (past @ sts) (all @ queued_fills u (published sts)) s'"
  using assms
proof (induction sts arbitrary: s past all)
  case (Cons st sts)
  from Cons.prems(1) obtain s1 where one: "pub_exec u st s = Some s1" and rest: "pub_run u sts s1 = Some s'"
    by (auto split: Option.bind_splits)
  have split: "queued_fills u (published (st # sts)) = queued_fills u (published [st]) @ queued_fills u (published sts)"
    using published_simps(5) [of "[st]" sts] by (simp del: published_simps(5))
  from Cons.IH [OF rest pub_exec_ok [OF Cons.prems(2) one] pub_exec_delivers [OF Cons.prems(3,2) one]]
  show ?case unfolding split by simp
qed simp

lemma publisher_start_ok: "pub_ok publisher_start" "delivers u [] [] publisher_start"
  by (simp_all add: publisher_start_def pub_ok_def underway_def FILLS_CAPACITY_def delivers_def)

text \<open>
  A worker left alone empties its hands and the channel within \<open>k\<close> steps, whatever the pipelines of
  these steps evict.
\<close>

definition works :: "nat list list \<Rightarrow> pub_step list" where
  "works kss = map (\<lambda>ks. Work (Applied ks)) kss"

lemma works_simps [simp]:
  "works [] = []" "works (ks # kss) = Work (Applied ks) # works kss"
  "no_failure (works kss)" "published (works kss) = []"
  by (induction kss) (simp_all add: works_def no_failure_def)

definition empties_within :: "(user_id \<Rightarrow> string) \<Rightarrow> nat \<Rightarrow> publisher \<Rightarrow> bool" where
  "empties_within u k s \<longleftrightarrow> (\<forall>kss. k \<le> length kss \<longrightarrow>
     (\<exists>n \<le> k. \<exists>s'. pub_run u (works (take n kss)) s = Some s' \<and> underway u s' = []))"

lemma empties_within_mono: "empties_within u k s \<Longrightarrow> k \<le> l \<Longrightarrow> empties_within u l s"
  unfolding empties_within_def using le_trans by blast

lemma empties_within_now: "underway u s = [] \<Longrightarrow> empties_within u k s"
  unfolding empties_within_def by (intro allI impI exI [of _ 0]) simp

lemma empties_within_step:
  assumes "\<And>ks. \<exists>s'. worker_step u (Applied ks) s = Some s' \<and> empties_within u k s'"
  shows "empties_within u (Suc k) s"
  unfolding empties_within_def
proof (intro allI impI)
  fix kss :: "nat list list"
  assume "Suc k \<le> length kss"
  then obtain ks rest where kss: "kss = ks # rest" "k \<le> length rest" by (cases kss) auto
  from assms [of ks] obtain s1 where s1: "worker_step u (Applied ks) s = Some s1" "empties_within u k s1" by blast
  with kss(2) obtain n s' where "n \<le> k" "pub_run u (works (take n rest)) s1 = Some s'" "underway u s' = []"
    unfolding empties_within_def by blast
  with s1(1) show "\<exists>n \<le> Suc k. \<exists>s'. pub_run u (works (take n kss)) s = Some s' \<and> underway u s' = []"
    by (intro exI [of _ "Suc n"]) (simp add: kss(1))
qed

lemma collecting_empties: "pb_worker s = Collecting batch \<Longrightarrow> empties_within u (length (pb_channel s) + 2) s"
proof (induction "pb_channel s" arbitrary: s batch)
  case Nil
  let ?q = "queued_fills u batch"
  show ?case
  proof (cases "?q = []")
    case True
    with Nil show ?thesis by (intro empties_within_now) (simp add: underway_def)
  next
    case False
    have "empties_within u (Suc 0) (s\<lparr>pb_worker := Sending ?q\<rparr>)"
    proof (rule empties_within_step)
      fix ks
      show "\<exists>s'. worker_step u (Applied ks) (s\<lparr>pb_worker := Sending ?q\<rparr>) = Some s' \<and> empties_within u 0 s'"
        using Nil by (intro exI conjI empties_within_now) (auto simp: worker_step_def underway_def)
    qed
    then have "empties_within u (Suc (Suc 0)) s"
      using False Nil by (intro empties_within_step) (simp add: worker_step_def Let_def)
    with Nil show ?thesis by (simp add: numeral_2_eq_2)
  qed
next
  case (Cons event rest)
  let ?s = "s\<lparr>pb_worker := Collecting (batch @ [event]), pb_channel := rest\<rparr>"
  have "worker_step u (Applied ks) s = Some ?s" for ks
    using Cons.prems Cons.hyps(2) [symmetric] by (simp add: worker_step_def)
  moreover have "empties_within u (length rest + 2) ?s" using Cons.hyps(1) [of ?s "batch @ [event]"] by simp
  ultimately have "empties_within u (Suc (length rest + 2)) s" by (intro empties_within_step) simp
  with Cons.hyps(2) [symmetric] show ?case by simp
qed

lemma waiting_empties:
  assumes "pb_worker s = Waiting"
  shows "empties_within u (length (pb_channel s) + 2) s"
proof (cases "pb_channel s")
  case Nil
  with assms show ?thesis by (intro empties_within_now) (simp add: underway_def)
next
  case (Cons event rest)
  let ?s = "s\<lparr>pb_worker := Collecting [event], pb_channel := rest\<rparr>"
  have "worker_step u (Applied ks) s = Some ?s" for ks using assms Cons by (simp add: worker_step_def)
  moreover have "empties_within u (length rest + 2) ?s" using collecting_empties [of ?s] by simp
  ultimately have "empties_within u (Suc (length rest + 2)) s" by (intro empties_within_step) simp
  with Cons show ?thesis by simp
qed

lemma worker_empties:
  assumes "pub_ok s"
  shows "empties_within u (length (pb_channel s) + 3) s"
proof (cases "pb_worker s")
  case Waiting
  from waiting_empties [OF this, of u] show ?thesis by (rule empties_within_mono) simp
next
  case (Collecting batch)
  from collecting_empties [OF this, of u] show ?thesis by (rule empties_within_mono) simp
next
  case (Sending queued)
  have "\<exists>s'. worker_step u (Applied ks) s = Some s' \<and> empties_within u (length (pb_channel s) + 2) s'" for ks
    using Sending waiting_empties [of "s\<lparr>pb_worker := Waiting, pb_stream := xadd_all ks queued (pb_stream s)\<rparr>" u]
    by (simp add: worker_step_def)
  from empties_within_step [OF this] show ?thesis by (simp add: numeral_3_eq_3)
next
  case Exited
  with assms show ?thesis by (intro empties_within_now) (simp add: underway_def pub_ok_def)
qed

section \<open>What reaches Redis\<close>

text \<open>
  C15. Fills are published in order. However the engine task and the worker interleave, whatever
  pipelines fail, and whatever the stream evicts, the fills of all published events are the ones already
  sent followed by those still on their way, and the stream is the ones sent with some left out: nothing
  is duplicated, reordered or invented. As long as no pipeline fails, the stream is the end of what was
  sent, all of it or at least its last 10000 fills. The channel never holds more than 1024 events.
\<close>

theorem fills_published_in_order:
  assumes "pub_run u sts publisher_start = Some s"
  shows "(\<exists>sent. queued_fills u (published sts) = sent @ underway u s \<and> subseq (pb_stream s) sent \<and>
      (no_failure sts \<longrightarrow> suffix (pb_stream s) sent \<and> min 10000 (length sent) \<le> length (pb_stream s))) \<and>
    length (pb_channel s) \<le> 1024"
  using pub_run_delivers [OF assms publisher_start_ok]
  by (auto simp: delivers_def keeps_def pub_ok_def FILLS_CAPACITY_def MAX_LEN_def)

definition sample_event :: fill_event where
  "sample_event =
     (let leg = \<lambda>i u. trade_info_new i (Price 100) 3 u;
          t = \<lambda>i. \<lparr>t_id = i, t_timestamp = 9, t_bid = leg 1 1, t_ask = leg 2 2\<rparr>
      in \<lparr>fe_pair = ''ETH-USDC'', fe_trades = [t 5, t 6]\<rparr>)"

theorem fills_published_in_order_witness:
  "\<exists>s. pub_run (\<lambda>_. ''u'') [Publish sample_event, Work (Applied []), Work (Applied []), Work (Failed [None, Some 0])] publisher_start = Some s \<and>
     subseq (pb_stream s) (queued_fills (\<lambda>_. ''u'') [sample_event]) \<and> length (pb_stream s) = 1"
proof -
  let ?u = "\<lambda>_ :: user_id. ''u''"
  let ?sts = "[Publish sample_event, Work (Applied []), Work (Applied []), Work (Failed [None, Some 0])]"
  have "(case pub_run ?u ?sts publisher_start of None \<Rightarrow> False
    | Some s \<Rightarrow> length (pb_stream s) = 1 \<and> underway ?u s = [])" by code_simp
  then obtain s where s: "pub_run ?u ?sts publisher_start = Some s" and "length (pb_stream s) = 1" "underway ?u s = []"
    by (auto split: option.splits)
  with fills_published_in_order [OF s] show ?thesis by auto
qed

text \<open>The trades a reply tells the client, with the name of the pair of its command.\<close>

fun trades_told :: "engine_command \<Rightarrow> reply \<Rightarrow> (string \<times> trade) list" where
  "trades_told (SubmitOrder pair _ _ _ _ _) (SubmitReply (Inr (_, Some ts))) = map (Pair (pair_to_string pair)) ts"
| "trades_told (ModifyOrder pair _) (ModifyReply (Inr (Some ts))) = map (Pair (pair_to_string pair)) ts"
| "trades_told _ _ = []"

definition all_trades_told :: "arrival list \<Rightarrow> reply list \<Rightarrow> (string \<times> trade) list" where
  "all_trades_told arrivals replies = concat (map (\<lambda>((cmd, _), r). trades_told cmd r) (zip arrivals replies))"

lemma queued_fills_of: "queued_fills u (fills_of True cmd r) = map (\<lambda>(pair, t). fill_fields u pair t) (trades_told cmd r)"
  by (cases "(cmd, r)" rule: trades_told.cases) (auto simp: fills_of_def publish_fills_def comp_def
      split: engine_command.split sum.split option.split)

lemma panic_tells_nothing [simp]: "trades_told cmd (panic_reply cmd p) = []"
  by (cases cmd) simp_all

lemma service_queues_trades_told:
  "queued_fills u (sr_published (run_engine J True w arrivals)) =
     map (\<lambda>(pair, t). fill_fields u pair t) (all_trades_told arrivals (sr_replies (run_engine J True w arrivals)))"
proof (induction J "True" w arrivals rule: run_engine.induct)
  case (2 J w cmd c io rest)
  show ?case
  proof (cases "exec_command J cmd w c io")
    case (Inl f)
    then show ?thesis by (cases f) (simp_all add: all_trades_told_def)
  next
    case (Inr x)
    obtain r w1 where x: "x = (r, w1)" by (cases x)
    from "2" [OF Inr x [symmetric]] show ?thesis
      by (simp add: Inr x Let_def queued_fills_of all_trades_told_def)
  qed
qed (simp add: all_trades_told_def)

text \<open>
  C11. Trades told to clients reach the stream. While the engine task serves any commands with a connected
  publisher, let the worker take its steps in between in any order, no pipeline failing. When the task
  has handed over its last event, at most 1027 further steps of the worker, whatever they evict, leave
  in the stream one entry per trade that a reply told a client, in the order of the replies, and
  nothing else: for all of the trades if there are at most 10000, and otherwise for the last of them,
  no fewer than 10000.
\<close>

theorem every_trade_reaches_the_stream:
  assumes "pub_run u sts publisher_start = Some s" and "no_failure sts"
    and "published sts = sr_published (run_engine J True w arrivals)" and "1027 \<le> length kss"
  shows "let told = map (\<lambda>(pair, t). fill_fields u pair t) (all_trades_told arrivals (sr_replies (run_engine J True w arrivals))) in
    \<exists>n \<le> 1027. \<exists>s'. pub_run u (sts @ works (take n kss)) publisher_start = Some s' \<and>
      suffix (pb_stream s') told \<and> min 10000 (length told) \<le> length (pb_stream s') \<and>
      (length told \<le> 10000 \<longrightarrow> pb_stream s' = told)"
proof -
  note start = pub_run_delivers [OF assms(1) publisher_start_ok]
  then have ok: "pub_ok s" by blast
  then have "length (pb_channel s) + 3 \<le> 1027" by (simp add: pub_ok_def FILLS_CAPACITY_def)
  from empties_within_mono [OF worker_empties [OF ok, of u] this] assms(4) obtain n s' where n: "n \<le> 1027"
    and run: "pub_run u (works (take n kss)) s = Some s'" and idle: "underway u s' = []"
    unfolding empties_within_def by blast
  let ?told = "queued_fills u (sr_published (run_engine J True w arrivals))"
  from pub_run_delivers [OF run ok conjunct2 [OF start]] assms(2,3) idle
  have kept: "suffix (pb_stream s') ?told" "min 10000 (length ?told) \<le> length (pb_stream s')"
    by (auto simp: delivers_def keeps_def MAX_LEN_def)
  moreover have "pb_stream s' = ?told" if "length ?told \<le> 10000"
    using kept that by (auto simp: suffix_def)
  ultimately show ?thesis
    unfolding service_queues_trades_told [symmetric] Let_def using n run assms(1)
    by (intro exI [of _ n]) (simp add: pub_run_append)
qed

definition sample_service :: service_run where
  "sample_service = run_engine sample_codec True (CoreE sample_open)
     [(SubmitOrder sample_pair GoodTillCancel Buy (Price 102) 3 1, drop 6 sample_clock, Written)]"

theorem every_trade_reaches_the_stream_witness:
  "\<exists>event n s'. sr_published sample_service = [event] \<and>
     pub_run (\<lambda>_. ''u'') (Publish event # Work (Applied []) # works (take n (replicate 1027 [5]))) publisher_start = Some s' \<and>
     length (pb_stream s') = 1"
proof -
  let ?u = "\<lambda>_ :: user_id. ''u''" and ?kss = "replicate 1027 [5]"
  let ?arrivals = "[(SubmitOrder sample_pair GoodTillCancel Buy (Price 102) 3 1, drop 6 sample_clock, Written)]"
  have "length (sr_published sample_service) = 1" "length (all_trades_told ?arrivals (sr_replies sample_service)) = 1"
    by code_simp+
  then obtain event where event: "sr_published sample_service = [event]"
    and told: "length (all_trades_told ?arrivals (sr_replies sample_service)) = 1" by (auto simp: length_Suc_conv)
  obtain s where "pub_run ?u [Publish event, Work (Applied [])] publisher_start = Some s"
    by (simp add: publisher_start_def send_event_def FILLS_CAPACITY_def worker_step_def)
  from every_trade_reaches_the_stream [OF this, of sample_codec "CoreE sample_open" ?arrivals ?kss] event told
  obtain n s' where "pub_run ?u ([Publish event, Work (Applied [])] @ works (take n ?kss)) publisher_start = Some s'"
    "pb_stream s' = map (\<lambda>(pair, t). fill_fields ?u pair t) (all_trades_told ?arrivals (sr_replies sample_service))"
    by (auto simp: sample_service_def Let_def)
  with event told show ?thesis by (intro exI [of _ event] exI [of _ n] exI [of _ s']) simp
qed

end
