(* ===== verification/Replay.thy ===== *)
theory Replay
  imports Exchange
begin

text \<open>
  Running the engine again. What an operation does depends on the generator and the clock only in the
  identifiers and time stamps of its trades, and never on the time stamps of the orders: two runs
  from engines that agree up to order time stamps end in engines that agree up to order time stamps.
  Replaying a log rests on these facts.
\<close>

section \<open>Forgetting time stamps\<close>

definition map_values :: "('v \<Rightarrow> 'w) \<Rightarrow> ('k \<times> 'v) list \<Rightarrow> ('k \<times> 'w) list" where
  "map_values f m = map (apsnd f) m"

lemma map_values_simps [simp]:
  "map_values f [] = []"
  "map_values f (e # m) = (fst e, f (snd e)) # map_values f m"
  "map_values f (m @ n) = map_values f m @ map_values f n"
  by (cases e; simp add: map_values_def)+

lemma map_values_maps [simp]:
  "hm_get (map_values f m) k = map_option f (hm_get m k)"
  "hm_contains (map_values f m) k = hm_contains m k"
  "map_values f (hm_remove k m) = hm_remove k (map_values f m)"
  "map_values f (hm_insert k v m) = hm_insert k (f v) (map_values f m)"
  by (induction m) (auto simp: hm_get_def hm_contains_def hm_remove_def hm_insert_def)

lemma map_values_levels [simp]:
  "bm_get (map_values f m) k = map_option f (bm_get m k)"
  "map_values f (bm_remove k m) = bm_remove k (map_values f m)"
  "map_values f (bm_set k v m) = bm_set k (f v) (map_values f m)"
  "map_values f (bm_insert k v m) = bm_insert k (f v) (map_values f m)"
  by (induction m) (auto simp: bm_get_def bm_remove_def bm_set_def)

lemma map_values_ends:
  "bm_first (map_values f m) = map_option (apsnd f) (bm_first m)"
  "bm_last (map_values f m) = map_option (apsnd f) (bm_last m)"
  by (auto simp: bm_first_def bm_last_def map_values_def rev_map split: list.split)

definition untimed :: "order \<Rightarrow> order" where
  "untimed x = x\<lparr>o_timestamp := 0\<rparr>"

lemma untimed_fields [simp]:
  "o_id (untimed x) = o_id x" "o_type (untimed x) = o_type x" "o_side (untimed x) = o_side x"
  "o_status (untimed x) = o_status x" "o_price (untimed x) = o_price x" "o_initial (untimed x) = o_initial x"
  "o_remaining (untimed x) = o_remaining x" "o_user (untimed x) = o_user x"
  by (simp_all add: untimed_def)

lemma same_fields:
  assumes "untimed x = untimed y"
  shows "o_id x = o_id y" "o_type x = o_type y" "o_side x = o_side y" "o_status x = o_status y"
    "o_price x = o_price y" "o_initial x = o_initial y" "o_remaining x = o_remaining y" "o_user x = o_user y"
  by (metis assms untimed_fields)+

lemma untimed_fills [simp]: "untimed (snd (fills x q)) = snd (fills (untimed x) q)"
  by (simp add: fills_def untimed_def Let_def)

definition untimed_book :: "order_book \<Rightarrow> order_book" where
  "untimed_book bk =
     \<lparr>bids_map = map_values (map untimed) (bids_map bk), asks_map = map_values (map untimed) (asks_map bk),
      orders_map = map_values untimed (orders_map bk)\<rparr>"

lemma untimed_book_iff:
  "untimed_book bk = untimed_book bk' \<longleftrightarrow>
     map_values (map untimed) (bids_map bk) = map_values (map untimed) (bids_map bk') \<and>
     map_values (map untimed) (asks_map bk) = map_values (map untimed) (asks_map bk') \<and>
     map_values untimed (orders_map bk) = map_values untimed (orders_map bk')"
  by (auto simp: untimed_book_def)

text \<open>What a trade says apart from its identifier and time.\<close>

definition parties :: "trade \<Rightarrow> trade_info \<times> trade_info" where
  "parties t = (t_bid t, t_ask t)"

section \<open>A second run\<close>

text \<open>The second run ends as described, or the clock fails it.\<close>

definition agrees :: "('a \<Rightarrow> bool) \<Rightarrow> fault + 'a \<Rightarrow> bool" where
  "agrees P r \<longleftrightarrow> (case r of Inl f \<Rightarrow> clock_fault f | Inr x \<Rightarrow> P x)"

lemma agrees_Inr [simp]: "agrees P (Inr x) = P x"
  by (simp add: agrees_def)

lemma agrees_and_then: "agrees P (and_then r k) = agrees (\<lambda>x. agrees P (k x)) r"
  by (auto simp: agrees_def and_then_def split: sum.splits)

lemma agrees_mono: "agrees P r \<Longrightarrow> (\<And>x. P x \<Longrightarrow> Q x) \<Longrightarrow> agrees Q r"
  by (auto simp: agrees_def split: sum.splits)

lemma issue_trade_again: "agrees (\<lambda>(t, h, d). parties t = (b, a)) (issue_trade b a h d)"
proof (cases "issue_trade b a h d")
  case (Inl f)
  then have "stamp h d = Inl f" by (simp add: issue_trade_Inl)
  then have "draw stamp 1 h d = Inl f" by simp
  from draw_fault [OF this] Inl show ?thesis by (simp add: agrees_def)
next
  case (Inr r)
  then obtain t h' d' where r: "issue_trade b a h d = Inr (t, h', d')" by (cases r) auto
  then have "parties t = (b, a)" by (auto simp: issue_trade_Inr parties_def)
  with r show ?thesis by simp
qed

definition same_level :: "bool \<times> order_pointers \<times> order_pointers \<times> (order_id, order) hmap \<times> trade list
    \<Rightarrow> bool \<times> order_pointers \<times> order_pointers \<times> (order_id, order) hmap \<times> trade list \<times> 'g \<times> 'c \<Rightarrow> bool" where
  "same_level = (\<lambda>(f, bids, asks, om, ts) (f2, bids2, asks2, om2, us, _, _).
     f2 = f \<and> map untimed bids2 = map untimed bids \<and> map untimed asks2 = map untimed asks \<and>
     map_values untimed om2 = map_values untimed om \<and> map parties us = map parties ts)"

lemma match_front_again:
  assumes "match_front sd bp ap b bs a as om g c = Inr (bs', as', om', t, g', c')"
    and "untimed b2 = untimed b" and "untimed a2 = untimed a"
    and "map untimed bs2 = map untimed bs" and "map untimed as2 = map untimed as"
    and "map_values untimed om2 = map_values untimed om"
  shows "agrees (\<lambda>(bs2', as2', om2', u, _, _). map untimed bs2' = map untimed bs' \<and> map untimed as2' = map untimed as' \<and>
      map_values untimed om2' = map_values untimed om' \<and> parties u = parties t)
    (match_front sd bp ap b2 bs2 a2 as2 om2 h d)"
proof -
  let ?q = "min (o_remaining b) (o_remaining a)"
  note same = same_fields [OF assms(2)] same_fields [OF assms(3)]
  have fill: "untimed (snd (fills b2 ?q)) = untimed (snd (fills b ?q))" "untimed (snd (fills a2 ?q)) = untimed (snd (fills a ?q))"
    using assms(2,3) by simp_all
  note filled = same_fields [OF fill(1)] same_fields [OF fill(2)]
  obtain x where t: "parties t = (trade_info_new (o_id b) x ?q (o_user b), trade_info_new (o_id a) x ?q (o_user a))"
    and x: "x = (case sd of Buy \<Rightarrow> ap | Sell \<Rightarrow> bp)"
    using match_front_Inr(4) [OF assms(1)] by (auto simp: issue_trade_Inr parties_def)
  show ?thesis
    unfolding match_front_Inr(1-3) [OF assms(1)] match_front_def Let_def same agrees_and_then t
    using fill assms(4-6) filled
    by (auto simp: agrees_and_then is_filled_def retire_def x simp del: untimed_fills split: prod.splits
        intro!: agrees_mono [OF issue_trade_again])
qed

lemma match_level_again:
  assumes "match_level sd bp ap nb na opp same bids asks om ts g c = Inr (f, bids', asks', om', ts', g', c')"
    and "map untimed bids2 = map untimed bids" and "map untimed asks2 = map untimed asks"
    and "map_values untimed om2 = map_values untimed om" and "map parties us = map parties ts"
  shows "agrees (same_level (f, bids', asks', om', ts')) (match_level sd bp ap nb na opp same bids2 asks2 om2 us h d)"
  using assms
proof (induction opp same bids asks om ts g c arbitrary: bids2 asks2 om2 us h d
    rule: match_level_induct [where sd = sd and nb = nb and na = na and bp = bp and ap = ap])
  case (Empty opp same bids asks om ts g c)
  then show ?case by (auto simp: same_level_def)
next
  case (SkipBoth opp same b bs a as om ts g c)
  then obtain b2 bs2 a2 as2 where two: "bids2 = b2 # bs2" "asks2 = a2 # as2" "untimed b2 = untimed b" "untimed a2 = untimed a"
    "map untimed bs2 = map untimed bs" "map untimed as2 = map untimed as" by (auto simp: map_eq_Cons_conv)
  then have "o_user b2 = o_user a2" using SkipBoth.hyps(1) by (metis untimed_fields(8))
  with SkipBoth two show ?case by (simp add: match_level_self)
next
  case (AllSelf opp same b bs a as om ts g c)
  then obtain b2 bs2 a2 as2 where two: "bids2 = b2 # bs2" "asks2 = a2 # as2" "untimed b2 = untimed b" "untimed a2 = untimed a"
    "map untimed bs2 = map untimed bs" "map untimed as2 = map untimed as" by (auto simp: map_eq_Cons_conv)
  then have "o_user b2 = o_user a2" using AllSelf.hyps(1) by (metis untimed_fields(8))
  with AllSelf two show ?case
    by (cases sd) (auto simp: match_level_self same_level_def rot_bids_def rot_asks_def)
next
  case (SkipOpposite opp same b bs a as om ts g c)
  then obtain b2 bs2 a2 as2 where two: "bids2 = b2 # bs2" "asks2 = a2 # as2" "untimed b2 = untimed b" "untimed a2 = untimed a"
    "map untimed bs2 = map untimed bs" "map untimed as2 = map untimed as" by (auto simp: map_eq_Cons_conv)
  then have "o_user b2 = o_user a2" using SkipOpposite.hyps(1) by (metis untimed_fields(8))
  moreover have "map untimed (rot_bids sd bids2) = map untimed (rot_bids sd (b # bs))"
    "map untimed (rot_asks sd asks2) = map untimed (rot_asks sd (a # as))"
    using two by (cases sd; simp add: rot_bids_def rot_asks_def)+
  moreover have "match_level sd bp ap nb na (Suc opp) same (rot_bids sd (b # bs)) (rot_asks sd (a # as)) om ts g c =
      Inr (f, bids', asks', om', ts', g', c')"
    using SkipOpposite.prems(1) SkipOpposite.hyps by (simp add: match_level_self)
  ultimately show ?case using SkipOpposite.IH SkipOpposite.prems(4,5) SkipOpposite.hyps(2) two(1,2)
    by (simp add: match_level_self)
next
  case (Fault opp same b bs a as om ts g c e)
  then show ?case by (simp add: match_level_other)
next
  case (Fill opp same b bs a as om ts g c bs1 as1 om1 t g1 c1)
  then obtain b2 bs2 a2 as2 where two: "bids2 = b2 # bs2" "asks2 = a2 # as2" "untimed b2 = untimed b" "untimed a2 = untimed a"
    "map untimed bs2 = map untimed bs" "map untimed as2 = map untimed as" by (auto simp: map_eq_Cons_conv)
  then have other: "o_user b2 \<noteq> o_user a2" using Fill.hyps(1) by (metis untimed_fields(8))
  have run: "match_level sd bp ap nb na opp same bs1 as1 om1 (ts @ [t]) g1 c1 = Inr (f, bids', asks', om', ts', g', c')"
    using Fill.prems(1) Fill.hyps by (simp add: match_level_other)
  from match_front_again [OF Fill.hyps(2) two(3-6) Fill.prems(4), of h d] show ?case
    unfolding two(1,2) match_level_other [OF other] agrees_and_then
  proof (rule agrees_mono, clarify)
    fix bs3 as3 om3 u h3 d3
    assume "map untimed bs3 = map untimed bs1" "map untimed as3 = map untimed as1"
      "map_values untimed om3 = map_values untimed om1" "parties u = parties t"
    with Fill.IH [OF run] Fill.prems(5) show "agrees (same_level (f, bids', asks', om', ts'))
        (match_level sd bp ap nb na opp same bs3 as3 om3 (us @ [u]) h3 d3)" by simp
  qed
qed

text \<open>Set-aside levels and books after a level.\<close>

lemma untimed_after_level:
  assumes "after_level sd bp ap bk sl f bids asks om = (bk', sl')"
    and "untimed_book bk2 = untimed_book bk" and "map_values (map untimed) sl2 = map_values (map untimed) sl"
    and "map untimed bids2 = map untimed bids" and "map untimed asks2 = map untimed asks"
    and "map_values untimed om2 = map_values untimed om"
    and "after_level sd bp ap bk2 sl2 f bids2 asks2 om2 = (bk2', sl2')"
  shows "untimed_book bk2' = untimed_book bk' \<and> map_values (map untimed) sl2' = map_values (map untimed) sl'"
proof -
  have "bids2 = [] \<longleftrightarrow> bids = []" "asks2 = [] \<longleftrightarrow> asks = []" using assms(4,5) by (metis map_is_Nil_conv)+
  with assms show ?thesis
    by (auto simp: after_level_def untimed_book_iff Let_def split: if_splits side.splits)
qed

definition same_loop where
  "same_loop = (\<lambda>(bk, sl, ts) (bk2, sl2, us, _, _). untimed_book bk2 = untimed_book bk \<and>
     map_values (map untimed) sl2 = map_values (map untimed) sl \<and> map parties us = map parties ts)"

lemma best_again:
  assumes "untimed_book bk2 = untimed_book bk"
  shows "bm_last (bids_map bk) = Some (p, xs) \<Longrightarrow> \<exists>ys. bm_last (bids_map bk2) = Some (p, ys) \<and> map untimed ys = map untimed xs"
    and "bm_first (asks_map bk) = Some (p, xs) \<Longrightarrow> \<exists>ys. bm_first (asks_map bk2) = Some (p, ys) \<and> map untimed ys = map untimed xs"
proof -
  have "map_option (apsnd (map untimed)) (bm_last (bids_map bk2)) = map_option (apsnd (map untimed)) (bm_last (bids_map bk))"
    "map_option (apsnd (map untimed)) (bm_first (asks_map bk2)) = map_option (apsnd (map untimed)) (bm_first (asks_map bk))"
    using assms by (simp_all add: untimed_book_iff flip: map_values_ends)
  then show "bm_last (bids_map bk) = Some (p, xs) \<Longrightarrow> \<exists>ys. bm_last (bids_map bk2) = Some (p, ys) \<and> map untimed ys = map untimed xs"
    "bm_first (asks_map bk) = Some (p, xs) \<Longrightarrow> \<exists>ys. bm_first (asks_map bk2) = Some (p, ys) \<and> map untimed ys = map untimed xs"
    by auto
qed

lemma matching_stops_again:
  assumes "untimed_book bk2 = untimed_book bk"
  shows "matching_stops bk2 = matching_stops bk"
proof -
  have stops: "matching_stops b = (case (map_option (apsnd (map untimed)) (bm_last (bids_map b)), map_option (apsnd (map untimed)) (bm_first (asks_map b))) of
      (Some (bp, _), Some (ap, _)) \<Rightarrow> bp < ap | _ \<Rightarrow> True)" for b
    by (auto simp: matching_stops_def split: option.split)
  show ?thesis using assms by (simp add: stops untimed_book_iff flip: map_values_ends)
qed

lemma match_loop_again:
  assumes "match_loop sd bk sl ts g c = Inr (bk', sl', ts', g', c')"
    and "untimed_book bk2 = untimed_book bk" and "map_values (map untimed) sl2 = map_values (map untimed) sl"
    and "map parties us = map parties ts"
  shows "agrees (same_loop (bk', sl', ts')) (match_loop sd bk2 sl2 us h d)"
  using assms
proof (induction bk sl ts g c arbitrary: bk2 sl2 us h d rule: match_loop_induct [where sd = sd])
  case (Stop bk sl ts g c)
  then have "matching_stops bk2" using matching_stops_again by blast
  moreover have "bk' = bk" "sl' = sl" "ts' = ts" using Stop.prems(1) Stop.hyps by (simp_all add: match_loop_stop)
  ultimately show ?case using Stop.prems(2-4) by (simp only: match_loop_stop agrees_Inr) (simp add: same_loop_def)
next
  case (Fault bk sl ts g c bp bids ap asks e)
  then show ?case by simp
next
  case (Level bk sl ts g c bp bids ap asks f bids1 asks1 om1 ts1 g1 c1 bk1 sl1)
  obtain bids2 asks2 where best: "bm_last (bids_map bk2) = Some (bp, bids2)" "bm_first (asks_map bk2) = Some (ap, asks2)"
    and same: "map untimed bids2 = map untimed bids" "map untimed asks2 = map untimed asks"
    using best_again [OF Level.prems(2)] Level.hyps(1,2) by blast
  have len: "length bids2 = length bids" "length asks2 = length asks" using same by (metis length_map)+
  have om: "map_values untimed (orders_map bk2) = map_values untimed (orders_map bk)"
    using Level.prems(2) by (simp add: untimed_book_iff)
  have run: "match_loop sd bk1 sl1 ts1 g1 c1 = Inr (bk', sl', ts', g', c')" using Level.hyps(6) Level.prems(1) by simp
  from match_level_again [OF Level.hyps(4) same om Level.prems(4), of h d] show ?case
    unfolding match_loop_level [OF best Level.hyps(3)] agrees_and_then len
  proof (rule agrees_mono, unfold same_level_def, clarify)
    fix bids3 asks3 om3 us3 h3 d3
    assume three: "map untimed bids3 = map untimed bids1" "map untimed asks3 = map untimed asks1"
      "map_values untimed om3 = map_values untimed om1" "map parties us3 = map parties ts1"
    obtain bk3 sl3 where after: "after_level sd bp ap bk2 sl2 f bids3 asks3 om3 = (bk3, sl3)" by fastforce
    from untimed_after_level [OF Level.hyps(5) Level.prems(2,3) three(1-3) after]
    show "agrees (same_loop (bk', sl', ts')) (let (bk, sl) = after_level sd bp ap bk2 sl2 f bids3 asks3 om3 in match_loop sd bk sl us3 h3 d3)"
      using Level.IH [OF run _ _ three(4)] by (simp add: after)
  qed
qed

lemma untimed_reinsert:
  assumes "untimed_book bk2 = untimed_book bk" and "map_values (map untimed) sl2 = map_values (map untimed) sl"
  shows "untimed_book (reinsert_levels sd sl2 bk2) = untimed_book (reinsert_levels sd sl bk)"
  using assms
proof (induction sl arbitrary: sl2 bk bk2)
  case (Cons e sl)
  have one: "reinsert_levels sd (e # sl) bk = reinsert_levels sd sl (reinsert_levels sd [e] bk)" for e sl bk
    by (simp add: reinsert_levels_def)
  from Cons.prems(2) obtain e2 sl3 where e2: "sl2 = e2 # sl3" "fst e2 = fst e" "map untimed (snd e2) = map untimed (snd e)"
    and rest: "map_values (map untimed) sl3 = map_values (map untimed) sl" by (cases sl2) auto
  have "untimed_book (reinsert_levels sd [e2] bk2) = untimed_book (reinsert_levels sd [e] bk)"
    using Cons.prems(1) e2(2,3)
    by (cases sd) (simp_all add: reinsert_levels_def untimed_book_iff prod.case_eq_if)
  from Cons.IH [OF this rest] show ?case unfolding e2(1) one [of e2 sl3 bk2] one [of e sl bk] .
qed (auto simp: map_values_def reinsert_levels_def)

lemma match_order_again:
  assumes "match_order bk sd g c = Inr (ts, bk', g', c')" and "untimed_book bk2 = untimed_book bk"
  shows "agrees (\<lambda>(us, bk2', _, _). map parties us = map parties ts \<and> untimed_book bk2' = untimed_book bk')
    (match_order bk2 sd h d)"
proof -
  obtain bk1 sl1 where run: "match_loop sd bk [] [] g c = Inr (bk1, sl1, ts, g', c')"
    and bk': "bk' = reinsert_levels sd sl1 bk1"
    using assms(1) by (auto simp: match_order_def and_then_Inr)
  from match_loop_again [OF run assms(2) refl refl, of h d] show ?thesis
    unfolding match_order_def agrees_and_then bk'
    by (rule agrees_mono) (auto simp: same_loop_def intro: untimed_reinsert)
qed

section \<open>Orders that never rest\<close>

lemma fill_front_again:
  assumes "fill_front x r y ys om g c = Inr (r', ys', om', t, g', c')"
    and "untimed x2 = untimed x" and "untimed y2 = untimed y" and "map untimed ys2 = map untimed ys"
    and "map_values untimed om2 = map_values untimed om"
  shows "agrees (\<lambda>(r2, ys2', om2', u, _, _). r2 = r' \<and> map untimed ys2' = map untimed ys' \<and>
      map_values untimed om2' = map_values untimed om' \<and> parties u = parties t)
    (fill_front x2 r y2 ys2 om2 h d)"
proof -
  let ?q = "min r (o_remaining y)"
  let ?own = "trade_info_new (o_id x) (o_price y) ?q (o_user x)" and ?other = "trade_info_new (o_id y) (o_price y) ?q (o_user y)"
  note same = same_fields [OF assms(2)] same_fields [OF assms(3)] and parts = fill_front_Inr [OF assms(1)]
  have fill: "untimed (snd (fills y2 ?q)) = untimed (snd (fills y ?q))" using assms(3) by simp
  note filled = same_fields [OF fill]
  have t: "parties t = (case o_side x of Buy \<Rightarrow> (?own, ?other) | Sell \<Rightarrow> (?other, ?own))"
    by (cases "o_side x") (simp_all add: parties_def parts(4,5))
  show ?thesis
    unfolding parts(1-3) t fill_front_def Let_def same agrees_and_then
    using fill assms(4,5) filled
    by (auto simp: agrees_and_then is_filled_def retire_def simp del: untimed_fills split: prod.splits side.splits
        intro!: agrees_mono [OF issue_trade_again])
qed

definition same_fill where
  "same_fill = (\<lambda>(f, r, ys, om, ts) (f2, r2, ys2, om2, us, _, _). f2 = f \<and> r2 = r \<and>
     map untimed ys2 = map untimed ys \<and> map_values untimed om2 = map_values untimed om \<and> map parties us = map parties ts)"

lemma fill_level_again:
  assumes "fill_level x n skipped r ys om ts g c = Inr (f, r', ys', om', ts', g', c')"
    and x2: "untimed x2 = untimed x" and "map untimed ys2 = map untimed ys"
    and "map_values untimed om2 = map_values untimed om" and "map parties us = map parties ts"
  shows "agrees (same_fill (f, r', ys', om', ts')) (fill_level x2 n skipped r ys2 om2 us h d)"
  using assms(1,3-5)
proof (induction skipped r ys om ts g c arbitrary: ys2 om2 us h d rule: fill_level_induct [where x = x and n = n])
  case (Done skipped r ys om ts g c)
  then show ?case by (auto simp: same_fill_def)
next
  case (AllSelf skipped r y ys om ts g c)
  then obtain y2 ys3 where two: "ys2 = y2 # ys3" "untimed y2 = untimed y" "map untimed ys3 = map untimed ys"
    by (auto simp: map_eq_Cons_conv)
  then have "o_user y2 = o_user x2" using AllSelf.hyps(2) x2 by (metis untimed_fields(8))
  with AllSelf two show ?case by (auto simp: fill_level_self same_fill_def)
next
  case (Skip skipped r y ys om ts g c)
  then obtain y2 ys3 where two: "ys2 = y2 # ys3" "untimed y2 = untimed y" "map untimed ys3 = map untimed ys"
    by (auto simp: map_eq_Cons_conv)
  then have "o_user y2 = o_user x2" using Skip.hyps(2) x2 by (metis untimed_fields(8))
  with Skip two show ?case by (simp add: fill_level_self)
next
  case (Fault skipped r y ys om ts g c e)
  then show ?case by (simp add: fill_level_other)
next
  case (Fill skipped r y ys om ts g c r1 ys1 om1 t g1 c1)
  then obtain y2 ys3 where two: "ys2 = y2 # ys3" "untimed y2 = untimed y" "map untimed ys3 = map untimed ys"
    by (auto simp: map_eq_Cons_conv)
  then have other: "o_user y2 \<noteq> o_user x2" using Fill.hyps(2) x2 by (metis untimed_fields(8))
  have run: "fill_level x n skipped r1 ys1 om1 (ts @ [t]) g1 c1 = Inr (f, r', ys', om', ts', g', c')"
    using Fill.prems(1) Fill.hyps by (simp add: fill_level_other)
  from fill_front_again [OF Fill.hyps(3) x2 two(2,3) Fill.prems(3), of h d] show ?case
    unfolding two(1) fill_level_other [OF Fill.hyps(1) other] agrees_and_then
  proof (rule agrees_mono, clarify)
    fix ys4 om4 u h4 d4
    assume "map untimed ys4 = map untimed ys1" "map_values untimed om4 = map_values untimed om1" "parties u = parties t"
    with Fill.IH [OF run] Fill.prems(4) show "agrees (same_fill (f, r', ys', om', ts'))
        (fill_level x2 n skipped r1 ys4 om4 (us @ [u]) h4 d4)" by simp
  qed
qed

lemma best_opposite_again:
  assumes "untimed_book bk2 = untimed_book bk" and "best_opposite sd bk = Some (p, xs)"
  shows "\<exists>ys. best_opposite sd bk2 = Some (p, ys) \<and> map untimed ys = map untimed xs"
  using best_again [OF assms(1)] assms(2) by (cases sd) (simp_all add: best_opposite_def)

lemma fill_stops_again:
  assumes "untimed_book bk2 = untimed_book bk" and "untimed x2 = untimed x" and "fill_stops x r bk"
  shows "fill_stops x2 r bk2"
proof -
  note same = same_fields [OF assms(2)]
  show ?thesis
  proof (cases "best_opposite (o_side x) bk2")
    case (Some e)
    obtain p ys where e: "e = (p, ys)" by (cases e)
    from best_opposite_again [OF assms(1) [symmetric] Some [unfolded e]] obtain xs where
      "best_opposite (o_side x) bk = Some (p, xs)" by blast
    with Some e assms(3) show ?thesis by (auto simp: fill_stops_def same)
  qed (simp add: fill_stops_def same)
qed

lemma untimed_after_fill:
  assumes "after_fill sd p bk sl f ys om = (bk', sl')"
    and "untimed_book bk2 = untimed_book bk" and "map_values (map untimed) sl2 = map_values (map untimed) sl"
    and "map untimed ys2 = map untimed ys" and "map_values untimed om2 = map_values untimed om"
    and "after_fill sd p bk2 sl2 f ys2 om2 = (bk2', sl2')"
  shows "untimed_book bk2' = untimed_book bk' \<and> map_values (map untimed) sl2' = map_values (map untimed) sl'"
proof -
  have "ys2 = [] \<longleftrightarrow> ys = []" using assms(4) by (metis map_is_Nil_conv)
  with assms show ?thesis
    by (cases sd) (auto simp: after_fill_def with_opposite_def untimed_book_iff Let_def split: if_splits)
qed

definition same_fill_loop where
  "same_fill_loop = (\<lambda>(r, bk, sl, ts) (r2, bk2, sl2, us, _, _). r2 = r \<and> untimed_book bk2 = untimed_book bk \<and>
     map_values (map untimed) sl2 = map_values (map untimed) sl \<and> map parties us = map parties ts)"

lemma fill_loop_again:
  assumes "fill_loop x r bk sl ts g c = Inr (r', bk', sl', ts', g', c')" and x2: "untimed x2 = untimed x"
    and "untimed_book bk2 = untimed_book bk" and "map_values (map untimed) sl2 = map_values (map untimed) sl"
    and "map parties us = map parties ts"
  shows "agrees (same_fill_loop (r', bk', sl', ts')) (fill_loop x2 r bk2 sl2 us h d)"
  using assms(1,3-5)
proof (induction r bk sl ts g c arbitrary: bk2 sl2 us h d rule: fill_loop_induct [where x = x])
  case (Stop r bk sl ts g c)
  then have "fill_stops x2 r bk2" using fill_stops_again [OF _ x2] by blast
  moreover have "r' = r" "bk' = bk" "sl' = sl" "ts' = ts" using Stop.prems(1) Stop.hyps by (simp_all add: fill_loop_stop)
  ultimately show ?case using Stop.prems(2-4) by (simp only: fill_loop_stop agrees_Inr) (simp add: same_fill_loop_def)
next
  case (Fault r bk sl ts g c p ys e)
  then show ?case by simp
next
  case (Level r bk sl ts g c p ys f r1 ys1 om1 ts1 g1 c1 bk1 sl1)
  note side = same_fields(3,5) [OF x2]
  obtain ys2 where best: "best_opposite (o_side x) bk2 = Some (p, ys2)" and same: "map untimed ys2 = map untimed ys"
    using best_opposite_again [OF Level.prems(2) Level.hyps(2)] by blast
  have len: "length ys2 = length ys" using same by (metis length_map)
  have om: "map_values untimed (orders_map bk2) = map_values untimed (orders_map bk)"
    using Level.prems(2) by (simp add: untimed_book_iff)
  have run: "fill_loop x r1 bk1 sl1 ts1 g1 c1 = Inr (r', bk', sl', ts', g', c')" using Level.hyps(6) Level.prems(1) by simp
  note unfold = fill_loop_level [of r x2 bk2 p ys2, unfolded side, OF Level.hyps(1) best Level.hyps(3)]
  from fill_level_again [OF Level.hyps(4) x2 same om Level.prems(4), of h d] show ?case
    unfolding unfold agrees_and_then len
  proof (rule agrees_mono, unfold same_fill_def, clarify)
    fix ys3 om3 us3 h3 d3
    assume three: "map untimed ys3 = map untimed ys1" "map_values untimed om3 = map_values untimed om1"
      "map parties us3 = map parties ts1"
    obtain bk3 sl3 where after: "after_fill (o_side x) p bk2 sl2 f ys3 om3 = (bk3, sl3)" by fastforce
    from untimed_after_fill [OF Level.hyps(5) Level.prems(2,3) three(1,2) after]
    show "agrees (same_fill_loop (r', bk', sl', ts'))
        (let (bk, sl) = after_fill (o_side x) p bk2 sl2 f ys3 om3 in fill_loop x2 r1 bk sl us3 h3 d3)"
      using Level.IH [OF run _ _ three(3)] by (simp add: after)
  qed
qed

section \<open>Placing and cancelling\<close>

lemma rev_map_values [simp]: "rev (map_values f m) = map_values f (rev m)"
  by (simp add: map_values_def rev_map)

lemma fold_untimed:
  "fold (\<lambda>y n. if o_user y \<noteq> u then n + as_u64 (o_remaining y) else n) (map untimed ys) n =
   fold (\<lambda>y n. if o_user y \<noteq> u then n + as_u64 (o_remaining y) else n) ys n"
  by (induction ys arbitrary: n) simp_all

lemma liquidity_untimed: "liquidity sd p u (map_values (map untimed) m) n = liquidity sd p u m n"
  by (induction sd p u m n rule: liquidity.induct) (simp_all add: fold_untimed)

lemma available_liquidity_again:
  assumes "untimed_book bk2 = untimed_book bk" and "untimed x2 = untimed x"
  shows "available_liquidity x2 bk2 = available_liquidity x bk"
proof -
  have "available_liquidity x2 bk2 = liquidity (o_side x) (o_price x) (o_user x)
      (case o_side x of Buy \<Rightarrow> map_values (map untimed) (asks_map bk2) | Sell \<Rightarrow> rev (map_values (map untimed) (bids_map bk2))) 0"
    by (cases "o_side x") (simp_all add: available_liquidity_def liquidity_untimed same_fields [OF assms(2)])
  also have "\<dots> = available_liquidity x bk"
    using assms(1) by (cases "o_side x") (simp_all add: available_liquidity_def liquidity_untimed untimed_book_iff)
  finally show ?thesis .
qed

lemma can_match_again:
  assumes "untimed_book bk2 = untimed_book bk"
  shows "can_match bk2 sd p = can_match bk sd p"
proof -
  have can: "can_match b sd p = (case sd of
      Buy \<Rightarrow> (case map_option (apsnd (map untimed)) (bm_first (asks_map b)) of Some (q, _) \<Rightarrow> q \<le> p | None \<Rightarrow> False)
    | Sell \<Rightarrow> (case map_option (apsnd (map untimed)) (bm_last (bids_map b)) of Some (q, _) \<Rightarrow> p \<le> q | None \<Rightarrow> False))" for b
    by (auto simp: can_match_def split: option.split side.split)
  show ?thesis unfolding can using assms by (cases sd) (simp_all add: untimed_book_iff flip: map_values_ends)
qed

text \<open>The answer of a placement up to identifiers and times.\<close>

definition same_answer where
  "same_answer = (\<lambda>(r, bk) (r2, bk2, _, _). map_option (map parties) r2 = map_option (map parties) r \<and>
     untimed_book bk2 = untimed_book bk)"

lemma match_against_opposite_again:
  assumes "match_against_opposite bk x full g c = Inr (r, bk', g', c')"
    and "untimed_book bk2 = untimed_book bk" and "untimed x2 = untimed x"
  shows "agrees (same_answer (r, bk')) (match_against_opposite bk2 x2 full h d)"
proof (cases "full \<and> available_liquidity x bk < as_u64 (o_remaining x)")
  case True
  with assms show ?thesis
    by (simp add: match_against_opposite_def available_liquidity_again [OF assms(2,3)] same_fields [OF assms(3)] same_answer_def)
next
  case False
  then obtain rem bk1 sl ts where run: "fill_loop x (o_remaining x) bk [] [] g c = Inr (rem, bk1, sl, ts, g', c')"
    and r: "r = Some ts" "bk' = reinsert_levels (o_side x) sl bk1" "\<not> (full \<and> 0 < rem)"
  proof -
    have "\<exists>rem bk1 sl ts g1 c1. fill_loop x (o_remaining x) bk [] [] g c = Inr (rem, bk1, sl, ts, g1, c1) \<and>
        (if full \<and> 0 < rem then Inl (Panic (FokSafetyNet (o_id x) rem))
         else Inr (Some ts, reinsert_levels (o_side x) sl bk1, g1, c1)) = Inr (r, bk', g', c')"
      using assms(1) False by (auto simp: match_against_opposite_def and_then_Inr Let_def)
    then show thesis by (auto intro: that split: if_splits)
  qed
  from fill_loop_again [OF run assms(3,2) refl refl, of h d] show ?thesis
    unfolding match_against_opposite_def same_fields [OF assms(3)] available_liquidity_again [OF assms(2,3)]
      if_not_P [OF False] agrees_and_then
  proof (rule agrees_mono, unfold same_fill_loop_def, clarify)
    fix bk3 sl3 us h3 d3
    assume "untimed_book bk3 = untimed_book bk1" "map_values (map untimed) sl3 = map_values (map untimed) sl"
      and us: "map parties us = map parties ts"
    from untimed_reinsert [OF this(1,2)] us r show "agrees (same_answer (r, bk')) (let bk = reinsert_levels (o_side x) sl3 bk3
       in if full \<and> 0 < rem then Inl (Panic (FokSafetyNet (o_id x) rem)) else Inr (Some us, bk, h3, d3))"
      by (simp only: Let_def if_not_P [OF r(3)]) (simp add: same_answer_def)
  qed
qed

lemma untimed_push:
  assumes "map_values (map untimed) m2 = map_values (map untimed) m" and "untimed x2 = untimed x"
  shows "map_values (map untimed) (push_level x2 m2) = map_values (map untimed) (push_level x m)"
proof -
  have "map_option (map untimed) (bm_get m2 (o_price x)) = map_option (map untimed) (bm_get m (o_price x))"
    using assms(1) by (metis map_values_levels(1))
  with assms show ?thesis
    by (auto simp: push_level_def same_fields [OF assms(2)] split: option.split)
qed

lemma untimed_placed:
  assumes "untimed_book bk2 = untimed_book bk" and "untimed x2 = untimed x"
  shows "untimed_book (placed bk2 x2) = untimed_book (placed bk x)"
  using assms untimed_push [OF _ assms(2)]
  by (cases "o_side x") (simp_all add: placed_def untimed_book_iff same_fields [OF assms(2)])

lemma untimed_table_contains:
  assumes "untimed_book bk2 = untimed_book bk"
  shows "hm_contains (orders_map bk2) i = hm_contains (orders_map bk) i"
  using assms by (metis map_values_maps(2) untimed_book_iff)

lemma add_order_again:
  assumes "add_order bk x g c = Inr (r, bk', g', c')"
    and "untimed_book bk2 = untimed_book bk" and "untimed x2 = untimed x"
  shows "agrees (same_answer (r, bk')) (add_order bk2 x2 h d)"
proof -
  note same = same_fields [OF assms(3)] untimed_table_contains [OF assms(2)] can_match_again [OF assms(2)]
  have rejected: ?thesis if "add_order bk2 x2 h d = Inr (None, bk2, h, d)" "r = None" "bk' = bk"
    using that assms(2) by (simp add: same_answer_def)
  consider (dup) "hm_contains (orders_map bk) (o_id x)"
    | (no_match) "\<not> hm_contains (orders_map bk) (o_id x)" "immediate (o_type x)" "\<not> can_match bk (o_side x) (o_price x)"
    | (match) "\<not> hm_contains (orders_map bk) (o_id x)" "immediate (o_type x)" "can_match bk (o_side x) (o_price x)"
    | (rest) "\<not> hm_contains (orders_map bk) (o_id x)" "\<not> immediate (o_type x)" by blast
  then show ?thesis
  proof cases
    case dup
    then show ?thesis using assms(1) by (intro rejected) (simp_all add: add_order_def same)
  next
    case no_match
    then show ?thesis using assms(1) by (intro rejected) (auto simp: add_order_def same immediate_def)
  next
    case match
    then have "add_order b y k e = match_against_opposite b y (o_type x = FillOrKill) k e"
      if "b = bk \<and> y = x \<or> b = bk2 \<and> y = x2" for b y k e
      using that by (auto simp: add_order_def same immediate_def)
    then show ?thesis using match_against_opposite_again [OF _ assms(2,3)] assms(1) by simp
  next
    case rest
    have run: "add_order b y k e = and_then (match_order (placed b y) (o_side x) k e) (\<lambda>(ts, b, k, e). Inr (Some ts, b, k, e))"
      if "b = bk \<and> y = x \<or> b = bk2 \<and> y = x2" for b y k e
      using that rest by (auto simp: add_order_def same immediate_def placed_def Let_def)
    from assms(1) obtain ts where "match_order (placed bk x) (o_side x) g c = Inr (ts, bk', g', c')" "r = Some ts"
      by (auto simp: run and_then_Inr)
    with match_order_again [OF this(1) untimed_placed [OF assms(2,3)], of h d] show ?thesis
      by (auto simp: run agrees_and_then same_answer_def elim!: agrees_mono)
  qed
qed

lemma drop_level_untimed: "drop_level i p (map_values (map untimed) m) = map_values (map untimed) (drop_level i p m)"
  by (cases "bm_get m p") (simp_all add: drop_level_def filter_map comp_def Let_def)

lemma cancel_order_untimed:
  "cancel_order (untimed_book bk) i = map_prod (map_option untimed) untimed_book (cancel_order bk i)"
proof (cases "hm_get (orders_map bk) i")
  case None
  then show ?thesis by (simp add: cancel_order_drop untimed_book_def)
next
  case (Some x)
  then show ?thesis by (cases "o_side x") (simp_all add: cancel_order_drop untimed_book_def drop_level_untimed)
qed

lemma cancel_orders_for_user_untimed:
  "cancel_orders_for_user (untimed_book bk) u = apsnd untimed_book (cancel_orders_for_user bk u)"
proof -
  have ids: "map fst (filter (\<lambda>e. o_user (snd e) = u) (map_values untimed om)) = map fst (filter (\<lambda>e. o_user (snd e) = u) om)" for om
    by (induction om) auto
  have table: "map_values untimed (fold hm_remove is om) = fold hm_remove is (map_values untimed om)" for "is" om
    by (induction "is" arbitrary: om) simp_all
  have keep: "filter (\<lambda>(p, ys). ys \<noteq> []) (map (\<lambda>(p, ys). (p, filter (\<lambda>x. o_user x \<noteq> u) ys)) (map_values (map untimed) m)) =
      map_values (map untimed) (filter (\<lambda>(p, ys). ys \<noteq> []) (map (\<lambda>(p, ys). (p, filter (\<lambda>x. o_user x \<noteq> u) ys)) m))" for m
    by (induction m) (auto simp: filter_map comp_def)
  show ?thesis by (simp add: cancel_orders_for_user_def Let_def untimed_book_def ids table keep)
qed

end
