(* ===== verification/EngineReplay.thy ===== *)
theory EngineReplay
  imports Replay
begin

text \<open>
  Two runs of the operations of the core engine. Engines that agree up to order time stamps and the
  generator give answers that agree up to the identifiers and times of trades, and end in engines
  that agree again.
\<close>

section \<open>Two engines\<close>

text \<open>Engines that agree up to order time stamps and the generator.\<close>

definition same_engine :: "core_engine \<Rightarrow> core_engine \<Rightarrow> bool" where
  "same_engine e2 e \<longleftrightarrow>
     map_values untimed_book (orderbooks e2) = map_values untimed_book (orderbooks e) \<and> users e2 = users e"

lemma same_engine_refl [simp]: "same_engine e e"
  by (simp add: same_engine_def)

lemma same_engine_ids [simp]: "same_engine e2 (e\<lparr>ids := g\<rparr>) = same_engine e2 e"
  by (simp add: same_engine_def)

lemma same_engine_book:
  assumes "same_engine e2 e"
  shows "hm_get (orderbooks e) pair = None \<Longrightarrow> hm_get (orderbooks e2) pair = None"
    and "hm_get (orderbooks e) pair = Some bk \<Longrightarrow>
      \<exists>bk2. hm_get (orderbooks e2) pair = Some bk2 \<and> untimed_book bk2 = untimed_book bk"
proof -
  have "map_option untimed_book (hm_get (orderbooks e2) pair) = map_option untimed_book (hm_get (orderbooks e) pair)"
    using assms by (simp add: same_engine_def flip: map_values_maps(1))
  then show "hm_get (orderbooks e) pair = None \<Longrightarrow> hm_get (orderbooks e2) pair = None"
    "hm_get (orderbooks e) pair = Some bk \<Longrightarrow>
      \<exists>bk2. hm_get (orderbooks e2) pair = Some bk2 \<and> untimed_book bk2 = untimed_book bk" by auto
qed

lemma same_engine_put:
  assumes "same_engine e2 e" and "untimed_book bk2 = untimed_book bk" and "us2 = us"
  shows "same_engine (e2\<lparr>orderbooks := hm_insert pair bk2 (orderbooks e2), users := us2\<rparr>)
    (e\<lparr>orderbooks := hm_insert pair bk (orderbooks e), users := us\<rparr>)"
  using assms by (simp add: same_engine_def)

lemma settle_trade_parties: "parties t = parties u \<Longrightarrow> settle_trade us pair t = settle_trade us pair u"
  by (simp add: parties_def settle_trade_def)

lemma settle_trades_parties:
  "map parties ts = map parties us \<Longrightarrow> settle_trades tbl pair ts = settle_trades tbl pair us"
proof (induction ts arbitrary: us tbl)
  case (Cons t ts)
  then obtain u us' where "us = u # us'" "parties t = parties u" "map parties ts = map parties us'"
    by (auto simp: Cons_eq_map_conv)
  then show ?case using Cons.IH settle_trade_parties [of t u tbl pair]
    by (simp add: and_then_def split: sum.split)
qed simp

definition same_reply where
  "same_reply = (\<lambda>(r, e) (r2, e2, _). map_sum id (map_option (map parties)) r2 = map_sum id (map_option (map parties)) r \<and>
     same_engine e2 e)"

lemma core_place_again:
  assumes "core_place e pair bk x c = Inr (r, e', c')"
    and e: "same_engine e2 e" and bk: "untimed_book bk2 = untimed_book bk" and x: "untimed x2 = untimed x"
  shows "agrees (same_reply (r, e')) (core_place e2 pair bk2 x2 d)"
proof -
  obtain ts bk1 g1 c1 where run: "add_order bk x (ids e) c = Inr (ts, bk1, g1, c1)"
    using assms(1) by (auto simp: core_place_def and_then_Inr)
  have us: "users e2 = users e" using e by (simp add: same_engine_def)
  show ?thesis
    unfolding core_place_def agrees_and_then
  proof (rule agrees_mono [OF add_order_again [OF run bk x]], unfold same_answer_def, clarify)
    fix ts2 bk3 h3 d3
    assume same: "map_option (map parties) ts2 = map_option (map parties) ts" "untimed_book bk3 = untimed_book bk1"
    let ?e2 = "e2\<lparr>orderbooks := hm_insert pair bk3 (orderbooks e2), ids := h3\<rparr>"
    show "agrees (same_reply (r, e')) (let e = ?e2 in case ts2 of
        None \<Rightarrow> Inr (Inr None, e\<lparr>users := release (users e) (o_user x2) (o_id x2)\<rparr>, d3)
      | Some ts \<Rightarrow> and_then (settle_trades (users e) pair ts) (\<lambda>us. Inr (Inr (Some ts),
          e\<lparr>users := if o_type x2 = FillAndKill then release us (o_user x2) (o_id x2) else us\<rparr>, d3)))"
    proof (cases ts)
      case None
      then show ?thesis using assms(1) same e us
        by (auto simp: core_place_def run Let_def same_reply_def same_engine_def same_fields [OF x])
    next
      case (Some us1)
      then obtain us2 where ts2: "ts2 = Some us2" "map parties us2 = map parties us1" using same(1) by auto
      have "settle_trades (users e2) pair us2 = settle_trades (users e) pair us1"
        using settle_trades_parties [OF ts2(2)] us by simp
      then show ?thesis using assms(1) same(2) e Some ts2
        by (auto simp: core_place_def run Let_def same_reply_def same_engine_def same_fields [OF x] and_then_Inr)
    qed
  qed
qed

section \<open>Orders again\<close>

lemma untimed_get_order:
  assumes "untimed_book bk2 = untimed_book bk"
  shows "map_option untimed (get_order bk2 i) = map_option untimed (get_order bk i)"
    and "has_order bk2 i = has_order bk i"
proof -
  show "map_option untimed (get_order bk2 i) = map_option untimed (get_order bk i)"
    using assms by (metis get_order_def map_values_maps(1) untimed_book_iff)
  show "has_order bk2 i = has_order bk i"
    using untimed_table_contains [OF assms] by (simp add: has_order_def)
qed

lemma rejection_again:
  assumes "same_engine e2 e"
  shows "rejection e2 pair x = rejection e pair x"
proof (cases "hm_get (orderbooks e) pair")
  case None
  with same_engine_book(1) [OF assms] show ?thesis by (simp add: rejection_def)
next
  case (Some bk)
  from same_engine_book(2) [OF assms Some] obtain bk2 where
    bk2: "hm_get (orderbooks e2) pair = Some bk2" "untimed_book bk2 = untimed_book bk" by blast
  have "users e2 = users e" using assms by (simp add: same_engine_def)
  with Some bk2(1) show ?thesis by (simp add: rejection_def untimed_get_order(2) [OF bk2(2)])
qed

lemma secure_again: "same_engine e2 e \<Longrightarrow> same_engine (secure e2 pair x) (secure e pair x)"
  by (simp add: secure_def same_engine_def split: option.split)

lemma core_add_order_again:
  assumes "core_add_order e pair x c = Inr (r, e', c')" and e: "same_engine e2 e"
  shows "agrees (same_reply (r, e')) (core_add_order e2 pair x d)"
proof (cases "rejection e pair x")
  case (Some err)
  with assms show ?thesis
    by (auto simp: core_add_order_split rejection_again [OF e] same_reply_def)
next
  case None
  then obtain bk where bk: "hm_get (orderbooks e) pair = Some bk"
    by (auto simp: rejection_def split: if_splits option.splits)
  from same_engine_book(2) [OF e bk] obtain bk2 where
    bk2: "hm_get (orderbooks e2) pair = Some bk2" "untimed_book bk2 = untimed_book bk" by blast
  have "core_place (secure e pair x) pair bk x c = Inr (r, e', c')"
    using assms(1) None bk by (simp add: core_add_order_split)
  from core_place_again [OF this secure_again [OF e] bk2(2) refl] show ?thesis
    using None bk2(1) by (simp add: core_add_order_split rejection_again [OF e])
qed

lemma order_new_again:
  assumes "order_new i ty sd st p q u c = Inr (x, c')"
  shows "agrees (\<lambda>(x2, _). untimed x2 = untimed x) (order_new i ty sd st p q u d)"
proof (cases "now_nanos d")
  case (Inl f)
  then show ?thesis by (simp add: order_new_def agrees_def now_nanos_fault)
next
  case (Inr s)
  with assms show ?thesis by (cases s) (auto simp: order_new_def untimed_def and_then_Inr)
qed

lemma cancel_order_again:
  assumes "untimed_book bk2 = untimed_book bk" and "cancel_order bk i = (r, bk')"
  obtains r2 bk2' where "cancel_order bk2 i = (r2, bk2')" and "map_option untimed r2 = map_option untimed r"
    and "untimed_book bk2' = untimed_book bk'"
proof -
  obtain r2 bk2' where run: "cancel_order bk2 i = (r2, bk2')" by fastforce
  have "map_prod (map_option untimed) untimed_book (cancel_order bk2 i) = map_prod (map_option untimed) untimed_book (cancel_order bk i)"
    using assms(1) by (simp flip: cancel_order_untimed)
  with run assms(2) show thesis by (intro that [OF run]) simp_all
qed

lemma core_modify_order_again:
  assumes run: "core_modify_order e pair m c = Inr (r, e', c')" and e: "same_engine e2 e"
  shows "agrees (same_reply (r, e')) (core_modify_order e2 pair m d)"
proof -
  have us: "users e2 = users e" using e by (simp add: same_engine_def)
  have refused: ?thesis if "\<exists>err. core_modify_order e pair m c = Inr (Inl err, e, c) \<and>
      core_modify_order e2 pair m d = Inr (Inl err, e2, d)"
    using that run e by (auto simp: same_reply_def)
  show ?thesis
  proof (cases "validate_order (m_price m) (m_quantity m)")
    case (Inl err)
    then show ?thesis by (intro refused) (simp add: core_modify_order_def)
  next
    case valid: (Inr v)
    show ?thesis
    proof (cases "hm_get (orderbooks e) pair")
      case None
      with valid same_engine_book(1) [OF e] show ?thesis by (intro refused) (simp add: core_modify_order_def)
    next
      case bk: (Some bk)
      from same_engine_book(2) [OF e bk] obtain bk2 where
        bk2: "hm_get (orderbooks e2) pair = Some bk2" "untimed_book bk2 = untimed_book bk" by blast
      note get = untimed_get_order(1) [OF bk2(2), of "m_id m"]
      show ?thesis
      proof (cases "get_order bk (m_id m)")
        case None
        with valid bk bk2 get show ?thesis by (intro refused) (simp add: core_modify_order_def)
      next
        case old: (Some old)
        with get obtain old2 where old2: "get_order bk2 (m_id m) = Some old2" "untimed old2 = untimed old" by auto
        note same = same_fields [OF old2(2)]
        note here = valid bk bk2(1) old old2(1) us same
        show ?thesis
        proof (cases "m_user m \<noteq> o_user old \<or> m_side m \<noteq> o_side old")
          case True
          with here show ?thesis by (intro refused) (simp add: core_modify_order_def)
        next
          case mine: False
          show ?thesis
          proof (cases "lock_amount_for pair (m_side m) (m_price m) (m_quantity m)")
            case (Inl err)
            with here mine show ?thesis by (intro refused) (simp add: core_modify_order_def)
          next
            case (Inr an)
            obtain a n where amount: "lock_amount_for pair (m_side m) (m_price m) (m_quantity m) = Inr (a, n)"
              using Inr by (cases an) simp
            show ?thesis
            proof (cases "hm_get (users e) (o_user old)")
              case None
              with here mine amount show ?thesis by (intro refused) (simp add: core_modify_order_def)
            next
              case acc: (Some u)
              let ?old = "case hm_get (get_all_locked_balances u) (m_id m) of Some l \<Rightarrow> le_amount l | None \<Rightarrow> 0"
              show ?thesis
              proof (cases "as_u64 (get_available_balance u a) + as_u64 ?old < as_u64 n")
                case True
                with here mine amount acc show ?thesis by (intro refused) (simp add: core_modify_order_def)
              next
                case enough: False
                obtain ro bk1 where cancel: "cancel_order bk (m_id m) = (ro, bk1)" by fastforce
                from cancel_order_again [OF bk2(2) cancel] obtain ro2 bk3 where
                  cancel2: "cancel_order bk2 (m_id m) = (ro2, bk3)" "untimed_book bk3 = untimed_book bk1" by metis
                obtain lr u' where lock: "lock (snd (unlock_order u (m_id m))) (m_id m) a n = (lr, u')" by fastforce
                let ?put = "\<lambda>e bk. e\<lparr>orderbooks := hm_insert pair bk (orderbooks e), users := hm_insert (o_user old) u' (users e)\<rparr>"
                have put: "same_engine (?put e2 bk3) (?put e bk1)"
                  using same_engine_put [OF e cancel2(2)] us by simp
                let ?new = "order_new (m_id m) (o_type old) (m_side m) (m_status m) (m_price m) (m_quantity m) (m_user m)"
                have steps: "core_modify_order e pair m c = (case lr of Inl _ \<Rightarrow> Inr (Inl InsufficientBalance, ?put e bk1, c)
                    | Inr _ \<Rightarrow> and_then (?new c) (\<lambda>(x, c). core_place (?put e bk1) pair bk1 x c))"
                  "core_modify_order e2 pair m d = (case lr of Inl _ \<Rightarrow> Inr (Inl InsufficientBalance, ?put e2 bk3, d)
                    | Inr _ \<Rightarrow> and_then (?new d) (\<lambda>(x, d). core_place (?put e2 bk3) pair bk3 x d))"
                  using here mine amount acc enough cancel cancel2(1) lock
                  by (simp_all add: core_modify_order_def Let_def split: sum.split)
                show ?thesis
                proof (cases lr)
                  case (Inl msg)
                  with run put show ?thesis by (auto simp: steps same_reply_def)
                next
                  case (Inr ok)
                  with run obtain x c1 where new: "?new c = Inr (x, c1)"
                    and place: "core_place (?put e bk1) pair bk1 x c1 = Inr (r, e', c')"
                    by (auto simp: steps and_then_Inr)
                  have "agrees (\<lambda>(x2, d). agrees (same_reply (r, e')) (core_place (?put e2 bk3) pair bk3 x2 d)) (?new d)"
                    using order_new_again [OF new, of d] core_place_again [OF place put cancel2(2)]
                    by (auto elim: agrees_mono)
                  with Inr show ?thesis by (simp add: steps agrees_and_then case_prod_unfold)
                qed
              qed
            qed
          qed
        qed
      qed
    qed
  qed
qed

section \<open>Operations without a clock\<close>

lemma core_add_trading_pair_again:
  "same_engine e2 e \<Longrightarrow> same_engine (core_add_trading_pair e2 pair) (core_add_trading_pair e pair)"
proof -
  assume e: "same_engine e2 e"
  then have "hm_contains (orderbooks e2) pair = hm_contains (orderbooks e) pair"
    unfolding same_engine_def by (metis map_values_maps(2))
  with e show ?thesis by (simp add: core_add_trading_pair_def same_engine_def)
qed

lemma release_untimed:
  "fold (\<lambda>x us. release us (o_user x) (o_id x)) (map untimed xs) us = fold (\<lambda>x us. release us (o_user x) (o_id x)) xs us"
  by (induction xs arbitrary: us) simp_all

lemma core_remove_trading_pair_again:
  assumes "same_engine e2 e"
  shows "same_engine (snd (core_remove_trading_pair e2 pair)) (snd (core_remove_trading_pair e pair))"
proof (cases "hm_get (orderbooks e) pair")
  case None
  with assms same_engine_book(1) [OF assms] show ?thesis by (simp add: core_remove_trading_pair_def)
next
  case (Some bk)
  from same_engine_book(2) [OF assms Some] obtain bk2 where
    bk2: "hm_get (orderbooks e2) pair = Some bk2" "untimed_book bk2 = untimed_book bk" by blast
  have "map untimed (get_all_orders bk2) = map snd (map_values untimed (orders_map bk2))"
    "map untimed (get_all_orders bk) = map snd (map_values untimed (orders_map bk))"
    by (simp_all add: get_all_orders_def hm_values_def map_values_def)
  then have same: "map untimed (get_all_orders bk2) = map untimed (get_all_orders bk)"
    using bk2(2) by (simp add: untimed_book_iff)
  have "fold (\<lambda>x us. release us (o_user x) (o_id x)) (get_all_orders bk2) us =
      fold (\<lambda>x us. release us (o_user x) (o_id x)) (get_all_orders bk) us" for us
    using release_untimed [of "get_all_orders bk2" us] release_untimed [of "get_all_orders bk" us] unfolding same
    by (rule trans [OF sym])
  with assms Some bk2(1) show ?thesis by (simp add: core_remove_trading_pair_def same_engine_def)
qed

lemma core_cancel_order_again:
  assumes "same_engine e2 e"
  shows "fst (core_cancel_order e2 pair i) = fst (core_cancel_order e pair i) \<and>
    same_engine (snd (core_cancel_order e2 pair i)) (snd (core_cancel_order e pair i))"
proof (cases "hm_get (orderbooks e) pair")
  case None
  with assms same_engine_book(1) [OF assms] show ?thesis by (simp add: core_cancel_order_def)
next
  case (Some bk)
  from same_engine_book(2) [OF assms Some] obtain bk2 where
    bk2: "hm_get (orderbooks e2) pair = Some bk2" "untimed_book bk2 = untimed_book bk" by blast
  obtain r bk1 where cancel: "cancel_order bk i = (r, bk1)" by fastforce
  from cancel_order_again [OF bk2(2) cancel] obtain r2 bk3 where
    cancel2: "cancel_order bk2 i = (r2, bk3)" "map_option untimed r2 = map_option untimed r" "untimed_book bk3 = untimed_book bk1" .
  show ?thesis
  proof (cases r)
    case None
    with assms Some bk2(1) cancel cancel2 show ?thesis by (auto simp: core_cancel_order_def same_engine_def)
  next
    case x: (Some x)
    with cancel2(2) obtain x2 where "r2 = Some x2" "untimed x2 = untimed x" by auto
    with assms Some x bk2(1) cancel cancel2 show ?thesis
      by (simp add: core_cancel_order_def same_engine_def same_fields [of x2 x])
  qed
qed

lemma cancel_in_books_again:
  assumes "map_values untimed_book books2 = map_values untimed_book books"
  shows "map_values untimed_book (fst (cancel_in_books u books2 us)) = map_values untimed_book (fst (cancel_in_books u books us)) \<and>
    snd (cancel_in_books u books2 us) = snd (cancel_in_books u books us)"
  using assms
proof (induction books arbitrary: books2 us)
  case (Cons e books)
  obtain p bk where e: "e = (p, bk)" by (cases e)
  with Cons.prems obtain bk2 rest where books2: "books2 = (p, bk2) # rest"
    and bk2: "untimed_book bk2 = untimed_book bk" and rest: "map_values untimed_book rest = map_values untimed_book books"
    by (cases books2) auto
  have "apsnd untimed_book (cancel_orders_for_user bk2 u) = apsnd untimed_book (cancel_orders_for_user bk u)"
    using bk2 by (simp flip: cancel_orders_for_user_untimed)
  then have "fst (cancel_orders_for_user bk2 u) = fst (cancel_orders_for_user bk u)"
    "untimed_book (snd (cancel_orders_for_user bk2 u)) = untimed_book (snd (cancel_orders_for_user bk u))"
    by (metis fst_apsnd, metis snd_apsnd)
  then show ?case using Cons.IH [OF rest]
    by (simp add: e books2 prod.case_eq_if Let_def cong: option.case_cong)
qed (simp add: map_values_def)

lemma core_users_again:
  assumes "same_engine e2 e"
  shows "same_engine (core_add_user e2 u) (core_add_user e u)"
    and "same_engine (snd (core_remove_user e2 u)) (snd (core_remove_user e u))"
    and "same_engine (snd (core_deposit_balance e2 u a n)) (snd (core_deposit_balance e u a n))"
    and "same_engine (snd (core_withdraw_balance e2 u a n)) (snd (core_withdraw_balance e u a n))"
proof -
  show "same_engine (core_add_user e2 u) (core_add_user e u)"
    using assms by (simp add: core_add_user_def same_engine_def)
  show "same_engine (snd (core_remove_user e2 u)) (snd (core_remove_user e u))"
    using assms cancel_in_books_again [of "orderbooks e2" "orderbooks e" u "users e"]
    by (auto simp: core_remove_user_def same_engine_def prod.case_eq_if Let_def split: option.split)
  show "same_engine (snd (core_deposit_balance e2 u a n)) (snd (core_deposit_balance e u a n))"
    "same_engine (snd (core_withdraw_balance e2 u a n)) (snd (core_withdraw_balance e u a n))"
    using assms
    by (auto simp: core_deposit_balance_def core_withdraw_balance_def same_engine_def split: option.split sum.split prod.split)
qed

end
