(* ===== verification/Recovery.thy ===== *)
theory Recovery
  imports EngineReplay WalEngine WalTheorems
begin

text \<open>
  Recovery of the logged engine: replaying the log written in a session rebuilds the engine of that
  session, up to the time stamps of orders and the position of the generator.
\<close>

section \<open>Replaying a list of entries\<close>

definition higher_seq :: "u64 \<Rightarrow> wal_entry \<Rightarrow> u64" where
  "higher_seq s x = (if s < w_seq x then w_seq x else s)"

fun replay_entries :: "wal_entry list \<Rightarrow> core_engine \<Rightarrow> u64 \<Rightarrow> clock \<Rightarrow> fault + core_engine \<times> u64 \<times> clock" where
  "replay_entries [] e s c = Inr (e, s, c)"
| "replay_entries (x # xs) e s c =
     and_then (replay_entry e x c) (\<lambda>(e, c). replay_entries xs e (higher_seq s x) c)"

lemma replay_entries_append:
  "replay_entries (xs @ ys) e s c =
     and_then (replay_entries xs e s c) (\<lambda>(e, s, c). replay_entries ys e s c)"
  by (induction xs arbitrary: e s c) (auto simp: and_then_def split: sum.split)

lemma replay_log_entries:
  "wal_entries J ls = Inr es \<Longrightarrow> replay_log J ls e s c = replay_entries es e s c"
proof (induction J ls e s c arbitrary: es rule: replay_log.induct)
  case (1 J ls e s c)
  show ?case
  proof (cases "wal_next J ls")
    case (Inl f)
    with "1.prems" show ?thesis by (simp add: wal_entries.simps [of J ls])
  next
    case (Inr r)
    obtain x ls' where r: "r = (x, ls')" by (cases r)
    show ?thesis
    proof (cases x)
      case None
      with Inr r "1.prems" show ?thesis by (simp add: wal_entries.simps [of J ls] replay_log.simps [of J ls])
    next
      case (Some entry)
      with Inr r "1.prems" obtain es' where es: "es = entry # es'" "wal_entries J ls' = Inr es'"
        by (auto simp: wal_entries.simps [of J ls] and_then_Inr)
      have "replay_log J ls e s c = and_then (replay_entry e entry c) (\<lambda>(e, c). replay_log J ls' e (higher_seq s entry) c)"
        using Inr r Some by (simp add: replay_log.simps [of J ls] higher_seq_def)
      also have "\<dots> = and_then (replay_entry e entry c) (\<lambda>(e, c). replay_entries es' e (higher_seq s entry) c)"
        using "1.IH" Inr r Some es(2) by (auto simp: and_then_def higher_seq_def split: sum.split)
      finally show ?thesis by (simp add: es(1))
    qed
  qed
qed

text \<open>The sequence number recovery continues with.\<close>

definition counted :: "wal_entry list \<Rightarrow> bool" where
  "counted es \<longleftrightarrow> map w_seq es = map of_nat [1 ..< Suc (length es)]"

lemma counted_Nil [simp]: "counted []"
  by (simp add: counted_def)

lemma counted_append: "counted es \<Longrightarrow> w_seq x = of_nat (length es) + 1 \<Longrightarrow> counted (es @ [x])"
  by (simp add: counted_def add.commute)

lemma counted_highest:
  assumes "counted es" and "length es < 2 ^ 64"
  shows "fold (\<lambda>x s. higher_seq s x) es 0 = of_nat (length es)"
  using assms
proof (induction es rule: rev_induct)
  case (snoc x es)
  have small: "unat (of_nat n :: u64) = n" if "n < 2 ^ 64" for n
    using that by (simp add: unsigned_of_nat take_bit_nat_eq_self)
  from snoc.prems(1) have "counted es" and x: "w_seq x = of_nat (Suc (length es))" by (simp_all add: counted_def)
  moreover have "(of_nat (length es) :: u64) < of_nat (Suc (length es))"
    using snoc.prems(2) small [of "length es"] small [of "Suc (length es)"] by (simp add: word_less_nat_alt del: of_nat_Suc)
  ultimately show ?case using snoc.IH snoc.prems(2) by (simp add: higher_seq_def del: of_nat_Suc)
qed simp

section \<open>Logged operations and their replay\<close>

text \<open>Replaying an entry does to an engine that agrees with \<open>e\<close> what the operation did to \<open>e\<close>.\<close>

definition effect :: "wal_entry_type \<Rightarrow> core_engine \<Rightarrow> core_engine \<Rightarrow> bool" where
  "effect ty e e' \<longleftrightarrow> (\<forall>e2 x d. same_engine e2 e \<longrightarrow> w_entry x = ty \<longrightarrow>
     agrees (\<lambda>(e3, _). same_engine e3 e') (replay_entry e2 x d))"

definition logged :: "codec \<Rightarrow> wal_engine \<Rightarrow> wal_entry_type \<Rightarrow> wal_engine \<Rightarrow> bool" where
  "logged J w ty w' \<longleftrightarrow> effect ty (we_inner w) (we_inner w') \<and>
     (\<exists>io s. wal_write J (we_writer w) (wal_entry_new 0 ty) io = Inr (Inr s, we_writer w'))"

lemma loggedI:
  "wal_write J (we_writer w) (wal_entry_new 0 ty) io = Inr (Inr s, we_writer w') \<Longrightarrow>
     effect ty (we_inner w) (we_inner w') \<Longrightarrow> logged J w ty w'"
  by (auto simp: logged_def)

lemma log_entry_Inr:
  assumes "log_entry J w ty io = Inr w'"
  shows "\<exists>s wr. w' = w\<lparr>we_writer := wr\<rparr> \<and> wal_write J (we_writer w) (wal_entry_new 0 ty) io = Inr (Inr s, wr)"
proof -
  from assms obtain r wr where "wal_write J (we_writer w) (wal_entry_new 0 ty) io = Inr (r, wr)"
    and "(case r of Inl msg \<Rightarrow> Inl (Panic (WalWriteFailed msg)) | Inr _ \<Rightarrow> Inr (w\<lparr>we_writer := wr\<rparr>)) = Inr w'"
    by (auto simp: log_entry_def and_then_Inr)
  then show ?thesis by (cases r) auto
qed

lemma effect_now:
  assumes "\<And>e2 x d. same_engine e2 e \<Longrightarrow> w_entry x = ty \<Longrightarrow> \<exists>e3. replay_entry e2 x d = Inr (e3, d) \<and> same_engine e3 e'"
  shows "effect ty e e'"
proof -
  have "agrees (\<lambda>(e3, _). same_engine e3 e') (replay_entry e2 x d)" if "same_engine e2 e" "w_entry x = ty" for e2 x d
    using assms [OF that, of d] by auto
  then show ?thesis by (simp add: effect_def)
qed

lemma logged_pairs:
  "wal_add_trading_pair J w pair io = Inr w' \<Longrightarrow> logged J w (WalAddTradingPair pair) w'"
  "wal_remove_trading_pair J w pair io = Inr (r, w') \<Longrightarrow> logged J w (WalRemoveTradingPair pair) w'"
  by (auto simp: wal_add_trading_pair_def wal_remove_trading_pair_def and_then_Inr
      replay_entry_def prod.case_eq_if Let_def dest!: log_entry_Inr
      intro!: loggedI effect_now core_add_trading_pair_again core_remove_trading_pair_again)

lemma logged_users:
  "wal_add_user J w u io = Inr w' \<Longrightarrow> logged J w (WalAddUser u) w'"
  "wal_remove_user J w u io = Inr (r, w') \<Longrightarrow> logged J w (WalRemoveUser u) w'"
  "wal_deposit_balance J w u a n io = Inr (r', w') \<Longrightarrow> logged J w (WalDepositBalance u a n) w'"
  "wal_withdraw_balance J w u a n io = Inr (r', w') \<Longrightarrow> logged J w (WalWithdrawBalance u a n) w'"
  by (auto simp: wal_add_user_def wal_remove_user_def wal_deposit_balance_def wal_withdraw_balance_def
      and_then_Inr replay_entry_def prod.case_eq_if Let_def dest!: log_entry_Inr
      intro!: loggedI effect_now core_users_again)

lemma logged_cancel: "wal_cancel_order J w pair i io = Inr (r, w') \<Longrightarrow> logged J w (WalCancelOrder pair i r) w'"
  using core_cancel_order_again
  by (auto simp: wal_cancel_order_def and_then_Inr replay_entry_def prod.case_eq_if Let_def
      dest!: log_entry_Inr intro!: loggedI effect_now)

lemma agrees_engine:
  assumes "agrees (same_reply (r, e')) R"
  shows "agrees (\<lambda>(e3, _). same_engine e3 e') (and_then R (\<lambda>(_, y). Inr y))"
  unfolding agrees_and_then using assms by (rule agrees_mono) (auto simp: same_reply_def)

lemma logged_add:
  assumes "wal_add_order J w pair x c io = Inr (r, w', c')"
  shows "logged J w (WalAddOrder pair x None) w'"
proof -
  from assms obtain w1 e' where log: "log_entry J w (WalAddOrder pair x None) io = Inr w1"
    and run: "core_add_order (we_inner w1) pair x c = Inr (r, e', c')" and w': "w' = w1\<lparr>we_inner := e'\<rparr>"
    by (auto simp: wal_add_order_def and_then_Inr)
  from log_entry_Inr [OF log] obtain s wr where
    wr: "w1 = w\<lparr>we_writer := wr\<rparr>" "wal_write J (we_writer w) (wal_entry_new 0 (WalAddOrder pair x None)) io = Inr (Inr s, wr)"
    by blast
  have "effect (WalAddOrder pair x None) (we_inner w) e'"
    using core_add_order_again [OF run] wr(1)
    by (auto simp: effect_def replay_entry_def intro!: agrees_engine)
  with wr w' show ?thesis by (auto intro: loggedI)
qed

lemma logged_modify:
  assumes "wal_modify_order J w pair m c io = Inr (r, w', c')"
  shows "logged J w (WalModifyOrder pair m None) w'"
proof -
  from assms obtain w1 e' where log: "log_entry J w (WalModifyOrder pair m None) io = Inr w1"
    and run: "core_modify_order (we_inner w1) pair m c = Inr (r, e', c')" and w': "w' = w1\<lparr>we_inner := e'\<rparr>"
    by (auto simp: wal_modify_order_def and_then_Inr)
  from log_entry_Inr [OF log] obtain s wr where
    wr: "w1 = w\<lparr>we_writer := wr\<rparr>" "wal_write J (we_writer w) (wal_entry_new 0 (WalModifyOrder pair m None)) io = Inr (Inr s, wr)"
    by blast
  have "effect (WalModifyOrder pair m None) (we_inner w) e'"
    using core_modify_order_again [OF run] wr(1)
    by (auto simp: effect_def replay_entry_def intro!: agrees_engine)
  with wr w' show ?thesis by (auto intro: loggedI)
qed

section \<open>Sessions\<close>

text \<open>A disk from which the log of \<open>w\<close> can be read, and appended to.\<close>

definition reads_back :: "wal_engine \<Rightarrow> disk \<Rightarrow> bool" where
  "reads_back w D \<longleftrightarrow> d_file D = Some (ww_file (we_writer w)) \<and> d_read_error D = None \<and> d_open_error D = None"

text \<open>
  A session from \<open>w0\<close>: any sequence of operations that returned, with any clock readings and write
  outcomes, and of restarts on the log file. \<open>tys\<close> lists what was logged, in order. Queries change
  nothing and are left out.
\<close>

inductive session :: "codec \<Rightarrow> u64 \<Rightarrow> u64 \<Rightarrow> wal_engine \<Rightarrow> wal_entry_type list \<Rightarrow> wal_engine \<Rightarrow> bool" for J mid did w0 where
  start: "session J mid did w0 [] w0"
| next_id: "session J mid did w0 tys w \<Longrightarrow> wal_next_id w c = Inr (i, w', c') \<Longrightarrow> session J mid did w0 tys w'"
| add_pair: "session J mid did w0 tys w \<Longrightarrow> wal_add_trading_pair J w pair io = Inr w' \<Longrightarrow>
    session J mid did w0 (tys @ [WalAddTradingPair pair]) w'"
| remove_pair: "session J mid did w0 tys w \<Longrightarrow> wal_remove_trading_pair J w pair io = Inr (book, w') \<Longrightarrow>
    session J mid did w0 (tys @ [WalRemoveTradingPair pair]) w'"
| add_order: "session J mid did w0 tys w \<Longrightarrow> wal_add_order J w pair x c io = Inr (r, w', c') \<Longrightarrow>
    session J mid did w0 (tys @ [WalAddOrder pair x None]) w'"
| cancel_order: "session J mid did w0 tys w \<Longrightarrow> wal_cancel_order J w pair i io = Inr (ok, w') \<Longrightarrow>
    session J mid did w0 (tys @ [WalCancelOrder pair i ok]) w'"
| modify_order: "session J mid did w0 tys w \<Longrightarrow> wal_modify_order J w pair m c io = Inr (r, w', c') \<Longrightarrow>
    session J mid did w0 (tys @ [WalModifyOrder pair m None]) w'"
| add_user: "session J mid did w0 tys w \<Longrightarrow> wal_add_user J w u io = Inr w' \<Longrightarrow> session J mid did w0 (tys @ [WalAddUser u]) w'"
| remove_user: "session J mid did w0 tys w \<Longrightarrow> wal_remove_user J w u io = Inr (balances, w') \<Longrightarrow>
    session J mid did w0 (tys @ [WalRemoveUser u]) w'"
| deposit: "session J mid did w0 tys w \<Longrightarrow> wal_deposit_balance J w u a n io = Inr (done, w') \<Longrightarrow>
    session J mid did w0 (tys @ [WalDepositBalance u a n]) w'"
| withdraw: "session J mid did w0 tys w \<Longrightarrow> wal_withdraw_balance J w u a n io = Inr (done, w') \<Longrightarrow>
    session J mid did w0 (tys @ [WalWithdrawBalance u a n]) w'"
| restart: "session J mid did w0 tys w \<Longrightarrow> reads_back w D \<Longrightarrow>
    wal_engine_new J mid did path D c = Inr (Inr w', c') \<Longrightarrow> session J mid did w0 tys w'"

text \<open>What the log holds: entries whose replay on \<open>e0\<close> leads to an engine that agrees with \<open>w\<close>.\<close>

definition recoverable :: "codec \<Rightarrow> core_engine \<Rightarrow> wal_entry_type list \<Rightarrow> wal_engine \<Rightarrow> bool" where
  "recoverable J e0 tys w \<longleftrightarrow> (\<exists>es. log_of J es (ww_file (we_writer w)) \<and> map w_entry es = tys \<and>
     counted es \<and> ww_seq (we_writer w) = of_nat (length es) \<and>
     (\<forall>d. agrees (\<lambda>(e, s, _). same_engine e (we_inner w) \<and> s = fold (\<lambda>x s. higher_seq s x) es 0)
       (replay_entries es e0 0 d)))"

text \<open>A logged operation appends one line.\<close>

lemma logged_line:
  assumes "logged J w ty w'" and "encodes J (ww_seq (we_writer w) + 1) ty"
  obtains x b where "line_of J x b" and "w_seq x = ww_seq (we_writer w) + 1" and "w_entry x = ty"
    and "ww_file (we_writer w') = ww_file (we_writer w) @ b @ [10]" and "ww_seq (we_writer w') = ww_seq (we_writer w) + 1"
proof -
  from assms(1) obtain io s where wr: "wal_write J (we_writer w) (wal_entry_new 0 ty) io = Inr (Inr s, we_writer w')"
    by (auto simp: logged_def)
  from assms(2) obtain x b where x: "line_of J x b" "w_seq x = ww_seq (we_writer w) + 1" "w_entry x = ty"
    and line: "\<forall>io. wal_write J (we_writer w) (wal_entry_new 0 ty) io =
      Inr (append_line (we_writer w\<lparr>ww_seq := ww_seq (we_writer w) + 1\<rparr>) (b @ [10]) io)"
    by (rule wal_write_line)
  have "append_line (we_writer w\<lparr>ww_seq := ww_seq (we_writer w) + 1\<rparr>) (b @ [10]) io = (Inr s, we_writer w')"
    using wr line by simp
  then have "we_writer w' = we_writer w\<lparr>ww_seq := ww_seq (we_writer w) + 1, ww_file := ww_file (we_writer w) @ b @ [10]\<rparr>"
    by (auto simp: append_line_def split: io_outcome.splits if_splits)
  with x show ?thesis by (intro that [of x b]) simp_all
qed

lemma recoverable_logged:
  assumes "recoverable J e0 tys w" and "logged J w ty w'" and "encodes J (of_nat (length tys) + 1) ty"
  shows "recoverable J e0 (tys @ [ty]) w'"
proof -
  from assms(1) obtain es where es: "log_of J es (ww_file (we_writer w))" "map w_entry es = tys" "counted es"
    "ww_seq (we_writer w) = of_nat (length es)"
    and replay: "\<forall>d. agrees (\<lambda>(e, s, _). same_engine e (we_inner w) \<and> s = fold (\<lambda>x s. higher_seq s x) es 0)
      (replay_entries es e0 0 d)" by (auto simp: recoverable_def)
  from assms(2) have eff: "effect ty (we_inner w) (we_inner w')" by (simp add: logged_def)
  have "encodes J (ww_seq (we_writer w) + 1) ty" using assms(3) es(2,4) by (metis length_map)
  from logged_line [OF assms(2) this] obtain x b where
    x: "line_of J x b" "w_seq x = ww_seq (we_writer w) + 1" "w_entry x = ty"
    and grown: "ww_file (we_writer w') = ww_file (we_writer w) @ b @ [10]"
    and seq: "ww_seq (we_writer w') = ww_seq (we_writer w) + 1" .
  show ?thesis
    unfolding recoverable_def
  proof (intro exI [of _ "es @ [x]"] conjI allI)
    show "log_of J (es @ [x]) (ww_file (we_writer w'))" unfolding grown by (rule log_of_append [OF es(1) x(1)])
    show "counted (es @ [x])" using counted_append [OF es(3)] x(2) es(4) by simp
    show "agrees (\<lambda>(e, s, _). same_engine e (we_inner w') \<and> s = fold (\<lambda>x s. higher_seq s x) (es @ [x]) 0)
        (replay_entries (es @ [x]) e0 0 d)" for d
      unfolding replay_entries_append agrees_and_then
    proof (rule agrees_mono [OF replay [rule_format, of d]], clarify)
      fix e s d1
      assume e: "same_engine e (we_inner w)"
      have "agrees (\<lambda>(e3, _). same_engine e3 (we_inner w')) (replay_entry e x d1)"
        using eff e x(3) by (simp add: effect_def)
      then show "agrees (\<lambda>(e, s, _). same_engine e (we_inner w') \<and> s = fold (\<lambda>x s. higher_seq s x) (es @ [x]) 0)
          (replay_entries [x] e (fold (\<lambda>x s. higher_seq s x) es 0) d1)"
        unfolding replay_entries.simps agrees_and_then by (rule agrees_mono) auto
    qed
  qed (use es(2,4) x(3) seq in simp_all)
qed

lemma numbered_snoc: "numbered s (tys @ [ty]) = numbered s tys @ [(s + of_nat (length tys) + 1, ty)]"
  by (induction tys arbitrary: s) (simp_all add: ac_simps)

text \<open>Starting on a recoverable log: the engine replay leads to, or a fault of the clock.\<close>

lemma restart_recoverable:
  assumes rec: "recoverable J e0 tys w" and e0: "core_new m d = Inr e0" and small: "length tys < 2 ^ 64"
    and disk: "reads_back w D"
  shows "case wal_engine_new J m d path D c of
      Inr (Inr w2, _) \<Rightarrow> same_engine (we_inner w2) (we_inner w) \<and>
        ww_file (we_writer w2) = ww_file (we_writer w) \<and> ww_seq (we_writer w2) = ww_seq (we_writer w)
    | Inr (Inl _, _) \<Rightarrow> False
    | Inl f \<Rightarrow> clock_fault f"
proof -
  from rec obtain es where
    es: "log_of J es (ww_file (we_writer w))" "map w_entry es = tys" "counted es" "ww_seq (we_writer w) = of_nat (length es)"
    and replay: "agrees (\<lambda>(e, s, _). same_engine e (we_inner w) \<and> s = fold (\<lambda>x s. higher_seq s x) es 0)
      (replay_entries es e0 0 c)" by (auto simp: recoverable_def)
  have "wal_entries J (byte_lines (ww_file (we_writer w))) = Inr es"
    using read_log_append [OF es(1), of "[]"] by (simp add: read_log_def wal_entries.simps [of J "[]"])
  from replay_log_entries [OF this] have run:
    "replay_log J (byte_lines (ww_file (we_writer w))) e0 0 c = replay_entries es e0 0 c" .
  have "length es < 2 ^ 64" using es(2) small by (metis length_map)
  with es(3,4) have seq: "fold (\<lambda>x s. higher_seq s x) es 0 = ww_seq (we_writer w)" by (simp add: counted_highest)
  show ?thesis
  proof (cases "replay_entries es e0 0 c")
    case (Inl f)
    with replay e0 run disk show ?thesis by (simp add: wal_engine_new_def agrees_def reads_back_def)
  next
    case (Inr r)
    obtain e s c' where r: "r = (e, s, c')" by (cases r)
    with replay Inr seq have "same_engine e (we_inner w)" "s = ww_seq (we_writer w)" by simp_all
    with Inr r e0 run disk show ?thesis
      by (simp add: wal_engine_new_def wal_writer_new_def set_seq_def reads_back_def)
  qed
qed

lemma recoverable_cong:
  assumes "recoverable J e0 tys w" and "same_engine (we_inner w') (we_inner w)"
    and "ww_file (we_writer w') = ww_file (we_writer w)" and "ww_seq (we_writer w') = ww_seq (we_writer w)"
  shows "recoverable J e0 tys w'"
proof -
  have "same_engine e (we_inner w') = same_engine e (we_inner w)" for e
    using assms(2) by (simp add: same_engine_def)
  with assms show ?thesis by (simp add: recoverable_def)
qed

lemma session_recoverable:
  assumes "session J m d w0 tys w" and "recoverable J e0 [] w0" and "core_new m d = Inr e0"
    and "\<forall>(s, ty) \<in> set (numbered 0 tys). encodes J s ty" and "length tys < 2 ^ 64"
  shows "recoverable J e0 tys w"
  using assms
proof (induction rule: session.induct)
  case (next_id tys w c i w' c')
  then have "we_writer w' = we_writer w" "same_engine (we_inner w') (we_inner w)"
    by (auto simp: wal_next_id_def core_next_id_def and_then_Inr same_engine_def)
  with next_id show ?case by (auto intro: recoverable_cong)
next
  case (restart tys w D path c w' c')
  then have rec: "recoverable J e0 tys w" by blast
  from restart_recoverable [OF rec restart.prems(2,4) restart.hyps(2), of path c] restart.hyps(3) rec
  show ?case by (auto intro: recoverable_cong)
qed (auto simp: numbered_snoc intro: recoverable_logged logged_pairs logged_add logged_cancel logged_modify logged_users)

section \<open>Recovery\<close>

text \<open>The engine a start on an absent or empty log gives.\<close>

lemma fresh_start:
  assumes "wal_engine_new J m d path D c0 = Inr (Inr w0, c1)" and "d_file D = None \<or> d_file D = Some []"
  shows "\<exists>e0. core_new m d = Inr e0 \<and> recoverable J e0 [] w0"
proof -
  have "log_of J [] []" by (auto simp: log_of_def file_of_def intro!: exI [of _ "[]"])
  moreover have "replay_log J [] e s c = Inr (e, s, c)" for e s c by (simp add: replay_log.simps [of J "[]"])
  ultimately show ?thesis using assms
    by (auto simp: wal_engine_new_def and_then_Inr wal_writer_new_def set_seq_def recoverable_def
        split: option.splits)
qed

text \<open>
  C4. Recovery rebuilds the engine. Take any life of the logged engine that began with an empty log:
  pairs and users added and removed, orders placed, cancelled and modified, deposits and withdrawals,
  successful or refused, with any clock and any write outcomes with which they returned, and any
  number of restarts in between. Starting again on the log file it left, with any clock, yields an
  engine with the same books, the same accounts, balances and locks, up to the time stamps of orders,
  which continues the log where it ended; the only other outcome is a fault of the clock itself.
\<close>

theorem recovery_rebuilds_engine:
  assumes "wal_engine_new J m d path D c0 = Inr (Inr w0, c1)" and "d_file D = None \<or> d_file D = Some []"
    and "session J m d w0 tys w"
    and "\<forall>(s, ty) \<in> set (numbered 0 tys). encodes J s ty" and "length tys < 2 ^ 64"
    and "reads_back w D'"
  shows "case wal_engine_new J m d path' D' c of
      Inr (Inr w2, _) \<Rightarrow> same_engine (we_inner w2) (we_inner w) \<and>
        ww_file (we_writer w2) = ww_file (we_writer w) \<and> ww_seq (we_writer w2) = ww_seq (we_writer w)
    | Inr (Inl _, _) \<Rightarrow> False
    | Inl f \<Rightarrow> clock_fault f"
proof -
  from fresh_start [OF assms(1,2)] obtain e0 where e0: "core_new m d = Inr e0" and "recoverable J e0 [] w0" by blast
  from session_recoverable [OF assms(3) this(2) e0 assms(4,5)] show ?thesis
    using restart_recoverable e0 assms(5,6) by blast
qed

definition sample_disk :: "u8 list option \<Rightarrow> disk" where
  "sample_disk file = \<lparr>d_file = file, d_read_error = None, d_open_error = None, d_sync = None\<rparr>"

theorem recovery_rebuilds_engine_witness:
  "\<exists>w2 c'. wal_engine_new sample_codec 1 1 ''engine.wal'' (sample_disk (Some [123, 49, 125, 10])) [] = Inr (Inr w2, c') \<and>
     users (we_inner w2) = [(7, user_new (Some 7) 0)] \<and> ww_seq (we_writer w2) = 1"
proof -
  let ?empty = "\<lparr>orderbooks = [], users = [], ids = \<lparr>machine_id = 1, datacenter_id = 1, sequence = 0, last_timestamp = 0\<rparr>\<rparr>"
  let ?fresh = "\<lparr>we_inner = ?empty, we_writer = \<lparr>ww_file = [], ww_seq = 0, ww_sync = False\<rparr>\<rparr>"
  let ?later = "\<lparr>we_inner = core_add_user ?empty 7, we_writer = \<lparr>ww_file = [123, 49, 125, 10], ww_seq = 1, ww_sync = False\<rparr>\<rparr>"
  have new: "wal_engine_new sample_codec 1 1 ''engine.wal'' (sample_disk None) [] = Inr (Inr ?fresh, [])"
    by code_simp
  have "wal_write sample_codec (we_writer ?fresh) (wal_entry_new 0 (WalAddUser 7)) Written = Inr (Inr 1, we_writer ?later)"
    by (simp add: wal_write_def sample_codec_def wal_entry_new_def compute_checksum_def append_line_def Let_def)
  then have "wal_add_user sample_codec ?fresh 7 Written = Inr ?later"
    by (simp add: wal_add_user_def log_entry_def)
  then have run: "session sample_codec 1 1 ?fresh [WalAddUser 7] ?later"
    using session.add_user [OF session.start, of sample_codec ?fresh 7 Written ?later 1 1] by simp
  have "\<forall>(s, ty) \<in> set (numbered 0 [WalAddUser 7]). encodes sample_codec s ty" using sample_encodes(1) by simp
  note recovered = recovery_rebuilds_engine [OF new _ run this, of "sample_disk (Some [123, 49, 125, 10])" "''engine.wal''" "[]"]
  have "case wal_engine_new sample_codec 1 1 ''engine.wal'' (sample_disk (Some [123, 49, 125, 10])) [] of
      Inr (Inr w2, _) \<Rightarrow> True | _ \<Rightarrow> False" by code_simp
  then obtain w2 c' where w2: "wal_engine_new sample_codec 1 1 ''engine.wal'' (sample_disk (Some [123, 49, 125, 10])) [] = Inr (Inr w2, c')"
    by (auto split: sum.splits)
  with recovered have "same_engine (we_inner w2) (core_add_user ?empty 7)" "ww_seq (we_writer w2) = 1"
    by (simp_all add: sample_disk_def reads_back_def)
  with w2 show ?thesis
    by (auto simp: same_engine_def core_add_user_def hm_contains_def hm_insert_def)
qed

end
