(* ===== verification/Process.thy ===== *)
theory Process
  imports Publisher Recovery
begin

text \<open>
  The process as a whole (\<open>main.rs\<close>): it starts an engine from its environment and serves commands until
  it is stopped. What one process wrote to its log, the next one starts from.
\<close>

section \<open>The process\<close>

text \<open>The variables the process reads.\<close>

record environment =
  ev_wal_enabled :: "string option"
  ev_wal_path :: "string option"
  ev_redis_url :: "string option"
  ev_port :: "string option"

datatype exit_status = ExitSuccess | ExitFailure

text \<open>
  \<open>main\<close>: the engine of machine 1 in datacenter 1, the publisher, and the engine task on the commands that
  arrive until the process is interrupted or a command panics. \<open>listens\<close> tells whether an address can
  be parsed and served; \<open>parses\<close> and \<open>connects\<close> are the Redis client's.
\<close>

definition main_run ::
  "codec \<Rightarrow> (string \<Rightarrow> bool) \<Rightarrow> (string \<Rightarrow> bool) \<Rightarrow> (string \<Rightarrow> bool) \<Rightarrow> (string \<Rightarrow> disk) \<Rightarrow> environment \<Rightarrow> clock
     \<Rightarrow> arrival list \<Rightarrow> fault + exit_status \<times> service_run" where
  "main_run J parses connects listens disks env c arrivals =
     and_then (engine_from_env J (ev_wal_enabled env) (ev_wal_path env) disks 1 1 c) (\<lambda>(engine, c).
       let publisher = publisher_new (ev_redis_url env) parses connects;
           port = (case ev_port env of None \<Rightarrow> ''5000'' | Some port \<Rightarrow> port)
       in if listens (''0.0.0.0:'' @ port) then Inr (ExitSuccess, run_engine J (publisher \<noteq> None) engine arrivals)
          else Inr (ExitFailure, run_engine J (publisher \<noteq> None) engine []))"

text \<open>A panic of the engine task shuts the server down, and the process ends as if nothing had happened.\<close>

lemma panic_exits_with_success:
  "main_run J parses connects listens disks env c arrivals = Inr (status, s) \<Longrightarrow> sr_fatal s \<Longrightarrow> status = ExitSuccess"
  by (auto simp: main_run_def and_then_Inr Let_def split: if_splits)

section \<open>What a run logs\<close>

fun entries_of :: "wal_engine \<Rightarrow> engine_command \<Rightarrow> clock \<Rightarrow> reply \<Rightarrow> wal_entry_type list" where
  "entries_of v (SubmitOrder pair ty sd p q u) c r =
     (case and_then (next_id (ids (we_inner v)) c) (\<lambda>(i, g, c). order_new i ty sd Empty p q u c) of
        Inl _ \<Rightarrow> [] | Inr (x, c) \<Rightarrow> [WalAddOrder pair x None])"
| "entries_of v (CancelOrder pair i) c r =
     (case r of CancelReply (Inr ok) \<Rightarrow> [WalCancelOrder pair i ok] | _ \<Rightarrow> [])"
| "entries_of v (ModifyOrder pair m) c r = [WalModifyOrder pair m None]"
| "entries_of v (AddTradingPair pair) c r = [WalAddTradingPair pair]"
| "entries_of v (AddUser u) c r = [WalAddUser u]"
| "entries_of v (RemoveUser u) c r = [WalRemoveUser u]"
| "entries_of v (DepositBalance u a n) c r = [WalDepositBalance u a n]"
| "entries_of v (WithdrawBalance u a n) c r = [WalWithdrawBalance u a n]"
| "entries_of v (GetOrderBook pair) c r = []"
| "entries_of v (GetBalance u a) c r = []"
| "entries_of v (GetTotalBalance u a) c r = []"

fun run_entries :: "codec \<Rightarrow> wal_engine \<Rightarrow> arrival list \<Rightarrow> wal_entry_type list" where
  "run_entries J v [] = []"
| "run_entries J v ((cmd, c, io) # rest) =
     (case exec_command J cmd (WalE v) c io of
        Inr (r, WalE v') \<Rightarrow> entries_of v cmd c r @ run_entries J v' rest
      | _ \<Rightarrow> [])"

lemma exec_session:
  assumes s: "session J m d w0 tys v" and run: "exec_command J cmd (WalE v) c io = Inr (r, w)"
  shows "\<exists>v'. w = WalE v' \<and> session J m d w0 (tys @ entries_of v cmd c r) v'"
proof (cases cmd)
  case (SubmitOrder pair ty sd p q u)
  with run obtain i v1 c1 x c2 res v2 c3 where
    id: "wal_next_id v c = Inr (i, v1, c1)" and new: "order_new i ty sd Empty p q u c1 = Inr (x, c2)"
    and add: "wal_add_order J v1 pair x c2 io = Inr (res, v2, c3)" and w: "w = WalE v2"
    by (auto simp: and_then_Inr)
  from id obtain g where "next_id (ids (we_inner v)) c = Inr (i, g, c1)"
    by (auto simp: wal_next_id_def core_next_id_def and_then_Inr)
  with new have "entries_of v cmd c r = [WalAddOrder pair x None]" by (simp add: SubmitOrder)
  with session.add_order [OF session.next_id [OF s id] add] w show ?thesis by simp
next
  case (CancelOrder pair i)
  with run show ?thesis by (auto simp: and_then_Inr intro: session.cancel_order [OF s])
next
  case (ModifyOrder pair m)
  with run show ?thesis by (auto simp: and_then_Inr intro: session.modify_order [OF s])
next
  case (AddTradingPair pair)
  with run show ?thesis by (auto simp: and_then_Inr intro: session.add_pair [OF s])
next
  case (AddUser u)
  with run show ?thesis by (auto simp: and_then_Inr intro: session.add_user [OF s])
next
  case (RemoveUser u)
  with run show ?thesis by (auto simp: and_then_Inr intro: session.remove_user [OF s])
next
  case (DepositBalance u a n)
  with run show ?thesis by (auto simp: and_then_Inr intro: session.deposit [OF s])
next
  case (WithdrawBalance u a n)
  with run show ?thesis by (auto simp: and_then_Inr intro: session.withdraw [OF s])
qed (use s run in \<open>auto simp: and_then_Inr\<close>)

lemma run_session:
  assumes "session J m d w0 tys v" and "sr_engine (run_engine J on (WalE v) arrivals) = Some w"
  shows "\<exists>v'. w = WalE v' \<and> session J m d w0 (tys @ run_entries J v arrivals) v'"
  using assms
proof (induction arrivals arbitrary: tys v)
  case (Cons a arrivals)
  obtain cmd c io where a: "a = (cmd, c, io)" by (cases a)
  show ?case
  proof (cases "exec_command J cmd (WalE v) c io")
    case (Inl f)
    with Cons.prems(2) show ?thesis by (cases f) (simp_all add: a)
  next
    case (Inr x)
    obtain r w1 where x: "x = (r, w1)" by (cases x)
    from exec_session [OF Cons.prems(1) Inr [unfolded x]] obtain v1 where
      v1: "w1 = WalE v1" "session J m d w0 (tys @ entries_of v cmd c r) v1" by blast
    with Cons.IH [OF v1(2)] Cons.prems(2) Inr show ?thesis by (simp add: a x Let_def)
  qed
qed auto

text \<open>A first run that adds a user and asks for a balance, on an absent log.\<close>

definition sample_fresh :: wal_engine where
  "sample_fresh =
     \<lparr>we_inner = \<lparr>orderbooks = [], users = [],
        ids = \<lparr>machine_id = 1, datacenter_id = 1, sequence = 0, last_timestamp = 0\<rparr>\<rparr>,
      we_writer = \<lparr>ww_file = [], ww_seq = 0, ww_sync = False\<rparr>\<rparr>"

definition sample_later :: wal_engine where
  "sample_later =
     \<lparr>we_inner = core_add_user (we_inner sample_fresh) 7,
      we_writer = \<lparr>ww_file = [123, 49, 125, 10], ww_seq = 1, ww_sync = False\<rparr>\<rparr>"

definition sample_commands :: "arrival list" where
  "sample_commands = [(AddUser 7, [], Written), (GetBalance 7 ETH, [], Written)]"

lemma sample_starts:
  "engine_from_env sample_codec (Some ''true'') (Some ''x'') (\<lambda>_. sample_disk None) 1 1 [] = Inr (WalE sample_fresh, [])"
  unfolding sample_fresh_def by code_simp

lemma sample_run:
  "sr_engine (run_engine sample_codec True (WalE sample_fresh) sample_commands) = Some (WalE sample_later)"
  "run_entries sample_codec sample_fresh sample_commands = [WalAddUser 7]"
proof -
  have "wal_write sample_codec (we_writer sample_fresh) (wal_entry_new 0 (WalAddUser 7)) Written =
      Inr (Inr 1, we_writer sample_later)"
    by (simp add: wal_write_def sample_codec_def wal_entry_new_def compute_checksum_def append_line_def Let_def
        sample_fresh_def sample_later_def)
  then have "wal_add_user sample_codec sample_fresh 7 Written = Inr sample_later"
    by (simp add: wal_add_user_def log_entry_def sample_later_def)
  then show "sr_engine (run_engine sample_codec True (WalE sample_fresh) sample_commands) = Some (WalE sample_later)"
    "run_entries sample_codec sample_fresh sample_commands = [WalAddUser 7]"
    by (simp_all add: sample_commands_def Let_def)
qed

lemma sample_reads_back: "reads_back sample_later (sample_disk (Some [123, 49, 125, 10]))"
  by (simp add: reads_back_def sample_disk_def sample_later_def)

lemma sample_restarts:
  "\<exists>w2 c'. engine_from_env sample_codec (Some ''true'') (Some ''x'') (\<lambda>_. sample_disk (Some [123, 49, 125, 10])) 1 1 [] = Inr (w2, c')"
proof -
  have "case engine_from_env sample_codec (Some ''true'') (Some ''x'') (\<lambda>_. sample_disk (Some [123, 49, 125, 10])) 1 1 [] of
      Inr _ \<Rightarrow> True | _ \<Rightarrow> False" by code_simp
  then show ?thesis by (auto split: sum.splits)
qed

section \<open>Restarting the service\<close>

text \<open>
  C9. A restart resumes the service. Let the process run on a log that was empty when the first of its
  predecessors started, serve any commands, none of which panics, and stop; start it again on the log
  it left. The new process has the books, accounts, balances and locks of the old one at its end, up to
  the time stamps of orders and the state of the generator, whatever the clock
  says, and whatever was restarted before; only a clock fault can keep it from starting.
\<close>

theorem restart_resumes_service:
  fixes path :: string
  assumes "engine_from_env J (Some ''true'') (Some path) disks m d c0 = Inr (WalE w0, c1)"
    and "d_file (disks path) = None \<or> d_file (disks path) = Some []"
    and "session J m d w0 tys v"
    and "sr_engine (run_engine J on (WalE v) arrivals) = Some (WalE w)"
    and "\<forall>(s, ty) \<in> set (numbered 0 (tys @ run_entries J v arrivals)). encodes J s ty"
    and "length (tys @ run_entries J v arrivals) < 2 ^ 64"
    and "reads_back w (disks' path)"
  shows "case engine_from_env J (Some ''true'') (Some path) disks' m d c of
      Inr (w2, _) \<Rightarrow> same_engine (inner_of w2) (inner_of (WalE w)) | Inl f \<Rightarrow> clock_fault f"
proof -
  from assms(1) obtain r k where "wal_engine_new J m d path (disks path) c0 = Inr (r, k)"
    and "(case r of Inl msg \<Rightarrow> Inl (Panic (WalUnavailable msg)) | Inr w \<Rightarrow> Inr (WalE w, k)) = Inr (WalE w0, c1)"
    by (auto simp: engine_from_env_def and_then_Inr)
  then have "wal_engine_new J m d path (disks path) c0 = Inr (Inr w0, c1)" by (cases r) simp_all
  from fresh_start [OF this assms(2)] obtain e0 where e0: "core_new m d = Inr e0" and "recoverable J e0 [] w0" by blast
  with run_session [OF assms(3,4)] session_recoverable [OF _ _ e0 assms(5,6)] have "recoverable J e0 (tys @ run_entries J v arrivals) w"
    by auto
  from restart_recoverable [OF this e0 assms(6,7), of path c] show ?thesis
    by (auto simp: engine_from_env_def split: sum.splits)
qed

theorem restart_resumes_service_witness:
  "\<exists>w2 c'. engine_from_env sample_codec (Some ''true'') (Some ''x'') (\<lambda>_. sample_disk (Some [123, 49, 125, 10])) 1 1 [] = Inr (w2, c') \<and>
     users (inner_of w2) = [(7, user_new (Some 7) 0)]"
proof -
  obtain w2 c' where w2: "engine_from_env sample_codec (Some ''true'') (Some ''x'')
      (\<lambda>_. sample_disk (Some [123, 49, 125, 10])) 1 1 [] = Inr (w2, c')" using sample_restarts by blast
  note run = sample_run(1)
  have encoded: "\<forall>(s, ty) \<in> set (numbered 0 ([] @ run_entries sample_codec sample_fresh sample_commands)). encodes sample_codec s ty"
    using sample_encodes(1) by (simp add: sample_run)
  have "length ([] @ run_entries sample_codec sample_fresh sample_commands) < 2 ^ 64" by (simp add: sample_run)
  note again = restart_resumes_service [OF sample_starts _ session.start run encoded this,
      where disks' = "\<lambda>_. sample_disk (Some [123, 49, 125, 10])" and c = "[]"]
  have "d_file (sample_disk None) = None" by (simp add: sample_disk_def)
  from again [OF disjI1 [OF this] sample_reads_back] have "same_engine (inner_of w2) (we_inner sample_later)"
    by (simp only: w2 sum.case prod.case inner_of.simps)
  with w2 show ?thesis
    by (auto simp: same_engine_def sample_later_def sample_fresh_def core_add_user_def hm_contains_def hm_insert_def)
qed

end
