(* ===== verification/Liveness.thy ===== *)
theory Liveness
  imports Exchange
begin

text \<open>
  Placing an order returns. Every fill draws one identifier and one time stamp, no order is filled
  twice in a placement without one of the two leaving the book, and so a clock that keeps ticking
  needs to give only two readings per resting order, and four more.
\<close>

section \<open>A ticking clock\<close>

text \<open>Every reading is a millisecond later than the one before, the first later than \<open>t\<close>.\<close>

fun ticking :: "u64 \<Rightarrow> clock \<Rightarrow> bool" where
  "ticking t [] = True"
| "ticking t (r # c) \<longleftrightarrow> 0 \<le> r \<and> t < millis r \<and> ticking (millis r) c"

lemma ticking_mono: "ticking t c \<Longrightarrow> s \<le> t \<Longrightarrow> ticking s c"
  by (cases c) auto

lemma next_id_ticking:
  "ticking (last_timestamp g) (r # c) \<Longrightarrow>
     \<exists>i. next_id g (r # c) = Inr (i, g\<lparr>sequence := 0, last_timestamp := millis r\<rparr>, c)"
  by (auto simp: next_id_def current_millis_def Let_def)

lemma stamp_ticking:
  assumes "ticking (last_timestamp g) (r # r' # c)"
  shows "\<exists>s g'. stamp g (r # r' # c) = Inr (s, g', c) \<and> ticking (last_timestamp g') c"
proof -
  obtain i where "next_id g (r # r' # c) = Inr (i, g\<lparr>sequence := 0, last_timestamp := millis r\<rparr>, r' # c)"
    using next_id_ticking [OF assms] by blast
  moreover have "now_nanos (r' # c) = Inr (word_of_int r', c)" using assms by (simp add: now_nanos_def)
  moreover have "ticking (millis r) c" using assms by (auto intro: ticking_mono)
  ultimately show ?thesis by (simp add: stamp_def)
qed

lemma draw_ticking:
  "ticking (last_timestamp g) c \<Longrightarrow> 2 * n \<le> length c \<Longrightarrow>
     \<exists>ss g'. draw stamp n g c = Inr (ss, g', drop (2 * n) c) \<and> ticking (last_timestamp g') (drop (2 * n) c)"
proof (induction n arbitrary: g c)
  case (Suc n)
  from Suc.prems(2) obtain r r' c1 where c: "c = r # r' # c1" by (cases c; cases "tl c") auto
  from stamp_ticking [OF Suc.prems(1) [unfolded c]] obtain s g1 where
    "stamp g c = Inr (s, g1, c1)" "ticking (last_timestamp g1) c1" unfolding c by blast
  with Suc.IH [of g1 c1] Suc.prems(2) show ?case by (auto simp: c)
qed simp

section \<open>How many stamps a placement draws\<close>

definition stops_within :: "nat \<Rightarrow> generator \<Rightarrow> clock \<Rightarrow> fault \<Rightarrow> bool" where
  "stops_within k g c e \<longleftrightarrow> (\<exists>n \<le> k. draw stamp n g c = Inl e)"

lemma stops_within_not:
  assumes "stops_within k g c e" and "ticking (last_timestamp g) c" and "2 * k \<le> length c"
  shows False
proof -
  from assms(1) obtain n where "n \<le> k" "draw stamp n g c = Inl e" by (auto simp: stops_within_def)
  with draw_ticking [OF assms(2), of n] assms(3) show False by auto
qed

lemma stops_within_mono: "stops_within k g c e \<Longrightarrow> k \<le> l \<Longrightarrow> stops_within l g c e"
  unfolding stops_within_def using le_trans by blast

lemma stops_within_now: "stamp g c = Inl e \<Longrightarrow> stops_within (Suc k) g c e"
  unfolding stops_within_def by (intro exI [of _ 1]) simp

lemma stops_within_step:
  assumes "stamp g c = Inr (s, g1, c1)" and "stops_within k g1 c1 e"
  shows "stops_within (Suc k) g c e"
proof -
  from assms(2) obtain n where "n \<le> k" "draw stamp n g1 c1 = Inl e" by (auto simp: stops_within_def)
  with assms(1) have "draw stamp (Suc n) g c = Inl e" by simp
  with \<open>n \<le> k\<close> show ?thesis unfolding stops_within_def by (intro exI [of _ "Suc n"]) simp
qed

lemma stops_within_later:
  "issues g c xs g1 c1 \<Longrightarrow> stops_within k g1 c1 e \<Longrightarrow> stops_within (length xs + k) g c e"
proof (induction xs arbitrary: g c)
  case (Cons t xs)
  then obtain g2 c2 where "stamp g c = Inr (stamp_of t, g2, c2)" "issues g2 c2 xs g1 c1"
    by (auto simp: issues_def and_then_Inr)
  with Cons show ?case by (auto intro: stops_within_step)
qed simp

lemma match_level_within:
  "match_level sd bp ap nb na opp same bids asks om ts g c = Inl e \<Longrightarrow>
     stops_within (length bids + length asks) g c e"
  "match_level sd bp ap nb na opp same bids asks om ts g c = Inr (f, bids', asks', om', ts', g', c') \<Longrightarrow>
     length ts' + (length bids' + length asks') \<le> length ts + (length bids + length asks)"
proof (induction opp same bids asks om ts g c
    rule: match_level_induct [where sd = sd and nb = nb and na = na and bp = bp and ap = ap])
  case (Fault opp same b bs a as om ts g c e')
  { case 1 with Fault show ?case by (auto simp: match_level_other dest: match_front_stamp intro: stops_within_now) }
  { case 2 with Fault show ?case by (simp add: match_level_other) }
next
  case (Fill opp same b bs a as om ts g c bs1 as1 om1 t g1 c1)
  note short = match_front_shorter [OF Fill.hyps(2)]
  { case 1
    with Fill have "stops_within (length bs1 + length as1) g1 c1 e" by (simp add: match_level_other)
    from stops_within_step [OF match_front_stamp(1) [OF Fill.hyps(2)] this] have
      "stops_within (Suc (length bs1 + length as1)) g c e" .
    from stops_within_mono [OF this] short show ?case by simp }
  { case 2 with Fill short show ?case by (simp add: match_level_other) }
qed (auto simp: match_level_self rot_bids_def rot_asks_def split: side.splits)

definition crowd :: "abstract_book \<Rightarrow> nat" where
  "crowd s = (case s of (B, A, om) \<Rightarrow> size B + size A)"

lemma match_loop_within:
  assumes "match_loop sd bk sl ts g c = Inl e" and "book_levels_ok bk" and "aside_ok sd (opposite_map sd bk) sl"
  shows "stops_within (crowd (loop_view sd bk sl)) g c e"
  using assms
proof (induction bk sl ts g c rule: match_loop_induct [where sd = sd])
  case (Stop bk sl ts g c)
  then show ?case by (simp add: match_loop_stop)
next
  case (Fault bk sl ts g c bp bids ap asks e')
  obtain bk1 sl1 where "after_level sd bp ap bk sl False [] [] (orders_map bk) = (bk1, sl1)" by fastforce
  from after_level_view [OF Fault.prems(2) Fault.hyps(1,2) this] obtain B A where
    "loop_view sd bk sl = (mset bids + B, mset asks + A, orders_map bk)" by blast
  with match_level_within(1) [OF Fault.hyps(4)] Fault.prems(1) Fault.hyps(5) show ?case
    by (auto simp: crowd_def elim: stops_within_mono)
next
  case (Level bk sl ts g c bp bids ap asks f bids1 asks1 om1 ts1 g1 c1 bk1 sl1)
  have "bm_ok (bids_map bk)" "bm_ok (asks_map bk)" and lok: "levels_ok Buy (bids_map bk)" "levels_ok Sell (asks_map bk)"
    using Level.prems(2) by (simp_all add: book_levels_ok_def levels_ok_def)
  then have priced: "priced bp Buy bids" "priced ap Sell asks"
    using levels_ok_get bs.highest_Some [OF _ Level.hyps(1)] bs.lowest_Some [OF _ Level.hyps(2)] by blast+
  from match_level_crossings [OF Level.hyps(4) priced Level.hyps(3)] have
    priced1: "priced bp Buy bids1" "priced ap Sell asks1" by blast+
  note ok1 = after_level_ok [OF Level.prems(2,3) Level.hyps(1,2,4,5) priced1]
  obtain B A where view: "loop_view sd bk sl = (mset bids + B, mset asks + A, orders_map bk)"
    "loop_view sd bk1 sl1 = (mset bids1 + B, mset asks1 + A, om1)"
    using after_level_view [OF Level.prems(2) Level.hyps(1,2,5)] by blast
  obtain new where new: "ts1 = ts @ new" "issues g c new g1 c1" using match_level_issues(1) [OF Level.hyps(4)] by blast
  have "stops_within (crowd (loop_view sd bk1 sl1)) g1 c1 e" using Level.IH Level.prems(1) Level.hyps(6) ok1 by simp
  from stops_within_mono [OF stops_within_later [OF new(2) this]] match_level_within(2) [OF Level.hyps(4)]
  show ?case by (simp add: view crowd_def new(1))
qed

lemma fill_front_popped:
  assumes "fill_front x r y ys om g c = Inr (r1, ys1, om1, t, g1, c1)" and "r1 \<noteq> 0"
  shows "ys1 = ys"
proof -
  have "o_remaining y \<le> r" using assms fill_front_Inr(1) [OF assms(1)] by (auto simp: min_def split: if_splits)
  then show ?thesis by (simp add: fill_front_Inr(2) [OF assms(1)] min_absorb2 is_filled_def fills_remaining)
qed

lemma fill_level_within:
  "fill_level x n skipped r ys om ts g c = Inl e \<Longrightarrow> stops_within (length ys) g c e"
  "fill_level x n skipped r ys om ts g c = Inr (f, r', ys', om', ts', g', c') \<Longrightarrow> r' \<noteq> 0 \<Longrightarrow>
     length ts' + length ys' \<le> length ts + length ys"
proof (induction skipped r ys om ts g c rule: fill_level_induct [where x = x and n = n])
  case (Fault skipped r y ys om ts g c e')
  { case 1 with Fault show ?case by (auto simp: fill_level_other dest: fill_front_stamp intro: stops_within_now) }
  { case 2 with Fault show ?case by (simp add: fill_level_other) }
next
  case (Fill skipped r y ys om ts g c r1 ys1 om1 t g1 c1)
  note popped = fill_front_popped [OF Fill.hyps(3)]
  { case 1
    with Fill.hyps have run: "fill_level x n skipped r1 ys1 om1 (ts @ [t]) g1 c1 = Inl e" by (simp add: fill_level_other)
    then have "ys1 = ys" using popped by (cases "r1 = 0") simp_all
    with stops_within_step [OF fill_front_stamp(1) [OF Fill.hyps(3)] Fill.IH(1) [OF run]] show ?case by simp }
  { case 2
    with Fill.hyps have run: "fill_level x n skipped r1 ys1 om1 (ts @ [t]) g1 c1 = Inr (f, r', ys', om', ts', g', c')"
      by (simp add: fill_level_other)
    with 2(2) have "ys1 = ys" using popped by (cases "r1 = 0") auto
    with Fill.IH(2) [OF run 2(2)] show ?case by simp }
qed (auto simp: fill_level_self split: if_splits)

lemma fill_level_priced:
  "fill_level x n skipped r ys om ts g c = Inr (f, r', ys', om', ts', g', c') \<Longrightarrow> priced p s ys \<Longrightarrow> priced p s ys'"
proof (induction skipped r ys om ts g c rule: fill_level_induct [where x = x and n = n])
  case (Fill skipped r y ys om ts g c r1 ys1 om1 t g1 c1)
  with fill_front_frame(1) [OF Fill.hyps(3)] show ?case by (simp add: fill_level_other)
qed (auto simp: fill_level_self fill_level_other split: if_splits)

lemma fill_loop_within:
  assumes "fill_loop x r bk sl ts g c = Inl e" and "book_levels_ok bk"
    and "aside_ok (o_side x) (opposite_map (o_side x) bk) sl"
  shows "stops_within (size (orders_of sl + orders_of (opposite_map (o_side x) bk))) g c e"
  using assms
proof (induction r bk sl ts g c rule: fill_loop_induct [where x = x])
  case (Stop r bk sl ts g c)
  then show ?case by (simp add: fill_loop_stop)
next
  case (Fault r bk sl ts g c p ys e')
  obtain bk1 sl1 where after: "after_fill (o_side x) p bk sl False [] (orders_map bk) = (bk1, sl1)" by fastforce
  have "priced p (other_side (o_side x)) []" by simp
  from after_fill_ok(2) [OF Fault.prems(2,3) Fault.hyps(2) after this] obtain Y where
    "orders_of sl + orders_of (opposite_map (o_side x) bk) = mset ys + Y" by blast
  with fill_level_within(1) [OF Fault.hyps(4)] Fault.prems(1) Fault.hyps(5) show ?case
    by (auto elim: stops_within_mono)
next
  case (Level r bk sl ts g c p ys f r1 ys1 om1 ts1 g1 c1 bk1 sl1)
  let ?sd = "o_side x"
  note best = Level.hyps(2) and lv = Level.hyps(4)
  have "priced p (other_side ?sd) ys"
    using levels_ok_get [OF opposite_levels_ok best_opposite_get] Level.prems(2) best by blast
  with fill_level_priced [OF lv] have priced1: "priced p (other_side ?sd) ys1" by blast
  have "f \<Longrightarrow> ys1 \<noteq> []" using lv by (auto dest: fill_level_all_self)
  note after = after_fill_ok [OF Level.prems(2,3) best Level.hyps(5) priced1 this]
  obtain Y where Y: "orders_of sl + orders_of (opposite_map ?sd bk) = mset ys + Y"
    "orders_of sl1 + orders_of (opposite_map ?sd bk1) = mset ys1 + Y" using after(2) by blast
  from Level.prems(1) Level.hyps(6) have run: "fill_loop x r1 bk1 sl1 ts1 g1 c1 = Inl e" by simp
  then have r1: "r1 \<noteq> 0" by (auto simp: fill_loop_stop fill_stops_def)
  obtain new where new: "ts1 = ts @ new" "issues g c new g1 c1" using fill_level_issues(1) [OF lv] by blast
  from Level.IH [OF run] after(1) have "stops_within (size (mset ys1 + Y)) g1 c1 e" by (simp add: Y(2))
  from stops_within_mono [OF stops_within_later [OF new(2) this]] fill_level_within(2) [OF lv r1]
  show ?case by (simp add: Y(1) new(1))
qed

section \<open>Placing an order\<close>

lemma match_order_within:
  assumes "match_order bk sd g c = Inl e" and "book_levels_ok bk"
  shows "stops_within (size (book_orders bk)) g c e"
proof -
  have "match_loop sd bk [] [] g c = Inl e" using assms(1) by (auto simp: match_order_def and_then_Inl)
  from match_loop_within [OF this assms(2)] show ?thesis
    by (cases sd) (simp_all add: crowd_def loop_view_def book_orders_def)
qed

lemma match_against_opposite_within:
  assumes "match_against_opposite bk x full g c = Inl e" and "clock_fault e" and "book_levels_ok bk"
  shows "stops_within (size (book_orders bk)) g c e"
proof -
  have "fill_loop x (o_remaining x) bk [] [] g c = Inl e"
    using assms(1,2) by (auto simp: match_against_opposite_def and_then_Inl Let_def clock_fault_def split: if_splits)
  from fill_loop_within [OF this assms(3)] have
    "stops_within (size (orders_of (opposite_map (o_side x) bk))) g c e" by simp
  then show ?thesis
    by (rule stops_within_mono) (cases "o_side x"; simp add: opposite_map_def book_orders_def)
qed

lemma add_order_within:
  assumes "add_order bk x g c = Inl e" and "clock_fault e" and "book_ok bk" and "o_remaining x \<noteq> 0"
  shows "stops_within (Suc (book_size bk)) g c e"
proof (cases "immediate (o_type x)")
  case True
  with assms(1) obtain full where "match_against_opposite bk x full g c = Inl e"
    by (auto simp: add_order_def immediate_def split: if_splits)
  from match_against_opposite_within [OF this assms(2)] assms(3) show ?thesis
    by (auto simp: book_ok_def book_size_def indexed_size elim: stops_within_mono)
next
  case False
  with assms(1) have fresh: "hm_get (orders_map bk) (o_id x) = None"
    and run: "match_order (placed bk x) (o_side x) g c = Inl e"
    by (auto simp: add_order_def placed_def immediate_def hm_contains_def Let_def and_then_Inl split: if_splits)
  note ok = placed_ok [OF assms(3) fresh assms(4)]
  have "size (book_orders (placed bk x)) = Suc (size (book_orders bk))"
    by (cases "o_side x") (simp_all add: book_orders_sides ok(2) contenders_def)
  moreover have "size (book_orders bk) = book_size bk"
    using assms(3) by (simp add: book_ok_def book_size_def indexed_size)
  ultimately show ?thesis using match_order_within [OF run] ok(1) by (simp add: book_ok_def)
qed

lemma settle_trades_no_clock: "settle_trades us pair ts = Inl f \<Longrightarrow> \<not> clock_fault f"
proof (induction ts arbitrary: us)
  case (Cons t ts)
  have "settle_trade us pair t = Inl f \<Longrightarrow> \<not> clock_fault f"
    by (auto simp: settle_trade_def clock_fault_def Let_def split: option.splits sum.splits prod.splits)
  with Cons show ?case by (auto simp: and_then_Inl)
qed simp

definition resting_count :: "core_engine \<Rightarrow> trading_pair \<Rightarrow> nat" where
  "resting_count e pair = (case hm_get (orderbooks e) pair of None \<Rightarrow> 0 | Some bk \<Rightarrow> book_size bk)"

lemma core_add_order_within:
  assumes "core_add_order e pair x c = Inl f" and "clock_fault f" and "books_ok e" and "o_remaining x = o_initial x"
  shows "stops_within (Suc (resting_count e pair)) (ids e) c f"
proof -
  from assms(1) have none: "rejection e pair x = None"
    and run: "core_place (secure e pair x) pair (the (hm_get (orderbooks e) pair)) x c = Inl f"
    by (auto simp: core_add_order_split split: option.splits)
  from none obtain bk where bk: "hm_get (orderbooks e) pair = Some bk" and "\<not> invalid_terms (o_price x) (o_initial x)"
    by (rule rejection_None)
  then have "o_remaining x \<noteq> 0" using assms(4) by (simp add: invalid_terms_def)
  have "ids (secure e pair x) = ids e" by (simp add: secure_def split: option.split)
  with run bk assms(2) have "add_order bk x (ids e) c = Inl f"
    by (auto simp: core_place_def and_then_Inl Let_def dest: settle_trades_no_clock split: option.splits)
  from add_order_within [OF this assms(2) books_ok_get [OF assms(3) bk] \<open>o_remaining x \<noteq> 0\<close>] show ?thesis
    by (simp add: resting_count_def bk)
qed

text \<open>
  C12. Submitting an order returns. In every reachable state, on a clock that ticks and whose readings
  are two per resting order of the pair and four more, submitting an order of any kind gives an
  answer: neither the wait for the next millisecond nor the matching loops go on for longer, and the
  generator does not panic. The one way not to answer is the overflow of a credit during settlement.
\<close>

theorem submission_returns:
  assumes "exchange_reachable e" and "books_small e" and "clock_ok c"
    and "ticking (last_timestamp (ids e)) c" and "2 * resting_count e pair + 4 \<le> length c"
  shows "(\<exists>r e' c'. core_submit e pair ty sd p q u c = Inr (r, e', c')) \<or>
    (\<exists>f. core_submit e pair ty sd p q u c = Inl f \<and> credit_overflow f)"
proof (cases "core_submit e pair ty sd p q u c")
  case (Inl f)
  have "\<not> clock_fault f"
  proof
    assume clock: "clock_fault f"
    from assms(5) obtain r r' c1 where c: "c = r # r' # c1" by (cases c; cases "tl c") auto
    from stamp_ticking [OF assms(4) [unfolded c]] obtain i s g where
      nid: "next_id (ids e) (r # r' # c1) = Inr (i, g, r' # c1)" "now_nanos (r' # c1) = Inr (s, c1)"
      and tick: "ticking (last_timestamp g) c1"
      using next_id_ticking [OF assms(4) [unfolded c]] assms(4) by (auto simp: c stamp_def now_nanos_def intro: ticking_mono)
    let ?x = "\<lparr>o_id = i, o_type = ty, o_side = sd, o_status = Empty, o_price = p,
      o_initial = q, o_remaining = q, o_timestamp = s, o_user = u\<rparr>"
    have run: "core_add_order (e\<lparr>ids := g\<rparr>) pair ?x c1 = Inl f"
      using Inl by (simp add: core_submit_def core_next_id_def order_new_def c nid and_then_Inl)
    have "books_ok (e\<lparr>ids := g\<rparr>)"
      using exchange_reachable_ok [OF assms(1)] by (auto simp: exchange_ok_def engine_ok_def)
    from core_add_order_within [OF run clock this] have "stops_within (Suc (resting_count e pair)) g c1 f"
      by (simp add: resting_count_def)
    from stops_within_not [OF this tick] assms(5) c show False by simp
  qed
  with core_submit_ok [OF exchange_reachable_ok [OF assms(1)] assms(2,3), of pair ty sd p q u] Inl show ?thesis by auto
next
  case (Inr x)
  then show ?thesis by (cases x) auto
qed

theorem submission_returns_witness:
  "\<exists>r e' c'. core_submit sample_open sample_pair GoodTillCancel Buy (Price 102) 3 1 (drop 6 sample_clock) = Inr (r, e', c')"
proof -
  have "resting_count sample_open sample_pair = 1" "ticking (last_timestamp (ids sample_open)) (drop 6 sample_clock)"
    "length (drop 6 sample_clock) = 6" by code_simp+
  moreover have "clock_ok (drop 6 sample_clock)"
    using sample_clock_ok by (auto simp: clock_ok_def dest: in_set_dropD)
  moreover have "\<not> credit_overflow f" if "core_submit sample_open sample_pair GoodTillCancel Buy (Price 102) 3 1 (drop 6 sample_clock) = Inl f" for f
  proof -
    have "\<not> isl (core_submit sample_open sample_pair GoodTillCancel Buy (Price 102) 3 1 (drop 6 sample_clock))" by code_simp
    with that show ?thesis by simp
  qed
  ultimately show ?thesis
    using submission_returns [OF sample_open_reachable sample_open_small, of "drop 6 sample_clock" sample_pair
        GoodTillCancel Buy "Price 102" 3 1] by auto
qed

end
