(* ===== verification/Pacing.thy ===== *)
theory Pacing
  imports Liveness Service
begin

text \<open>
  What placing an order costs. Every trade draws one identifier and one time stamp, and takes at least
  one order out of the book, so that the orders that rest are a potential for the readings of the clock:
  a placement may spend two readings for every order fewer, and two for the order it brings.
\<close>

section \<open>Trades against resting orders\<close>

lemma crossing_pays: "crossing sd s t s' \<Longrightarrow> Suc (crowd s') \<le> crowd s"
proof (induction rule: crossing.induct)
  case (cross b a q t B A om)
  have "size (leftover y q) \<le> 1" for y by (simp add: leftover_def)
  moreover have "leftover b q = {#} \<or> leftover a q = {#}"
    using cross(3) by (auto simp: leftover_def is_filled_def fills_remaining min_def)
  ultimately show ?case by (auto simp: crowd_def)
qed

lemma crossings_pay: "crossings sd s ts s' \<Longrightarrow> length ts + crowd s' \<le> crowd s"
proof (induction rule: crossings.induct)
  case (more s ts s' t s'')
  with crossing_pays [OF more.hyps(2)] show ?case by simp
qed simp

lemma crowd_view: "crowd (view bk) = size (book_orders bk)"
  by (simp add: crowd_def view_def book_orders_def)

lemma book_ok_size: "book_ok bk \<Longrightarrow> size (book_orders bk) = book_size bk"
  by (simp add: book_ok_def book_size_def indexed_size)

lemma add_order_pays:
  assumes run: "add_order bk x g c = Inr (Some ts, bk', g', c')" and ok: "book_ok bk" and x: "o_remaining x \<noteq> 0"
  shows "length ts + book_size bk' \<le> Suc (book_size bk)"
proof -
  have ok': "book_ok bk'" using add_order_keeps_book_ok [OF ok _ run] x by (simp add: word_gt_0)
  from run show ?thesis
  proof (cases rule: add_order_cases)
    case rejected
    then show ?thesis by simp
  next
    case (immediate us)
    then have us: "us = ts" and lv: "book_levels_ok bk" using ok by (simp_all add: book_ok_def)
    let ?own = "opposite_map (other_side (o_side x))" and ?opp = "opposite_map (o_side x)"
    have size: "crowd (fill_view (o_side x) (X + orders_of (?own b)) (orders_of (?opp b)) om) = size X + size (book_orders b)"
      for X b om by (cases "o_side x") (simp_all add: fill_view_def crowd_def opposite_map_def book_orders_def)
    have "size (aggressor_bag x r st) \<le> 1" for r st by (simp add: aggressor_bag_def)
    from match_against_opposite_crossings [OF immediate(4) lv immediate(1)] this [of "o_remaining x" "o_status x"]
    have "length us + size (book_orders bk') \<le> Suc (size (book_orders bk))"
      by (auto dest!: crossings_pay simp: size)
    then show ?thesis by (simp add: us book_ok_size ok ok')
  next
    case (resting us)
    then have us: "us = ts" by simp
    note placed = placed_ok [OF ok resting(1) x]
    have "book_levels_ok (placed bk x)" using placed(1) by (simp add: book_ok_def)
    from crossings_pay [OF match_order_crossings(1) [OF resting(4) this]] have
      "length us + size (book_orders bk') \<le> size (book_orders (placed bk x))" by (simp add: crowd_view)
    also have "\<dots> = Suc (size (book_orders bk))"
      by (cases "o_side x") (simp_all add: book_orders_sides placed(2) contenders_def)
    finally show ?thesis by (simp add: us book_ok_size ok ok')
  qed
qed

section \<open>The orders that rest in an engine\<close>

definition lodgers :: "core_engine \<Rightarrow> (trading_pair \<times> order_id) set" where
  "lodgers e = {(pair, i). i \<in> book_ids e pair}"

definition population :: "core_engine \<Rightarrow> nat" where
  "population e = card (lodgers e)"

lemma finite_lodgers: "books_ok e \<Longrightarrow> finite (lodgers e)"
proof (rule finite_subset)
  show "lodgers e \<subseteq> (\<Union>(pair, bk) \<in> set (orderbooks e). {pair} \<times> o_id ` set_mset (book_orders bk))"
    by (force simp: lodgers_def book_ids_def resting_def dest: hm_get_SomeD)
qed auto

lemma population_shrink:
  assumes "books_ok e" and "\<And>p y. resting e' p y \<Longrightarrow> resting e p y"
  shows "population e' \<le> population e"
  unfolding population_def
  by (rule card_mono [OF finite_lodgers [OF assms(1)]]) (use assms(2) in \<open>auto simp: lodgers_def book_ids_def\<close>)

lemma population_one_more:
  assumes "books_ok e" and "one_more e e'"
  shows "population e' \<le> Suc (population e)"
proof -
  from assms(2) obtain pair i where more: "\<And>p y. resting e' p y \<Longrightarrow> p = pair \<and> o_id y = i \<or> (\<exists>z. resting e p z \<and> o_id z = o_id y)"
    unfolding one_more_def by blast
  have "lodgers e' \<subseteq> insert (pair, i) (lodgers e)"
    using more by (fastforce simp: lodgers_def book_ids_def image_iff)
  then have "card (lodgers e') \<le> card (insert (pair, i) (lodgers e))"
    using finite_lodgers [OF assms(1)] by (intro card_mono) simp_all
  also have "\<dots> \<le> Suc (card (lodgers e))" by (simp add: card_insert_if finite_lodgers [OF assms(1)])
  finally show ?thesis by (simp add: population_def)
qed

text \<open>The book of one pair against all the others.\<close>

lemma population_split:
  assumes "books_ok e" and "hm_get (orderbooks e) pair = Some bk"
  shows "population e = book_size bk + card {l \<in> lodgers e. fst l \<noteq> pair}"
proof -
  have "lodgers e = Pair pair ` book_ids e pair \<union> {l \<in> lodgers e. fst l \<noteq> pair}" by (auto simp: lodgers_def)
  moreover have "finite (lodgers e)" using assms(1) by (rule finite_lodgers)
  moreover have "finite (Pair pair ` book_ids e pair)"
    by (rule finite_subset [OF _ \<open>finite (lodgers e)\<close>]) (auto simp: lodgers_def)
  moreover have "Pair pair ` book_ids e pair \<inter> {l \<in> lodgers e. fst l \<noteq> pair} = {}" by auto
  ultimately have "card (lodgers e) = card (Pair pair ` book_ids e pair) + card {l \<in> lodgers e. fst l \<noteq> pair}"
    using card_Un_disjoint [of "Pair pair ` book_ids e pair" "{l \<in> lodgers e. fst l \<noteq> pair}"] by simp
  moreover have "card (Pair pair ` book_ids e pair) = book_size bk"
    using book_size_card [OF books_ok_get [OF assms] assms(2)] by (simp add: card_image inj_on_def)
  ultimately show ?thesis by (simp add: population_def)
qed

lemma resting_count_population: "books_ok e \<Longrightarrow> resting_count e pair \<le> population e"
  by (auto simp: resting_count_def population_split split: option.splits)

section \<open>What a placement costs\<close>

text \<open>The clock keeps ticking after the last identifier.\<close>

definition paced :: "core_engine \<Rightarrow> clock \<Rightarrow> bool" where
  "paced e c \<longleftrightarrow> ticking (last_timestamp (ids e)) c"

definition costs :: "nat \<Rightarrow> core_engine \<Rightarrow> clock \<Rightarrow> fault + 'r \<times> core_engine \<times> clock \<Rightarrow> bool" where
  "costs n e c out \<longleftrightarrow> (paced e c \<longrightarrow> 2 * population e + n \<le> length c \<longrightarrow>
     (case out of Inl f \<Rightarrow> \<not> clock_fault f
      | Inr (_, e', c') \<Rightarrow> paced e' c' \<and> length c + 2 * population e' \<le> length c' + 2 * population e + n))"

lemma core_add_order_trades:
  assumes "core_add_order e pair x c = Inr (Inr (Some ts), e', c')"
  obtains bk bk' where "hm_get (orderbooks e) pair = Some bk" and "\<not> invalid_terms (o_price x) (o_initial x)"
    and "add_order bk x (ids e) c = Inr (Some ts, bk', ids e', c')"
    and "orderbooks e' = hm_insert pair bk' (orderbooks e)"
proof -
  from assms have none: "rejection e pair x = None"
    and run: "core_place (secure e pair x) pair (the (hm_get (orderbooks e) pair)) x c = Inr (Inr (Some ts), e', c')"
    by (auto simp: core_add_order_split split: option.splits)
  from none obtain bk where bk: "hm_get (orderbooks e) pair = Some bk" "\<not> invalid_terms (o_price x) (o_initial x)"
    by (rule rejection_None)
  have "ids (secure e pair x) = ids e" "orderbooks (secure e pair x) = orderbooks e"
    by (simp_all add: secure_def split: option.split)
  with run bk that show ?thesis
    by (auto simp: core_place_def and_then_Inr Let_def split: option.splits)
qed

lemma core_add_order_costs:
  assumes e: "engine_ok e" and small: "books_small e" and fresh: "fresh_in e (o_id x)" and x: "o_remaining x = o_initial x"
  shows "costs 2 e c (core_add_order e pair x c)"
  unfolding costs_def
proof (intro impI)
  assume paced: "paced e c" and long: "2 * population e + 2 \<le> length c"
  have books: "books_ok e" using e by (simp add: engine_ok_def)
  note out = core_add_order_outcome [OF e small fresh x, of pair c]
  show "case core_add_order e pair x c of Inl f \<Rightarrow> \<not> clock_fault f
      | Inr (_, e', c') \<Rightarrow> paced e' c' \<and> length c + 2 * population e' \<le> length c' + 2 * population e + 2"
  proof (cases "core_add_order e pair x c")
    case (Inl f)
    have False if "clock_fault f"
      using stops_within_not [OF core_add_order_within [OF Inl that books x]] paced long
        resting_count_population [OF books, of pair] by (simp add: paced_def)
    with Inl show ?thesis by auto
  next
    case (Inr o1)
    obtain r e' c' where run: "core_add_order e pair x c = Inr (r, e', c')" using Inr by (cases o1) auto
    consider (none) err where "r = Inl err" | (rejected) "r = Inr None" | (traded) ts where "r = Inr (Some ts)"
      by (cases r; cases "projr r") auto
    then show ?thesis
    proof cases
      case none
      with out paced show ?thesis by (simp add: run placement_outcome_def)
    next
      case rejected
      have "one_more e e'" using out by (auto simp: run placement_outcome_def one_more_def)
      from population_one_more [OF books this] out paced rejected show ?thesis
        by (simp add: run placement_outcome_def paced_def)
    next
      case traded
      from core_add_order_trades [OF run [unfolded traded]] obtain bk bk' where
        bk: "hm_get (orderbooks e) pair = Some bk" and valid: "\<not> invalid_terms (o_price x) (o_initial x)"
        and add: "add_order bk x (ids e) c = Inr (Some ts, bk', ids e', c')"
        and books': "orderbooks e' = hm_insert pair bk' (orderbooks e)" .
      have "o_remaining x \<noteq> 0" using valid x by (simp add: invalid_terms_def)
      from add_order_pays [OF add books_ok_get [OF books bk] this] have pays: "length ts + book_size bk' \<le> Suc (book_size bk)" .
      have "books_ok e'" "hm_get (orderbooks e') pair = Some bk'" using out by (simp_all add: run placement_outcome_def engine_ok_def books')
      moreover have "{l \<in> lodgers e'. fst l \<noteq> pair} = {l \<in> lodgers e. fst l \<noteq> pair}"
        by (auto simp: lodgers_def book_ids_def resting_def books')
      ultimately have less: "length ts + population e' \<le> Suc (population e)"
        using pays population_split [OF books bk] population_split [of e' pair bk'] by simp
      have "issues (ids e) c ts (ids e') c'" using out by (simp add: run traded placement_outcome_def)
      then have draw: "draw stamp (length ts) (ids e) c = Inr (map stamp_of ts, ids e', c')" by (simp add: issues_def)
      have enough: "2 * length ts \<le> length c" using less long by simp
      with draw_ticking [OF paced [unfolded paced_def] enough] draw have
        "c' = drop (2 * length ts) c" "ticking (last_timestamp (ids e')) c'" by auto
      with less enough show ?thesis by (simp add: run paced_def)
    qed
  qed
qed

lemma core_modify_order_costs:
  assumes e: "engine_ok e" and small: "books_small e"
  shows "costs 3 e c (core_modify_order e pair m c)"
proof (cases "Option.bind (hm_get (orderbooks e) pair) (\<lambda>bk. get_order bk (m_id m))")
  case None
  then show ?thesis by (simp add: core_modify_order_spec [OF e] cancel_then_place_def costs_def)
next
  case (Some old)
  let ?e = "snd (core_cancel_order e pair (m_id m))"
  have books: "books_ok e" using e by (simp add: engine_ok_def)
  note cancel = core_cancel_order_ok [OF e, of pair "m_id m"]
  have "fst (core_cancel_order e pair (m_id m))" using Some by (simp add: core_cancel_order_cases [OF books])
  then have "fresh_in ?e (m_id m)" by (simp add: fresh_in_def cancel(2))
  then have place: "costs 2 ?e c1 (core_add_order ?e pair (replacement m (o_type old) ts) c1)" for ts c1
    by (intro core_add_order_costs [OF cancel(1) books_small_cancel [OF books small]]) simp_all
  have fewer: "population ?e \<le> population e" by (rule population_shrink [OF books]) (simp add: cancel(2))
  have "costs 3 e c (and_then (now_nanos c) (\<lambda>(ts, c). core_add_order ?e pair (replacement m (o_type old) ts) c))"
    unfolding costs_def
  proof (intro impI)
    assume paced: "paced e c" and long: "2 * population e + 3 \<le> length c"
    then obtain r c1 where c: "c = r # c1" by (cases c) auto
    with paced have now: "now_nanos c = Inr (word_of_int r, c1)" and "paced ?e c1"
      by (auto simp: paced_def now_nanos_def cancel(4) intro: ticking_mono)
    with place [of c1 "word_of_int r"] fewer long show "case and_then (now_nanos c) (\<lambda>(ts, c). core_add_order ?e pair (replacement m (o_type old) ts) c) of
        Inl f \<Rightarrow> \<not> clock_fault f
      | Inr (_, e', c') \<Rightarrow> paced e' c' \<and> length c + 2 * population e' \<le> length c' + 2 * population e + 3"
      by (auto simp: costs_def c split: sum.splits)
  qed
  moreover have "costs 3 e c (Inr (r, e, c))" for r :: "order_error + trade list option" by (simp add: costs_def)
  ultimately show ?thesis
    unfolding core_modify_order_spec [OF e] cancel_then_place_def Some option.case Let_def
    by (simp split: option.split)
qed

end
