(* ===== verification/RecoveryInvariant.thy ===== *)
theory RecoveryInvariant
  imports Process Pacing
begin

text \<open>
  Replaying a log rebuilds an engine that satisfies the invariant of the exchange, whatever the clock of
  the restart, and costs at most three readings of the clock per entry. Every operation of the service
  appends entries of which that is true.
\<close>

section \<open>Engines that agree up to time\<close>

lemma orders_of_untimed: "orders_of (map_values (map untimed) m) = image_mset untimed (orders_of m)"
  by (induction m) (auto simp: orders_of_def)

lemma book_orders_untimed: "book_orders (untimed_book bk) = image_mset untimed (book_orders bk)"
  by (simp add: book_orders_def untimed_book_def orders_of_untimed)

lemma same_engine_pair:
  assumes "same_engine e2 e" and "hm_get (orderbooks e2) pair = Some bk2"
  obtains bk where "hm_get (orderbooks e) pair = Some bk" and "untimed_book bk2 = untimed_book bk"
proof -
  have "hm_get (map_values untimed_book (orderbooks e2)) pair = hm_get (map_values untimed_book (orderbooks e)) pair"
    using assms(1) by (simp only: same_engine_def)
  with assms(2) that show ?thesis by (cases "hm_get (orderbooks e) pair") auto
qed

lemma same_engine_resting:
  assumes "same_engine e2 e" and "resting e2 pair y"
  shows "\<exists>z. resting e pair z \<and> o_id z = o_id y"
proof -
  from assms(2) obtain bk2 where bk2: "hm_get (orderbooks e2) pair = Some bk2" "y \<in># book_orders bk2" by (auto simp: resting_def)
  from same_engine_pair [OF assms(1) bk2(1)] obtain bk where bk: "hm_get (orderbooks e) pair = Some bk"
    and "untimed_book bk2 = untimed_book bk" .
  then have "image_mset untimed (book_orders bk2) = image_mset untimed (book_orders bk)" by (metis book_orders_untimed)
  then have "untimed y \<in># image_mset untimed (book_orders bk)" using bk2(2) by (metis image_eqI in_image_mset)
  then obtain z where "z \<in># book_orders bk" "untimed y = untimed z" by auto
  with bk same_fields(1) [of y z] show ?thesis by (auto simp: resting_def)
qed

lemma same_engine_fresh: "same_engine e2 e \<Longrightarrow> fresh_in e i \<Longrightarrow> fresh_in e2 i"
  unfolding fresh_in_def using same_engine_resting by metis

lemma same_engine_small:
  assumes "same_engine e2 e" and "books_small e"
  shows "books_small e2"
  unfolding books_small_def
proof (intro allI impI)
  fix pair bk2
  assume "hm_get (orderbooks e2) pair = Some bk2"
  from same_engine_pair [OF assms(1) this] obtain bk where bk: "hm_get (orderbooks e) pair = Some bk"
    and "untimed_book bk2 = untimed_book bk" .
  then have "length (map_values untimed (orders_map bk2)) = length (map_values untimed (orders_map bk))"
    by (simp add: untimed_book_iff)
  then have "book_size bk2 = book_size bk" by (simp add: book_size_def map_values_def)
  with assms(2) bk show "book_size bk2 \<le> 2 ^ 32" by (simp add: books_small_def)
qed

lemma same_engine_at_most:
  assumes "same_engine e2 e" and "at_most n e"
  shows "at_most n e2"
  unfolding at_most_def
proof
  fix pair
  have "i \<in> book_ids e pair" if "i \<in> book_ids e2 pair" for i
  proof -
    from that obtain y where "resting e2 pair y" "o_id y = i" by (auto simp: book_ids_def)
    with same_engine_resting [OF assms(1) this(1)] obtain z where "resting e pair z" "o_id z = i" by auto
    then show ?thesis by (auto simp: book_ids_def)
  qed
  then have "book_ids e2 pair \<subseteq> book_ids e pair" by blast
  with assms(2) show "finite (book_ids e2 pair) \<and> card (book_ids e2 pair) \<le> n"
    unfolding at_most_def by (meson card_mono finite_subset le_trans)
qed

section \<open>Replay keeps the invariant\<close>

definition timely :: "core_engine \<Rightarrow> clock \<Rightarrow> bool" where
  "timely e c \<longleftrightarrow> gen_ok (ids e) \<and> clock_ok c"

lemma placement_outcome_timely:
  "placement_outcome e pair i c (Inr (r, e', c')) \<Longrightarrow> engine_ok e' \<and> (timely e c \<longrightarrow> timely e' c')"
  using issues_next by (fastforce simp: placement_outcome_def timely_def split: sum.splits option.splits)

lemma core_modify_engine_ok:
  assumes e: "engine_ok e" and small: "books_small e" and run: "core_modify_order e pair m c = Inr (r, e', c')"
  shows "engine_ok e' \<and> (timely e c \<longrightarrow> timely e' c')"
proof (cases "Option.bind (hm_get (orderbooks e) pair) (\<lambda>bk. get_order bk (m_id m))")
  case None
  with run e show ?thesis by (simp add: core_modify_order_spec [OF e] cancel_then_place_def)
next
  case (Some old)
  let ?e = "snd (core_cancel_order e pair (m_id m))"
  have books: "books_ok e" using e by (simp add: engine_ok_def)
  note cancel = core_cancel_order_ok [OF e, of pair "m_id m"]
  have "fst (core_cancel_order e pair (m_id m))" using Some by (simp add: core_cancel_order_cases [OF books])
  then have fresh: "fresh_in ?e (m_id m)" by (simp add: fresh_in_def cancel(2))
  have placed: "engine_ok e' \<and> (timely e c \<longrightarrow> timely e' c')"
    if "now_nanos c = Inr (ts, c1)" "core_add_order ?e pair (replacement m (o_type old) ts) c1 = Inr (r, e', c')" for ts c1
  proof -
    have "timely e c \<longrightarrow> timely ?e c1" using that(1) cancel(4) by (auto simp: timely_def now_nanos_Inr)
    moreover have "placement_outcome ?e pair (m_id m) c1 (Inr (r, e', c'))"
      using core_add_order_outcome [OF cancel(1) books_small_cancel [OF books small], of "replacement m (o_type old) ts" pair c1]
        fresh that(2) by simp
    ultimately show ?thesis using placement_outcome_timely by blast
  qed
  note spec = core_modify_order_spec [OF e, of pair m c, unfolded cancel_then_place_def Some Let_def, simplified]
  show ?thesis
  proof (cases "rejection ?e pair (replacement m (o_type old) 0)")
    case None
    with run spec e placed show ?thesis by (auto simp: and_then_Inr split: if_splits)
  next
    case (Some err)
    with run spec e show ?thesis by (auto split: if_splits)
  qed
qed

text \<open>What an entry needs of the engine it was logged on.\<close>

definition entry_sound :: "wal_entry_type \<Rightarrow> core_engine \<Rightarrow> bool" where
  "entry_sound ty e \<longleftrightarrow> books_small e \<and>
     (case ty of WalAddOrder pair x _ \<Rightarrow> fresh_in e (o_id x) \<and> o_remaining x = o_initial x | _ \<Rightarrow> True)"

lemma replay_entry_ok:
  assumes e2: "engine_ok e2" and same: "same_engine e2 e" and sound: "entry_sound (w_entry x) e"
    and run: "replay_entry e2 x d = Inr (e3, d')"
  shows "engine_ok e3 \<and> (timely e2 d \<longrightarrow> timely e3 d')"
proof -
  have small: "books_small e2" using same_engine_small [OF same] sound by (simp add: entry_sound_def)
  show ?thesis
  proof (cases "w_entry x")
    case (WalAddOrder pair y ts)
    then obtain r where add: "core_add_order e2 pair y d = Inr (r, e3, d')"
      using run by (auto simp: replay_entry_def and_then_Inr)
    have "fresh_in e2 (o_id y)" "o_remaining y = o_initial y"
      using sound same_engine_fresh [OF same] by (simp_all add: WalAddOrder entry_sound_def)
    from core_add_order_outcome [OF e2 small this, of pair d] show ?thesis
      unfolding add by (rule placement_outcome_timely)
  next
    case (WalModifyOrder pair m ts)
    with run core_modify_engine_ok [OF e2 small] show ?thesis by (auto simp: replay_entry_def and_then_Inr)
  qed (use run e2 core_add_trading_pair_ok(1) core_remove_trading_pair_ok(1) core_cancel_order_ok(1,4) core_add_user_ok(1)
      core_remove_user_effect(4,5) core_deposit_balance_ok(1) core_withdraw_balance_ok(1)
      in \<open>auto simp: replay_entry_def timely_def\<close>)
qed

text \<open>The readings an entry costs to replay: at most three, but for the orders it takes out of the books.\<close>

lemma replay_entry_costs:
  assumes e2: "engine_ok e2" and same: "same_engine e2 e" and sound: "entry_sound (w_entry x) e"
    and paced: "paced e2 d" and long: "2 * population e2 + 3 \<le> length d"
  shows "case replay_entry e2 x d of Inl f \<Rightarrow> \<not> clock_fault f
    | Inr (e3, d') \<Rightarrow> paced e3 d' \<and> length d + 2 * population e3 \<le> length d' + 2 * population e2 + 3"
proof -
  have small: "books_small e2" using same_engine_small [OF same] sound by (simp add: entry_sound_def)
  have books: "books_ok e2" using e2 by (simp add: engine_ok_def)
  note modify = core_modify_order_costs [OF e2 small]
  have step: ?thesis if "replay_entry e2 x d = Inr (e3, d)" "\<And>p y. resting e3 p y \<Longrightarrow> resting e2 p y" "ids e3 = ids e2" for e3
  proof -
    have "population e3 \<le> population e2" using population_shrink [OF books] that(2) by blast
    then show ?thesis using that(1,3) paced by (simp add: paced_def)
  qed
  show ?thesis
  proof (cases "w_entry x")
    case (WalAddOrder pair y ts)
    have "fresh_in e2 (o_id y)" "o_remaining y = o_initial y"
      using sound same_engine_fresh [OF same] by (simp_all add: WalAddOrder entry_sound_def)
    from core_add_order_costs [OF e2 small this, of d pair] paced long show ?thesis
      by (auto simp: replay_entry_def WalAddOrder costs_def split: sum.splits)
  next
    case (WalModifyOrder pair m ts)
    with modify [of d pair m] paced long show ?thesis by (auto simp: replay_entry_def costs_def split: sum.splits)
  next
    case (WalAddTradingPair pair)
    with core_add_trading_pair_ok(2) [OF e2, of pair] show ?thesis
      by (intro step [of "core_add_trading_pair e2 pair"]) (simp_all add: replay_entry_def)
  next
    case (WalRemoveTradingPair pair)
    with core_remove_trading_pair_ok(2) [OF e2, of pair] show ?thesis
      by (intro step [of "snd (core_remove_trading_pair e2 pair)"]) (simp_all add: replay_entry_def)
  next
    case (WalCancelOrder pair i ok)
    with core_cancel_order_ok(2,4) [OF e2, of pair i] show ?thesis
      by (intro step [of "snd (core_cancel_order e2 pair i)"]) (simp_all add: replay_entry_def)
  next
    case (WalAddUser u)
    with core_add_user_ok(2) [OF e2, of u] show ?thesis
      by (intro step [of "core_add_user e2 u"]) (simp_all add: replay_entry_def)
  next
    case (WalRemoveUser u)
    with core_remove_user_effect(5,6) [OF e2, of u] show ?thesis
      by (intro step [of "snd (core_remove_user e2 u)"]) (simp_all add: replay_entry_def)
  next
    case (WalDepositBalance u a n)
    with core_deposit_balance_ok(2) [OF e2, of u a n] show ?thesis
      by (intro step [of "snd (core_deposit_balance e2 u a n)"]) (simp_all add: replay_entry_def)
  next
    case (WalWithdrawBalance u a n)
    with core_withdraw_balance_ok(2) [OF e2, of u a n] show ?thesis
      by (intro step [of "snd (core_withdraw_balance e2 u a n)"]) (simp_all add: replay_entry_def)
  qed
qed

text \<open>
  The entries whose replay from \<open>e0\<close> gives an engine that satisfies the invariant and agrees with \<open>e\<close>,
  and gives one if the clock ticks three times per entry.
\<close>

definition rebuilds :: "core_engine \<Rightarrow> wal_entry list \<Rightarrow> core_engine \<Rightarrow> bool" where
  "rebuilds e0 es e \<longleftrightarrow> (\<forall>d.
     (\<forall>e1 s d1. replay_entries es e0 0 d = Inr (e1, s, d1) \<longrightarrow>
        engine_ok e1 \<and> same_engine e1 e \<and> (timely e0 d \<longrightarrow> timely e1 d1)) \<and>
     (paced e0 d \<longrightarrow> 3 * length es \<le> length d \<longrightarrow> (\<exists>e1 s d1. replay_entries es e0 0 d = Inr (e1, s, d1) \<and>
        paced e1 d1 \<and> length d + 2 * population e1 \<le> length d1 + 3 * length es)))"

lemma rebuilds_Inr:
  "rebuilds e0 es e \<Longrightarrow> replay_entries es e0 0 d = Inr (e1, s, d1) \<Longrightarrow>
     engine_ok e1 \<and> same_engine e1 e \<and> (timely e0 d \<longrightarrow> timely e1 d1)"
  unfolding rebuilds_def by blast

lemma rebuilds_paced:
  assumes "rebuilds e0 es e" and "paced e0 d" and "3 * length es \<le> length d"
  obtains e1 s d1 where "replay_entries es e0 0 d = Inr (e1, s, d1)" and "paced e1 d1"
    and "length d + 2 * population e1 \<le> length d1 + 3 * length es"
  using assms unfolding rebuilds_def by blast

lemma rebuilds_snoc:
  assumes es: "rebuilds e0 es e" and eff: "effect (w_entry x) e e'" and sound: "entry_sound (w_entry x) e"
  shows "rebuilds e0 (es @ [x]) e'"
proof -
  have last: "agrees (\<lambda>(e3, _). same_engine e3 e') (replay_entry e1 x d1)" if "same_engine e1 e" for e1 d1
    using eff that by (simp add: effect_def)
  show ?thesis
    unfolding rebuilds_def
  proof (intro allI conjI impI)
    fix d e2 s d2
    assume "replay_entries (es @ [x]) e0 0 d = Inr (e2, s, d2)"
    then obtain e1 s1 d1 where first: "replay_entries es e0 0 d = Inr (e1, s1, d1)" and run: "replay_entry e1 x d1 = Inr (e2, d2)"
      by (auto simp: replay_entries_append and_then_Inr)
    note e1 = rebuilds_Inr [OF es first]
    with last [of e1 d1] run replay_entry_ok [of e1 e x d1 e2 d2] sound show
      "engine_ok e2" "same_engine e2 e'" "timely e0 d \<Longrightarrow> timely e2 d2" by auto
  next
    fix d
    assume paced: "paced e0 d" and long: "3 * length (es @ [x]) \<le> length d"
    then have "3 * length es \<le> length d" by simp
    from rebuilds_paced [OF es paced this] obtain e1 s1 d1 where first: "replay_entries es e0 0 d = Inr (e1, s1, d1)"
      and d1: "paced e1 d1" "length d + 2 * population e1 \<le> length d1 + 3 * length es" .
    note e1 = rebuilds_Inr [OF es first]
    have "2 * population e1 + 3 \<le> length d1" using d1(2) long by simp
    with replay_entry_costs [of e1 e x d1] e1 sound d1(1) have cost: "case replay_entry e1 x d1 of Inl f \<Rightarrow> \<not> clock_fault f
      | Inr (e3, d') \<Rightarrow> paced e3 d' \<and> length d1 + 2 * population e3 \<le> length d' + 2 * population e1 + 3" by blast
    with last [of e1 d1] e1 obtain e2 d2 where "replay_entry e1 x d1 = Inr (e2, d2)"
      by (auto simp: agrees_def split: sum.splits)
    with cost d1(2) show "\<exists>e2 s d2. replay_entries (es @ [x]) e0 0 d = Inr (e2, s, d2) \<and>
        paced e2 d2 \<and> length d + 2 * population e2 \<le> length d2 + 3 * length (es @ [x])"
      by (simp add: replay_entries_append first)
  qed
qed

definition replays_sound :: "codec \<Rightarrow> core_engine \<Rightarrow> nat \<Rightarrow> wal_engine \<Rightarrow> bool" where
  "replays_sound J e0 n v \<longleftrightarrow> ww_seq (we_writer v) = of_nat n \<and>
     (\<exists>es. log_of J es (ww_file (we_writer v)) \<and> length es = n \<and> rebuilds e0 es (we_inner v))"

lemma replays_sound_logged:
  assumes "replays_sound J e0 n v" and "logged J v ty v'" and "entry_sound ty (we_inner v)"
    and "encodes J (of_nat n + 1) ty"
  shows "replays_sound J e0 (Suc n) v'"
proof -
  from assms(1) obtain es where seq: "ww_seq (we_writer v) = of_nat n" and es: "log_of J es (ww_file (we_writer v))"
    and old: "length es = n" "rebuilds e0 es (we_inner v)"
    unfolding replays_sound_def by blast
  from assms(4) have "encodes J (ww_seq (we_writer v) + 1) ty" by (simp add: seq)
  from logged_line [OF assms(2) this] obtain x b where x: "line_of J x b" "w_entry x = ty"
    and grown: "ww_file (we_writer v') = ww_file (we_writer v) @ b @ [10]"
    and seq': "ww_seq (we_writer v') = ww_seq (we_writer v) + 1" .
  have "rebuilds e0 (es @ [x]) (we_inner v')"
    using rebuilds_snoc [OF old(2), of x] assms(2,3) x(2) by (simp add: logged_def)
  moreover have "ww_seq (we_writer v') = of_nat (Suc n)" using seq seq' by simp
  moreover have "log_of J (es @ [x]) (ww_file (we_writer v'))" using log_of_append [OF es x(1)] grown by simp
  moreover have "length (es @ [x]) = Suc n" using old(1) by simp
  ultimately show ?thesis unfolding replays_sound_def by blast
qed

lemma replays_sound_cong:
  assumes "replays_sound J e0 n v" and "same_engine (we_inner v') (we_inner v)"
    and "ww_file (we_writer v') = ww_file (we_writer v)" and "ww_seq (we_writer v') = ww_seq (we_writer v)"
  shows "replays_sound J e0 n v'"
proof -
  have "same_engine e (we_inner v') = same_engine e (we_inner v)" for e using assms(2) by (simp add: same_engine_def)
  with assms show ?thesis by (simp add: replays_sound_def rebuilds_def)
qed

section \<open>The service\<close>

lemma next_id_fresh:
  assumes "exchange_since b e" and "clock_since b c" and "next_id (ids e) c = Inr (i, g, c')"
  shows "fresh_in e i"
  unfolding fresh_in_def
proof (intro allI impI)
  fix pair y
  assume "resting e pair y"
  then have "unat (o_id y) < max b (id_floor (ids e))" using assms(1) unfolding exchange_since_def by blast
  also have "\<dots> \<le> unat i" using next_id_since [OF assms(3) _ assms(2)] assms(1) by (simp add: exchange_since_def)
  finally show "o_id y \<noteq> i" by auto
qed

lemma submit_sound:
  assumes s: "replays_sound J e0 n v" and e: "exchange_since b (we_inner v)" and small: "books_small (we_inner v)" and c: "clock_since b c"
    and run: "exec_command J (SubmitOrder pair ty sd p q u) (WalE v) c io = Inr (r, WalE v')"
    and enc: "\<forall>(s, ty) \<in> set (numbered (of_nat n) (entries_of v (SubmitOrder pair ty sd p q u) c r)). encodes J s ty"
  shows "replays_sound J e0 (n + length (entries_of v (SubmitOrder pair ty sd p q u) c r)) v'"
proof -
  from run obtain i v1 c1 x c2 res c3 where
    id: "wal_next_id v c = Inr (i, v1, c1)" and new: "order_new i ty sd Empty p q u c1 = Inr (x, c2)"
    and add: "wal_add_order J v1 pair x c2 io = Inr (res, v', c3)"
    by (auto simp: and_then_Inr)
  from id obtain g where g: "next_id (ids (we_inner v)) c = Inr (i, g, c1)"
    and v1: "v1 = v\<lparr>we_inner := we_inner v\<lparr>ids := g\<rparr>\<rparr>"
    by (auto simp: wal_next_id_def core_next_id_def and_then_Inr)
  have x: "o_id x = i" "o_remaining x = o_initial x" using new by (auto simp: order_new_def and_then_Inr)
  have "replays_sound J e0 n v1" using s by (rule replays_sound_cong) (simp_all add: v1 same_engine_def)
  moreover have "entry_sound (WalAddOrder pair x None) (we_inner v1)"
    using next_id_fresh [OF e c g] small x
    by (simp add: entry_sound_def v1 books_small_def fresh_in_def resting_def)
  moreover have entries: "entries_of v (SubmitOrder pair ty sd p q u) c r = [WalAddOrder pair x None]"
    using g new by simp
  ultimately show ?thesis
    using replays_sound_logged [OF _ logged_add [OF add]] enc unfolding entries by simp
qed

lemma exec_sound:
  assumes s: "replays_sound J e0 n v" and e: "exchange_since b (we_inner v)" and small: "books_small (we_inner v)" and c: "clock_since b c"
    and run: "exec_command J cmd (WalE v) c io = Inr (r, WalE v')"
    and enc: "\<forall>(s, ty) \<in> set (numbered (of_nat n) (entries_of v cmd c r)). encodes J s ty"
  shows "replays_sound J e0 (n + length (entries_of v cmd c r)) v'"
proof -
  have step: "replays_sound J e0 (n + length (entries_of v cmd c r)) v'"
    if "logged J v ty v'" "entries_of v cmd c r = [ty]" "\<forall>pair x t. ty \<noteq> WalAddOrder pair x t" for ty
  proof -
    have "entry_sound ty (we_inner v)" using that(3) small by (simp add: entry_sound_def split: wal_entry_type.split)
    from replays_sound_logged [OF s that(1) this] enc show ?thesis by (simp add: that(2))
  qed
  show ?thesis
  proof (cases cmd)
    case (SubmitOrder pair ty sd p q u)
    with submit_sound [OF s e small c] run enc show ?thesis by blast
  next
    case (CancelOrder pair i)
    with run obtain ok where "wal_cancel_order J v pair i io = Inr (ok, v')" "r = CancelReply (Inr ok)"
      by (auto simp: and_then_Inr)
    with step [OF logged_cancel [OF this(1)]] CancelOrder show ?thesis by simp
  next
    case (ModifyOrder pair m)
    with run show ?thesis by (intro step) (auto simp: and_then_Inr dest: logged_modify)
  next
    case (AddTradingPair pair)
    with run show ?thesis by (intro step) (auto simp: and_then_Inr dest: logged_pairs)
  next
    case (AddUser u)
    with run show ?thesis by (intro step) (auto simp: and_then_Inr dest: logged_users)
  next
    case (RemoveUser u)
    with run show ?thesis by (intro step) (auto simp: and_then_Inr dest: logged_users)
  next
    case (DepositBalance u a k)
    with run show ?thesis by (intro step) (auto simp: and_then_Inr dest: logged_users)
  next
    case (WithdrawBalance u a k)
    with run show ?thesis by (intro step) (auto simp: and_then_Inr dest: logged_users)
  qed (use s run in simp_all)
qed

end
