(* ===== verification/Lives.thy ===== *)
theory Lives
  imports RecoveryInvariant
begin

text \<open>
  The lives of the process on one log: the invariant of the exchange holds in all of them, and a start
  on the log of an earlier life succeeds when the clock ticks often enough.
\<close>

section \<open>Lives of the process\<close>

text \<open>
  The process serves commands on a log that was empty at first, and starts again on what it left, any
  number of times. Its commands are later on the clock than every identifier of an earlier life.
  \<open>tys\<close> lists what was logged, \<open>k\<close> counts the commands, and \<open>b\<close> bounds the identifiers of earlier lives.
\<close>

inductive lives :: "codec \<Rightarrow> u64 \<Rightarrow> u64 \<Rightarrow> wal_engine \<Rightarrow> wal_entry_type list \<Rightarrow> nat \<Rightarrow> nat \<Rightarrow> wal_engine \<Rightarrow> bool"
  for J m d w0 where
  started: "lives J m d w0 [] 0 0 w0"
| served: "lives J m d w0 tys k b v \<Longrightarrow> clock_since b c \<Longrightarrow> exec_command J cmd (WalE v) c io = Inr (r, WalE v') \<Longrightarrow>
    lives J m d w0 (tys @ entries_of v cmd c r) (Suc k) b v'"
| restarted: "lives J m d w0 tys k b v \<Longrightarrow> reads_back v D \<Longrightarrow> clock_ok c \<Longrightarrow>
    wal_engine_new J m d path D c = Inr (Inr v', c') \<Longrightarrow>
    lives J m d w0 tys k (max b (id_floor (ids (we_inner v)))) v'"

lemma lives_session: "lives J m d w0 tys k b v \<Longrightarrow> session J m d w0 tys v"
proof (induction rule: lives.induct)
  case (served tys k b v c cmd io r v')
  from exec_session [OF served.IH served.hyps(3)] show ?case by simp
qed (auto intro: session.intros)

lemma entries_length: "length (entries_of v cmd c r) \<le> 1"
  by (cases cmd) (auto split: sum.splits reply.splits)

lemma lives_length: "lives J m d w0 tys k b v \<Longrightarrow> length tys \<le> k"
proof (induction rule: lives.induct)
  case (served tys k b v c cmd io r v')
  with entries_length [of v cmd c r] show ?case by simp
qed auto

lemma numbered_append: "numbered s (xs @ ys) = numbered s xs @ numbered (s + of_nat (length xs)) ys"
  by (induction xs arbitrary: s) (simp_all add: ac_simps)

lemma lives_run:
  assumes "lives J m d w0 tys k b v" and "\<forall>(cmd, c, io) \<in> set arrivals. clock_since b c"
    and "sr_engine (run_engine J on (WalE v) arrivals) = Some w"
  shows "\<exists>v'. w = WalE v' \<and> lives J m d w0 (tys @ run_entries J v arrivals) (k + length arrivals) b v'"
  using assms
proof (induction arrivals arbitrary: tys v k)
  case (Cons a arrivals)
  obtain cmd c io where a: "a = (cmd, c, io)" by (cases a)
  from Cons.prems(3) obtain r w1 where run1: "exec_command J cmd (WalE v) c io = Inr (r, w1)"
    by (auto simp: a split: sum.splits fault.splits)
  from exec_session [OF session.start run1, of 0 0] obtain v1 where w1: "w1 = WalE v1" by blast
  note run = run1 [unfolded w1]
  have "clock_since b c" using Cons.prems(2) a by simp
  from Cons.IH [OF lives.served [OF Cons.prems(1) this run]] Cons.prems(2,3) show ?case
    by (simp add: a run Let_def del: exec_command.simps)
qed auto

lemma fresh_replays_sound:
  assumes "wal_engine_new J m d path D c0 = Inr (Inr w0, c1)" and "d_file D = None \<or> d_file D = Some []"
  shows "core_new m d = Inr (we_inner w0)" and "replays_sound J (we_inner w0) 0 w0"
proof -
  have "log_of J [] []" by (auto simp: log_of_def file_of_def intro!: exI [of _ "[]"])
  moreover have "replay_log J [] e s c = Inr (e, s, c)" for e s c by (simp add: replay_log.simps [of J "[]"])
  ultimately have "core_new m d = Inr (we_inner w0) \<and> ww_seq (we_writer w0) = 0 \<and> ww_file (we_writer w0) = []"
    using assms by (auto simp: wal_engine_new_def and_then_Inr wal_writer_new_def set_seq_def split: option.splits)
  moreover from this have "engine_ok (we_inner w0)" using core_new_ok by (auto simp: exchange_ok_def)
  moreover have "population (we_inner w0) = 0" if "core_new m d = Inr (we_inner w0)"
    using that by (auto simp: core_new_def and_then_Inr eq_commute [of _ "we_inner w0"] population_def lodgers_def
        book_ids_def resting_def)
  ultimately show "core_new m d = Inr (we_inner w0)" "replays_sound J (we_inner w0) 0 w0"
    using \<open>log_of J [] []\<close> by (auto simp: replays_sound_def rebuilds_def intro!: exI [of _ "[]"])
qed

lemma restart_sound:
  assumes "replays_sound J e0 n w" and e0: "core_new m d = Inr e0" and disk: "reads_back w D"
  shows "wal_engine_new J m d path D c = Inr (Inr w2, c') \<Longrightarrow>
      engine_ok (we_inner w2) \<and> same_engine (we_inner w2) (we_inner w) \<and> (timely e0 c \<longrightarrow> timely (we_inner w2) c')"
    and "ticking 0 c \<Longrightarrow> 3 * n \<le> length c \<Longrightarrow> \<exists>w2 c'. wal_engine_new J m d path D c = Inr (Inr w2, c')"
proof -
  from assms(1) obtain es where es: "log_of J es (ww_file (we_writer w))" "length es = n"
    and sound: "rebuilds e0 es (we_inner w)" unfolding replays_sound_def by blast
  have "wal_entries J (byte_lines (ww_file (we_writer w))) = Inr es"
    using read_log_append [OF es(1), of "[]"] by (simp add: read_log_def wal_entries.simps [of J "[]"])
  note run = replay_log_entries [OF this]
  show "wal_engine_new J m d path D c = Inr (Inr w2, c') \<Longrightarrow>
      engine_ok (we_inner w2) \<and> same_engine (we_inner w2) (we_inner w) \<and> (timely e0 c \<longrightarrow> timely (we_inner w2) c')"
    using run e0 disk rebuilds_Inr [OF sound]
    by (auto simp: wal_engine_new_def and_then_Inr wal_writer_new_def reads_back_def set_seq_def split: option.splits)
  assume "ticking 0 c" "3 * n \<le> length c"
  moreover have "last_timestamp (ids e0) = 0"
    using e0 by (auto simp: core_new_def generator_new_def and_then_Inr split: if_splits)
  ultimately have "paced e0 c" "3 * length es \<le> length c" by (simp_all add: paced_def es(2))
  from rebuilds_paced [OF sound this] obtain e1 s d1 where "replay_entries es e0 0 c = Inr (e1, s, d1)" .
  then show "\<exists>w2 c'. wal_engine_new J m d path D c = Inr (Inr w2, c')"
    using run e0 disk by (simp add: wal_engine_new_def wal_writer_new_def reads_back_def)
qed

lemma restarted_since:
  assumes "exchange_since b e" and "engine_ok e2" and "gen_ok (ids e2)" and "same_engine e2 e"
  shows "exchange_since (max b (id_floor (ids e))) e2"
  unfolding exchange_since_def
proof (intro conjI allI impI)
  fix pair y
  assume "resting e2 pair y"
  from same_engine_resting [OF assms(4) this] assms(1) show "unat (o_id y) < max (max b (id_floor (ids e))) (id_floor (ids e2))"
    unfolding exchange_since_def by (metis max.strict_coboundedI1)
qed (use assms in auto)

lemma lives_invariant:
  assumes "lives J m d w0 tys k b v" and "wal_engine_new J m d path D c0 = Inr (Inr w0, c1)"
    and "d_file D = None \<or> d_file D = Some []"
    and "\<forall>(s, ty) \<in> set (numbered 0 tys). encodes J s ty" and "k \<le> 2 ^ 32"
  shows "exchange_since b (we_inner v) \<and> at_most k (we_inner v) \<and> replays_sound J (we_inner w0) (length tys) v"
  using assms
proof (induction rule: lives.induct)
  case started
  note fresh = fresh_replays_sound [OF started.prems(1,2)]
  have "\<exists>g. we_inner w0 = \<lparr>orderbooks = [], users = [], ids = g\<rparr>"
    using fresh(1) by (auto simp: core_new_def and_then_Inr eq_commute [of _ "we_inner w0"])
  then have "at_most 0 (we_inner w0)" by (auto simp: at_most_def book_ids_def resting_def)
  with fresh core_new_ok [OF fresh(1)] show ?case by simp
next
  case (served tys k b v c cmd io r v')
  have enc: "\<forall>(s, ty) \<in> set (numbered 0 tys). encodes J s ty"
    "\<forall>(s, ty) \<in> set (numbered (of_nat (length tys)) (entries_of v cmd c r)). encodes J s ty"
    using served.prems(3) by (auto simp: numbered_append)
  then have inv: "exchange_since b (we_inner v)" "at_most k (we_inner v)" "replays_sound J (we_inner w0) (length tys) v"
    using served.IH served.prems by simp_all
  have small: "books_small (we_inner v)"
    using at_most_small [OF _ inv(2)] inv(1) served.prems(4) by (simp add: exchange_since_def)
  have "good_step b k (exec_command J cmd (WalE v) c io)"
    using inv served.hyps(2) served.prems(4) by (intro exec_step) simp_all
  then have "exchange_since b (we_inner v')" "at_most (Suc k) (we_inner v')"
    by (simp_all add: served.hyps(3) good_step_def del: exec_command.simps)
  with exec_sound [OF inv(3,1) small served.hyps(2,3) enc(2)] show ?case by simp
next
  case (restarted tys k b v D' c path' v' c')
  then have inv: "exchange_since b (we_inner v)" "at_most k (we_inner v)" "replays_sound J (we_inner w0) (length tys) v"
    by blast+
  note fresh = fresh_replays_sound [OF restarted.prems(1,2)]
  obtain e0 where e0: "core_new m d = Inr e0" "recoverable J e0 [] w0" using fresh_start [OF restarted.prems(1,2)] by blast
  have short: "length tys < 2 ^ 64" using lives_length [OF restarted.hyps(1)] restarted.prems(4) by simp
  from session_recoverable [OF lives_session [OF restarted.hyps(1)] e0(2,1) restarted.prems(3) short]
  have "recoverable J e0 tys v" .
  from restart_recoverable [OF this e0(1) short restarted.hyps(2), of path' c] restarted.hyps(4)
  have kept: "ww_file (we_writer v') = ww_file (we_writer v)" "ww_seq (we_writer v') = ww_seq (we_writer v)" by simp_all
  from restart_sound(1) [OF inv(3) fresh(1) restarted.hyps(2,4)] have
    again: "engine_ok (we_inner v')" "same_engine (we_inner v') (we_inner v)"
      "timely (we_inner w0) c \<longrightarrow> timely (we_inner v') c'" by blast+
  have "gen_ok (ids (we_inner v'))"
    using again(3) core_new_ok [OF fresh(1)] restarted.hyps(3) by (simp add: timely_def exchange_ok_def)
  from restarted_since [OF inv(1) again(1) this again(2)] same_engine_at_most [OF again(2) inv(2)]
    replays_sound_cong [OF inv(3) again(2) kept] show ?case by simp
qed

lemma engine_from_env_logged:
  assumes "engine_from_env J (Some ''true'') (Some path) disks m d c = Inr (w, c')"
  shows "\<exists>v. w = WalE v \<and> wal_engine_new J m d path (disks path) c = Inr (Inr v, c')"
proof -
  from assms obtain r k where "wal_engine_new J m d path (disks path) c = Inr (r, k)"
    and "(case r of Inl msg \<Rightarrow> Inl (Panic (WalUnavailable msg)) | Inr w \<Rightarrow> Inr (WalE w, k)) = Inr (w, c')"
    by (auto simp: engine_from_env_def and_then_Inr)
  then show ?thesis by (cases r) auto
qed

text \<open>One restart, whatever the clock of the new process reads while it replays the log.\<close>

lemma restart_restores_invariant:
  fixes path :: string
  assumes "engine_from_env J (Some ''true'') (Some path) disks m d c0 = Inr (WalE w0, c1)"
    and "d_file (disks path) = None \<or> d_file (disks path) = Some []"
    and "\<forall>(cmd, c, io) \<in> set arrivals. clock_ok c" and "length arrivals \<le> 2 ^ 32"
    and "sr_engine (run_engine J on (WalE w0) arrivals) = Some (WalE w)"
    and "\<forall>(s, ty) \<in> set (numbered 0 (run_entries J w0 arrivals)). encodes J s ty"
    and "reads_back w (disks' path)"
    and "engine_from_env J (Some ''true'') (Some path) disks' m d c = Inr (w2, c')"
  shows "engine_ok (inner_of w2)"
proof -
  from engine_from_env_logged [OF assms(1)] have new: "wal_engine_new J m d path (disks path) c0 = Inr (Inr w0, c1)" by simp
  have "\<forall>(cmd, c, io) \<in> set arrivals. clock_since 0 c" using assms(3) by simp
  from lives_run [OF lives.started this assms(5), of m d] have
    "lives J m d w0 (run_entries J w0 arrivals) (length arrivals) 0 w" by simp
  from lives_invariant [OF this new assms(2,6,4)] have
    "replays_sound J (we_inner w0) (length (run_entries J w0 arrivals)) w" by blast
  from engine_from_env_logged [OF assms(8)] restart_sound(1) [OF this fresh_replays_sound(1) [OF new assms(2)] assms(7)]
  show ?thesis by auto
qed

text \<open>A first life of the process, up to its end.\<close>

lemma sample_new: "wal_engine_new sample_codec 1 1 ''x'' (sample_disk None) [] = Inr (Inr sample_fresh, [])"
  using engine_from_env_logged [OF sample_starts] by simp

lemma sample_life: "lives sample_codec 1 1 sample_fresh [WalAddUser 7] 2 0 sample_later"
proof -
  have "\<forall>(cmd, c, io) \<in> set sample_commands. clock_since 0 c" by (simp add: sample_commands_def)
  from lives_run [OF lives.started this sample_run(1), of 1 1, unfolded sample_run(2)] show ?thesis
    by (simp add: sample_commands_def numeral_2_eq_2)
qed

text \<open>
  C10. The exchange invariant survives restarts. Let the process live any number of times on one log,
  empty at first, and serve fewer than two to the 32 commands in all, none of which panics. Let its clocks
  be usable, and the commands of each life later on the clock than every identifier issued in the lives
  before; without that an identifier can be issued twice. Then in every state the books are well formed,
  the accounts solvent, and every resting order is secured by a sufficient lock and rests in one book
  only; and the next command keeps it so, or panics because of the log, the clock or the overflow of a
  credit.
\<close>

theorem exchange_survives_restarts:
  assumes "wal_engine_new J m d path D c0 = Inr (Inr w0, c1)" and "d_file D = None \<or> d_file D = Some []"
    and "lives J m d w0 tys k b v" and "k < 2 ^ 32"
    and "\<forall>(s, ty) \<in> set (numbered 0 tys). encodes J s ty" and "clock_since b c"
  shows "engine_ok (we_inner v) \<and>
    (case exec_command J cmd (WalE v) c io of
       Inl f \<Rightarrow> log_fault f \<or> clock_fault f \<or> credit_overflow f
     | Inr (_, w) \<Rightarrow> engine_ok (inner_of w))"
proof -
  from lives_invariant [OF assms(3,1,2,5)] assms(4) have
    inv: "exchange_since b (inner_of (WalE v))" "at_most k (inner_of (WalE v))" by simp_all
  from exec_step [OF this assms(4,6), of J cmd io] inv(1) show ?thesis
    by (auto simp: good_step_def exchange_since_def simp del: exec_command.simps split: sum.splits)
qed

theorem exchange_survives_restarts_witness:
  "\<exists>v. lives sample_codec 1 1 sample_fresh [WalAddUser 7] 2 0 v \<and> users (we_inner v) = [(7, user_new (Some 7) 0)] \<and>
     engine_ok (we_inner v)"
proof -
  obtain v c' where v: "wal_engine_new sample_codec 1 1 ''x'' (sample_disk (Some [123, 49, 125, 10])) [] = Inr (Inr v, c')"
    using sample_restarts engine_from_env_logged by blast
  have "max 0 (id_floor (ids (we_inner sample_later))) = 0"
    by (simp add: sample_later_def sample_fresh_def core_add_user_def id_floor_def in_era_def EPOCH_def)
  with lives.restarted [OF sample_life sample_reads_back _ v] have lives: "lives sample_codec 1 1 sample_fresh [WalAddUser 7] 2 0 v"
    by simp
  have "case wal_engine_new sample_codec 1 1 ''x'' (sample_disk (Some [123, 49, 125, 10])) [] of
      Inr (Inr v, _) \<Rightarrow> users (we_inner v) = [(7, user_new (Some 7) 0)] | _ \<Rightarrow> False" by code_simp
  then have "users (we_inner v) = [(7, user_new (Some 7) 0)]" by (simp add: v)
  moreover have "engine_ok (we_inner v)"
    using exchange_survives_restarts [OF sample_new _ lives, of "[]"] sample_encodes(1) by (simp add: sample_disk_def)
  ultimately show ?thesis using lives by blast
qed

text \<open>
  C13. A restart succeeds. Let the process live any number of times on one log, empty at first, as above:
  its commands do not panic, and are later on the clock than the identifiers of earlier lives.
  If the clock of the restart ticks, each reading a millisecond later than the one before, three readings
  per entry of the log are enough for the process to start again on it: no entry makes the replay panic, however
  much it trades, and the engine it starts with has the books and accounts of the old one, up to the time
  stamps of orders.
\<close>

theorem restart_succeeds:
  assumes "wal_engine_new J m d path D c0 = Inr (Inr w0, c1)" and "d_file D = None \<or> d_file D = Some []"
    and "lives J m d w0 tys k b v" and "k \<le> 2 ^ 32"
    and "\<forall>(s, ty) \<in> set (numbered 0 tys). encodes J s ty"
    and "reads_back v (disks path')" and "ticking 0 c" and "3 * length tys \<le> length c"
  shows "\<exists>w c'. engine_from_env J (Some ''true'') (Some path') disks m d c = Inr (w, c') \<and>
    engine_ok (inner_of w) \<and> same_engine (inner_of w) (we_inner v)"
proof -
  from lives_invariant [OF assms(3,1,2,5,4)] have "replays_sound J (we_inner w0) (length tys) v" by blast
  note restart = restart_sound [OF this fresh_replays_sound(1) [OF assms(1,2)] assms(6)]
  from restart(2) [OF assms(7,8)] obtain w c' where w: "wal_engine_new J m d path' (disks path') c = Inr (Inr w, c')" by blast
  with restart(1) [OF w] show ?thesis by (auto simp: engine_from_env_def)
qed

theorem restart_succeeds_witness:
  "\<exists>w c'. engine_from_env sample_codec (Some ''true'') (Some ''x'') (\<lambda>_. sample_disk (Some [123, 49, 125, 10])) 1 1
      [1704067200001000000, 1704067200002000000, 1704067200003000000] = Inr (w, c') \<and> users (inner_of w) = [(7, user_new (Some 7) 0)]"
proof -
  have "ticking 0 [1704067200001000000, 1704067200002000000, 1704067200003000000]" by (simp add: millis_def)
  with restart_succeeds [OF sample_new _ sample_life _ _ _, where path' = "''x''" and disks = "\<lambda>_. sample_disk (Some [123, 49, 125, 10])"
      and c = "[1704067200001000000, 1704067200002000000, 1704067200003000000]", OF _ _ _ sample_reads_back] sample_encodes(1)
  obtain w c' where "engine_from_env sample_codec (Some ''true'') (Some ''x'') (\<lambda>_. sample_disk (Some [123, 49, 125, 10])) 1 1
      [1704067200001000000, 1704067200002000000, 1704067200003000000] = Inr (w, c')" "same_engine (inner_of w) (we_inner sample_later)"
    by (auto simp: sample_disk_def)
  then show ?thesis by (auto simp: same_engine_def sample_later_def sample_fresh_def core_add_user_def hm_contains_def hm_insert_def)
qed

end
