(* ===== verification/Spec2Isabelle.thy ===== *)
theory Spec2Isabelle
  imports Findings Requests Lives
begin

text \<open>
  Verification of the Vertex matching engine (the Rust crate under \<open>src/engine/src\<close>).

  \<^bold>\<open>The program.\<close> The engine keeps one order book per trading pair, an account per user and a
  generator of identifiers. Clients call a gRPC service (\<open>grpc/mod.rs\<close>), whose handlers send
  commands to one engine task; the task executes them one at a time on an \<open>EngineWrapper\<close>
  (\<open>engine/mod.rs\<close>), which is the in-memory \<open>CoreEngine\<close> or the \<open>WalEngine\<close> (\<open>wal/engine.rs\<close>), the
  same engine behind a write-ahead log (\<open>wal/mod.rs\<close>). Placing an order locks funds of the account
  (\<open>user/mod.rs\<close>), matches it against the book (\<open>orderbook/mod.rs\<close>), and settles the trades on the
  accounts; trades are published to Redis (\<open>redis/mod.rs\<close>).

  \<^bold>\<open>Conventions.\<close> Integers keep their width (\<open>32 word\<close>, \<open>64 word\<close>); prices are signed 32 bit words behind
  a datatype ordered as signed numbers. A \<open>HashMap\<close> is an association list in its iteration order, a
  \<open>BTreeMap\<close> one sorted by key, a \<open>VecDeque\<close> a list, front first. A method returns its result and the
  object after the call. Errors the source returns are \<open>Inl\<close> values of the error type; a panic is a
  \<open>fault\<close> with the place where it happens, and ends the run. The system clock is an input: the list
  of the readings a run takes, in nanoseconds; a run that wants more readings than it is given ends
  with \<open>ClockExhausted\<close>, so that waiting for the clock is never mistaken for an answer. The outcome of
  each write to the log file is an input, too. The loops of matching terminate by the measures proved
  with them, and no definition uses fuel.

  \<^bold>\<open>Parameters.\<close> \<open>serde_json\<close> is the record \<open>codec\<close> of the three calls the log makes; what the theorems
  need of it is that decoding inverts encoding on one line without line feeds (\<open>encodes\<close>). The \<open>uuid\<close>
  crate is a pair of functions for parsing and printing. The Redis client is three: whether an address
  is valid, whether it connects, and the outcome of each pipeline, which says what commands ran and how
  many old entries of the stream each evicted; that no fewer than the 10000 of \<open>MAXLEN ~\<close> remain is the
  documented behaviour of Redis. The iteration order of a \<open>HashMap\<close> is the
  insertion order of the model; no theorem depends on it except through sets, sums and equalities of
  runs of the same engine.

  \<^bold>\<open>Theories.\<close>

  \<^item> \<open>Prelude\<close>, \<open>Maps\<close>: checked and saturating machine arithmetic, result composition, and the two map
    interfaces as the locales \<open>key_store\<close> and \<open>ordered_store\<close>, interpreted on the models of \<open>HashMap\<close>
    and \<open>BTreeMap\<close>.
  \<^item> \<open>Types\<close> (\<open>types/mod.rs\<close>, \<open>trading_pair/mod.rs\<close>), \<open>Snowflake\<close> (\<open>snowflake_id/mod.rs\<close>), \<open>Orders\<close>
    (\<open>order/mod.rs\<close>, \<open>order_modify/mod.rs\<close>, \<open>trade/mod.rs\<close>, \<open>level_info/mod.rs\<close>): the data and its
    operations. \<open>Snowflake\<close> proves that identifiers strictly increase and never collide, through the
    locale \<open>id_source\<close>.
  \<^item> \<open>OrderBook\<close>: every operation of \<open>orderbook/mod.rs\<close>. \<open>Matching\<close> states matching on bags of orders as
    a sequence of crossings, which the loops refine; \<open>BookInvariant\<close>, \<open>BookTheorems\<close>, \<open>Issuing\<close>,
    \<open>Priority\<close>, \<open>Cancelling\<close>, \<open>Resting\<close>, \<open>Placement\<close> prove the invariant of the book, conservation of
    quantity, price-time priority, the relation between the two matching routines, FillOrKill,
    cancellation, and the depth snapshot.
  \<^item> \<open>Users\<close>: accounts, locks and their solvency. \<open>CoreEngine\<close>: every operation of \<open>CoreEngine\<close>.
    \<open>Settlement\<close>, \<open>CoreInvariant\<close>, \<open>CoreOrders\<close>, \<open>CoreReach\<close>, \<open>Exchange\<close>: the invariant that every
    resting order is secured by a lock, that settlement can only fail by the overflow of a credit,
    and what each operation does to books, locks and balances.
  \<^item> \<open>Liveness\<close>: a placement makes at most one trade more than the book has orders, so submitting an
    order returns on a clock that ticks, given two readings per resting order and four more. \<open>Pacing\<close>: a
    trade takes an order out of the books, so that over a run of placements the readings spent are
    paid for by the orders placed.
  \<^item> \<open>Wal\<close>, \<open>WalEngine\<close>: log entries, checksums, writer, reader and the logged engine. \<open>WalTheorems\<close>:
    what is written is read back, and what a crash can cost. \<open>Replay\<close> and \<open>EngineReplay\<close>: a run of
    the book, and of the engine, repeated with another clock agrees with the first up to identifiers
    and times. \<open>Recovery\<close>: the log of any session, replayed, rebuilds the engine the session ended with.
  \<^item> \<open>Wrapper\<close>, \<open>Grpc\<close>, \<open>Handlers\<close>: the choice of the engine, the engine task, conversions and handlers,
    and the entries handed to Redis. \<open>Service\<close>: the engine task serves any list of commands; the locale
    \<open>command_server\<close> states what one command keeps, its interpretation carries the exchange invariant
    through a run, and the logged engine is shown to answer as the engine in memory. \<open>Requests\<close>: what
    a client learns from a submission, on every path.
  \<^item> \<open>Publisher\<close>: the bounded channel between the engine task and the Redis worker, and the worker, as
    steps that interleave; the trades told to clients end up in the stream, which keeps at least the last
    10000. \<open>Process\<close>: \<open>main.rs\<close>, and
    the service started again on the log of its predecessors. \<open>RecoveryInvariant\<close>: what replaying one
    entry keeps, and what it costs; \<open>Lives\<close>: through any number of lives on one log the engine satisfies
    the invariant of the exchange, and three readings of the clock per entry are enough to start again.
  \<^item> \<open>Samples\<close> and \<open>Findings\<close>: concrete books and runs.

  \<^bold>\<open>Not modelled.\<close> What the Redis client does on the wire, which is the outcome of a pipeline here; the gRPC transport, signals, logging, the generated gRPC code and the
  API gateway: they hold no state of the exchange and only move bytes. Memory layout, \<open>reserve\<close> and
  the scheduling of handler tasks before their commands reach the channel are left out; the commands
  of a run are taken in the order of the channel.
\<close>

end
